(* ===== verification/Raft_Prelude.thy ===== *)
theory Raft_Prelude
  imports Main "HOL-Library.Word" "HOL-Library.List_Lexorder" "HOL-Library.Char_ord"
begin

text \<open>
  Shared vocabulary of the development: Go's machine integers and byte strings, the error
  values of the program, the sequencing of fallible operations over a state (Go's
  \<open>x, err := f(); if err != nil { return err }\<close>), and keyed SQL tables kept as association
  lists in key order, with the interface \<open>keyed_table\<close> the storage layer relies on.
\<close>

section \<open>Types\<close>

type_synonym u64 = "64 word"
  \<comment> \<open>Go's \<open>uint64\<close>: terms and log indices; \<open>+\<close> wraps.\<close>

type_synonym bytes = string
  \<comment> \<open>Go's \<open>string\<close> and \<open>[]byte\<close>: HOL's \<open>char\<close> is a byte.\<close>

text \<open>
  The error values the program creates or passes on. A driver error is whatever the SQL
  driver reports, a transport error whatever gRPC, the network or an expired context reports;
  the other constructors are the program's own errors and those of the
  standard library functions it calls.
\<close>

datatype error =
    DriverError
  | ErrNoRows
  | NumError bytes
  | MetadataInvalid bytes bytes error
  | JsonError
  | UnsupportedCommand
  | InternalRaftError error
  | OptionRequired bytes
  | ConfigInvalid bytes
  | InvalidPeerEntry bytes
  | DuplicatePeer bytes
  | TransportError
  | Unimplemented bytes
  | CannotMarshal bytes
  | CannotUnmarshal bytes

type_synonym 'a result = "error + 'a"

type_synonym ('s, 'a) action = "'s \<Rightarrow> 'a result \<times> 's"
  \<comment> \<open>a fallible operation on a state: the state is returned on the error path too\<close>

section \<open>Collections of rewrite rules\<close>

named_theorems table_simps \<open>lookup, update and ordering of keyed tables\<close>
named_theorems go_int_simps \<open>conversions between uint64 and int64\<close>
named_theorems frame_simps \<open>what an operation leaves unchanged\<close>

section \<open>Conversions between uint64 and int64\<close>

text \<open>Go's \<open>int64(x)\<close> reinterprets the bits, and \<open>uint64(i)\<close> undoes it.\<close>

definition int64_of :: "u64 \<Rightarrow> int" where
  "int64_of x = sint x"

definition uint64_of :: "int \<Rightarrow> u64" where
  "uint64_of i = word_of_int i"

text \<open>Signed 64-bit wrap-around of an exact integer (arithmetic on \<open>int\<close>, \<open>int64\<close> and \<open>time.Duration\<close>).\<close>

definition wrap64 :: "int \<Rightarrow> int" where
  "wrap64 i = sint (word_of_int i :: u64)"

lemma uint64_of_int64_of [simp, go_int_simps]: "uint64_of (int64_of x) = x"
  by (simp add: uint64_of_def int64_of_def)

lemma int64_of_inject [simp, go_int_simps]: "int64_of x = int64_of y \<longleftrightarrow> x = y"
  by (metis uint64_of_int64_of)

lemma inj_int64_of: "inj int64_of"
  by (simp add: inj_def)

lemma int64_of_less: "int64_of x < 2 ^ 63"
  using sint_lt [of x] by (simp add: int64_of_def)

lemma int64_of_0 [simp, go_int_simps]: "int64_of 0 = 0"
  by (simp add: int64_of_def)

text \<open>Below \<open>2 ^ 63\<close> the two readings agree; from there on the signed one is negative.\<close>

lemma int64_of_small:
  assumes "x < 2 ^ 63"
  shows "int64_of x = uint x"
proof -
  have "uint x < 2 ^ 63"
    using assms by (simp add: word_less_def)
  moreover have "0 \<le> uint x"
    by simp
  ultimately have "signed_take_bit 63 (uint x) = uint x"
    by (intro signed_take_bit_int_eq_self) linarith+
  then show ?thesis
    by (simp add: int64_of_def sint_uint)
qed

lemma int64_of_le_iff:
  assumes "x < 2 ^ 63" and "y < 2 ^ 63"
  shows "int64_of x \<le> int64_of y \<longleftrightarrow> x \<le> y"
  using assms by (simp add: int64_of_small word_le_def)

lemma int64_of_less_iff:
  assumes "x < 2 ^ 63" and "y < 2 ^ 63"
  shows "int64_of x < int64_of y \<longleftrightarrow> x < y"
  using assms by (simp add: int64_of_small word_less_def)

lemma wrap64_small: "- (2 ^ 63) \<le> i \<Longrightarrow> i < 2 ^ 63 \<Longrightarrow> wrap64 i = i"
  by (simp add: wrap64_def sint_sbintrunc' signed_take_bit_int_eq_self)

lemma wrap64_bounds: "- (2 ^ 63) \<le> wrap64 i \<and> wrap64 i < 2 ^ 63"
  using sint_ge [of "word_of_int i :: u64"] sint_lt [of "word_of_int i :: u64"]
  by (simp add: wrap64_def)

text \<open>Successors of 64-bit indices.\<close>

lemma u64_Suc_le: "(x :: u64) < y \<Longrightarrow> x + 1 \<le> y"
  by (rule inc_le)

lemma unat_u64_Suc:
  assumes "(x :: u64) < y"
  shows "unat (x + 1) = Suc (unat x)"
proof -
  have "unat x < unat y"
    using assms by (simp add: word_less_nat_alt)
  moreover have "unat y < 2 ^ 64"
    using unsigned_less [of y, where ?'a = nat] by simp
  ultimately have "unat x + 1 < 2 ^ 64"
    by linarith
  then show ?thesis
    by (simp add: unat_word_ariths)
qed

lemma u64_less_Suc: "(x :: u64) < y \<Longrightarrow> x < x + 1"
  by (simp add: word_less_nat_alt unat_u64_Suc)

section \<open>Sequencing of fallible operations\<close>

definition ret :: "'a \<Rightarrow> ('s, 'a) action" where
  "ret x s = (Inr x, s)"

definition fail :: "error \<Rightarrow> ('s, 'a) action" where
  "fail e s = (Inl e, s)"

definition and_then :: "('s, 'a) action \<Rightarrow> ('a \<Rightarrow> ('s, 'b) action) \<Rightarrow> ('s, 'b) action" where
  "and_then m f s = (case m s of (Inl e, s') \<Rightarrow> (Inl e, s') | (Inr x, s') \<Rightarrow> f x s')"

lemma and_then_assoc: "and_then (and_then m f) g = and_then m (\<lambda>x. and_then (f x) g)"
  by (auto simp: and_then_def fun_eq_iff split: prod.splits sum.splits)

lemma and_then_ret [simp]: "and_then (ret x) f = f x" "and_then m ret = m"
  by (auto simp: and_then_def ret_def fun_eq_iff split: prod.splits sum.splits)

lemma and_then_cases:
  assumes "and_then m f s = (r, s')"
  obtains (err) e where "m s = (Inl e, s')" "r = Inl e"
    | (ok) x t where "m s = (Inr x, t)" "f x t = (r, s')"
  using assms by (auto simp: and_then_def split: prod.splits sum.splits)

section \<open>Keyed tables\<close>

text \<open>
  A SQL table with a primary key is an association list in increasing key order.
  \<open>upsert\<close> is \<open>INSERT ... ON CONFLICT(key) DO UPDATE\<close>; \<open>delete_where\<close> is
  \<open>DELETE ... WHERE\<close> with a condition on the key.
\<close>

fun upsert :: "'k::linorder \<Rightarrow> 'v \<Rightarrow> ('k \<times> 'v) list \<Rightarrow> ('k \<times> 'v) list" where
  "upsert k v [] = [(k, v)]"
| "upsert k v ((k', v') # t) =
     (if k < k' then (k, v) # (k', v') # t
      else if k = k' then (k, v) # t
      else (k', v') # upsert k v t)"

definition delete_where :: "('k \<Rightarrow> bool) \<Rightarrow> ('k \<times> 'v) list \<Rightarrow> ('k \<times> 'v) list" where
  "delete_where P t = filter (\<lambda>r. \<not> P (fst r)) t"

definition wf_table :: "('k::linorder \<times> 'v) list \<Rightarrow> bool" where
  "wf_table t \<longleftrightarrow> sorted_wrt (<) (map fst t)"

lemma map_of_upsert [table_simps]: "map_of (upsert k v t) = (map_of t)(k \<mapsto> v)"
  by (induction k v t rule: upsert.induct) (auto simp: fun_eq_iff)

lemma keys_upsert [table_simps]: "fst ` set (upsert k v t) = insert k (fst ` set t)"
  by (induction k v t rule: upsert.induct) auto

lemma wf_table_Nil [simp]: "wf_table []"
  by (simp add: wf_table_def)

lemma wf_table_Cons: "wf_table ((k, v) # t) \<longleftrightarrow> wf_table t \<and> (\<forall>k' \<in> fst ` set t. k < k')"
  by (auto simp: wf_table_def)

lemma wf_table_upsert [simp, table_simps]: "wf_table t \<Longrightarrow> wf_table (upsert k v t)"
  by (induction k v t rule: upsert.induct) (auto simp: wf_table_Cons keys_upsert)

lemma map_of_delete_where [table_simps]:
  "map_of (delete_where P t) = (\<lambda>k. if P k then None else map_of t k)"
  by (induction t) (auto simp: delete_where_def fun_eq_iff)

lemma wf_table_delete_where [simp, table_simps]: "wf_table t \<Longrightarrow> wf_table (delete_where P t)"
  by (simp add: wf_table_def delete_where_def sorted_wrt_map sorted_wrt_filter)

lemma wf_table_last:
  assumes "wf_table t" and "t \<noteq> []" and "map_of t k = Some v"
  shows "k \<le> fst (last t)"
  using assms
proof (induction t)
  case (Cons r t)
  then show ?case
    by (cases r) (force simp: wf_table_Cons less_imp_le last_in_set split: if_splits)
qed simp

lemma wf_table_distinct: "wf_table t \<Longrightarrow> distinct (map fst t)"
  by (simp add: wf_table_def strict_sorted_iff [unfolded sorted_wrt_iff_nth_less]
      strict_sorted_iff)

text \<open>A sorted table is determined by its lookups.\<close>

lemma wf_table_eqI:
  fixes a b :: "('k::linorder \<times> 'v) list"
  assumes "wf_table a" and "wf_table b" and "map_of a = map_of b"
  shows "a = b"
proof -
  have "distinct (map fst a)" "distinct (map fst b)"
    using assms(1,2) by (simp_all add: wf_table_distinct)
  moreover from this assms(3) have "set a = set b"
    using map_of_inject_set by blast
  moreover have "sorted (map fst a)" "sorted (map fst b)"
    using assms(1,2) by (auto simp: wf_table_def strict_sorted_iff)
  ultimately show ?thesis
    by (intro map_sorted_distinct_set_unique [of fst]) (auto simp: distinct_map)
qed

lemma map_of_last:
  assumes "wf_table t" and "t \<noteq> []"
  shows "map_of t (fst (last t)) = Some (snd (last t))"
  using assms by (simp add: wf_table_distinct)

text \<open>
  The interface the storage layer uses: what a lookup returns after each mutation, and
  that every mutation keeps the table well formed.
\<close>

locale keyed_table =
  fixes tempty :: "'t"
    and tupsert :: "'k \<Rightarrow> 'v \<Rightarrow> 't \<Rightarrow> 't"
    and tdelete :: "('k \<Rightarrow> bool) \<Rightarrow> 't \<Rightarrow> 't"
    and tlookup :: "'t \<Rightarrow> 'k \<Rightarrow> 'v option"
    and tinv :: "'t \<Rightarrow> bool"
  assumes lookup_empty: "tlookup tempty k = None"
    and lookup_upsert: "tlookup (tupsert k v t) k' = (if k' = k then Some v else tlookup t k')"
    and lookup_delete: "tlookup (tdelete P t) k = (if P k then None else tlookup t k)"
    and inv_empty: "tinv tempty"
    and inv_upsert: "tinv t \<Longrightarrow> tinv (tupsert k v t)"
    and inv_delete: "tinv t \<Longrightarrow> tinv (tdelete P t)"
begin

lemma inv_upserts: "tinv t \<Longrightarrow> tinv (fold (\<lambda>r. tupsert (f r) (g r)) rs t)"
  by (induction rs arbitrary: t) (auto intro: inv_upsert)

lemma lookup_upserts:
  "tlookup (fold (\<lambda>r. tupsert (f r) (g r)) rs t) k =
     (case map_of (rev (map (\<lambda>r. (f r, g r)) rs)) k of None \<Rightarrow> tlookup t k | Some v \<Rightarrow> Some v)"
  by (induction rs arbitrary: t)
    (auto simp: lookup_upsert map_add_def map_of_append split: option.splits)

lemma lookup_replace:
  "tlookup (tupsert k v (tdelete P t)) k' =
     (if k' = k then Some v else if P k' then None else tlookup t k')"
  by (simp add: lookup_upsert lookup_delete)

end

interpretation sorted_table: keyed_table "[]" upsert delete_where map_of wf_table
  by unfold_locales (auto simp: table_simps)

end
