(* ===== verification/Go_Strings.thy ===== *)
theory Go_Strings
  imports Raft_Prelude
begin

text \<open>
  The functions of Go's \<open>strconv\<close> and \<open>strings\<close> packages the program calls: decimal
  formatting and parsing of 64-bit integers (the metadata table and the environment hold
  numbers as text), splitting, trimming, searching and replacing. The round trip
  \<open>ParseUint (FormatUint x) = x\<close> is what makes the persisted term readable again.
\<close>

section \<open>Decimal formatting and parsing\<close>

definition digit_char :: "nat \<Rightarrow> char" where
  "digit_char d = char_of (48 + d)"

definition is_digit :: "char \<Rightarrow> bool" where
  "is_digit c \<longleftrightarrow> 48 \<le> (of_char c :: nat) \<and> (of_char c :: nat) \<le> 57"

definition digit_val :: "char \<Rightarrow> nat" where
  "digit_val c = of_char c - 48"

fun decimal :: "nat \<Rightarrow> bytes" where
  "decimal n = (if n < 10 then [digit_char n] else decimal (n div 10) @ [digit_char (n mod 10)])"

declare decimal.simps [simp del]

text \<open>The accumulating loop of \<open>strconv.ParseUint\<close> with base 10 and a limit on the value.\<close>

fun parse_digits :: "nat \<Rightarrow> nat \<Rightarrow> bytes \<Rightarrow> nat option" where
  "parse_digits limit n [] = Some n"
| "parse_digits limit n (c # cs) =
     (if \<not> is_digit c then None
      else let n' = 10 * n + digit_val c in
        if limit \<le> n' then None else parse_digits limit n' cs)"

definition FormatUint :: "u64 \<Rightarrow> bytes" where
  "FormatUint x = decimal (unat x)"

definition ParseUint :: "bytes \<Rightarrow> u64 result" where
  "ParseUint s =
     (if s = [] then Inl (NumError s)
      else case parse_digits (2 ^ 64) 0 s of
          None \<Rightarrow> Inl (NumError s)
        | Some n \<Rightarrow> Inr (of_nat n))"

definition Itoa :: "int \<Rightarrow> bytes" where
  "Itoa i = (if i < 0 then CHR ''-'' # decimal (nat (- i)) else decimal (nat i))"

text \<open>\<open>strconv.Atoi\<close> on a 64-bit platform: an optional sign, then decimal digits in range.\<close>

definition Atoi :: "bytes \<Rightarrow> int result" where
  "Atoi s =
     (let neg = (s \<noteq> [] \<and> hd s = CHR ''-'');
          body = (if s \<noteq> [] \<and> (hd s = CHR ''-'' \<or> hd s = CHR ''+'') then tl s else s)
      in if body = [] then Inl (NumError s)
         else case parse_digits (if neg then 2 ^ 63 + 1 else 2 ^ 63) 0 body of
             None \<Rightarrow> Inl (NumError s)
           | Some n \<Rightarrow> Inr (if neg then - int n else int n))"

lemma of_char_digit_char: "d < 10 \<Longrightarrow> (of_char (digit_char d) :: nat) = 48 + d"
  by (simp add: digit_char_def of_char_of)

lemma is_digit_digit_char [simp]: "d < 10 \<Longrightarrow> is_digit (digit_char d)"
  by (simp add: is_digit_def of_char_digit_char)

lemma digit_val_digit_char [simp]: "d < 10 \<Longrightarrow> digit_val (digit_char d) = d"
  by (simp add: digit_val_def of_char_digit_char)

lemma decimal_not_Nil [simp]: "decimal n \<noteq> []"
  by (subst decimal.simps) simp

lemma decimal_digits: "c \<in> set (decimal n) \<Longrightarrow> is_digit c"
  by (induction n rule: decimal.induct) (subst (asm) (2) decimal.simps, auto split: if_splits)

lemma parse_digits_append:
  "parse_digits limit m (xs @ ys) =
     (case parse_digits limit m xs of None \<Rightarrow> None | Some n \<Rightarrow> parse_digits limit n ys)"
  by (induction limit m xs rule: parse_digits.induct) (auto simp: Let_def)

lemma parse_digits_decimal: "n < limit \<Longrightarrow> parse_digits limit 0 (decimal n) = Some n"
proof (induction n rule: decimal.induct)
  case (1 n)
  show ?case
  proof (cases "n < 10")
    case True
    with "1.prems" show ?thesis
      by (subst decimal.simps) (simp add: Let_def)
  next
    case False
    with 1 have "parse_digits limit 0 (decimal (n div 10)) = Some (n div 10)"
      by simp
    with False "1.prems" show ?thesis
      by (subst decimal.simps) (simp add: parse_digits_append Let_def)
  qed
qed

lemma parse_digits_bound: "parse_digits limit m s = Some n \<Longrightarrow> m < limit \<Longrightarrow> n < limit"
  by (induction limit m s rule: parse_digits.induct) (auto simp: Let_def split: if_splits)

lemma ParseUint_FormatUint [simp]: "ParseUint (FormatUint x) = Inr x"
proof -
  have "unat x < 2 ^ 64"
    using unsigned_less [of x, where ?'a = nat] by simp
  then show ?thesis
    by (simp add: ParseUint_def FormatUint_def parse_digits_decimal)
qed

lemma FormatUint_inject [simp]: "FormatUint x = FormatUint y \<longleftrightarrow> x = y"
  by (metis ParseUint_FormatUint sum.inject(2))

lemma FormatUint_not_Nil [simp]: "FormatUint x \<noteq> []"
  by (simp add: FormatUint_def)

lemma hd_decimal_no_sign: "hd (decimal n) \<noteq> CHR ''-'' \<and> hd (decimal n) \<noteq> CHR ''+''"
proof -
  have "is_digit (hd (decimal n))"
    by (rule decimal_digits [of _ n]) simp
  then show ?thesis
    by (auto simp: is_digit_def)
qed

lemma Atoi_Itoa:
  assumes "- (2 ^ 63) \<le> i" and "i < 2 ^ 63"
  shows "Atoi (Itoa i) = Inr i"
proof (cases "i < 0")
  case True
  then have "parse_digits (2 ^ 63 + 1) 0 (decimal (nat (- i))) = Some (nat (- i))"
    using assms by (intro parse_digits_decimal) simp
  with True show ?thesis
    by (simp add: Atoi_def Itoa_def)
next
  case False
  then have "parse_digits (2 ^ 63) 0 (decimal (nat i)) = Some (nat i)"
    using assms by (intro parse_digits_decimal) simp
  with False show ?thesis
    by (simp add: Atoi_def Itoa_def hd_decimal_no_sign)
qed

section \<open>Searching, splitting, replacing\<close>

fun has_prefix :: "bytes \<Rightarrow> bytes \<Rightarrow> bool" where
  "has_prefix [] s = True"
| "has_prefix (p # ps) [] = False"
| "has_prefix (p # ps) (c # cs) = (p = c \<and> has_prefix ps cs)"

text \<open>\<open>strings.Contains\<close>\<close>

fun contains :: "bytes \<Rightarrow> bytes \<Rightarrow> bool" where
  "contains [] sub = (sub = [])"
| "contains (c # cs) sub = (has_prefix sub (c # cs) \<or> contains cs sub)"

text \<open>\<open>strings.Split\<close> with a separator of one byte: always at least one part.\<close>

fun split_byte :: "char \<Rightarrow> bytes \<Rightarrow> bytes list" where
  "split_byte sep [] = [[]]"
| "split_byte sep (c # cs) =
     (if c = sep then [] # split_byte sep cs
      else case split_byte sep cs of
          [] \<Rightarrow> [[c]]
        | part # parts \<Rightarrow> (c # part) # parts)"

text \<open>\<open>strings.SplitN(s, sep, 2)\<close>: at most one cut, at the first separator.\<close>

fun split_first :: "char \<Rightarrow> bytes \<Rightarrow> bytes list" where
  "split_first sep [] = [[]]"
| "split_first sep (c # cs) =
     (if c = sep then [[], cs]
      else case split_first sep cs of
          [] \<Rightarrow> [[c]]
        | part # parts \<Rightarrow> (c # part) # parts)"

text \<open>\<open>strings.ReplaceAll\<close> of a single byte.\<close>

definition replace_byte :: "char \<Rightarrow> bytes \<Rightarrow> bytes \<Rightarrow> bytes" where
  "replace_byte old new s = concat (map (\<lambda>c. if c = old then new else [c]) s)"

fun join_byte :: "char \<Rightarrow> bytes list \<Rightarrow> bytes" where
  "join_byte sep [] = []"
| "join_byte sep [p] = p"
| "join_byte sep (p # q # ps) = p @ sep # join_byte sep (q # ps)"

lemma split_byte_not_Nil [simp]: "split_byte sep s \<noteq> []"
  by (induction s) (auto split: list.splits)

lemma split_first_not_Nil [simp]: "split_first sep s \<noteq> []"
  by (induction s) (auto split: list.splits)

lemma join_byte_Cons: "ps \<noteq> [] \<Longrightarrow> join_byte sep ((c # p) # ps) = c # join_byte sep (p # ps)"
  by (cases ps) auto

lemma join_split_byte: "join_byte sep (split_byte sep s) = s"
proof (induction s)
  case (Cons c cs)
  obtain p ps where ps: "split_byte sep cs = p # ps"
    by (meson list.exhaust split_byte_not_Nil)
  with Cons show ?case
    by (cases ps) auto
qed simp

lemma split_byte_parts: "p \<in> set (split_byte sep s) \<Longrightarrow> sep \<notin> set p"
  by (induction s arbitrary: p) (auto split: list.splits if_splits)

lemma split_byte_no_sep: "sep \<notin> set p \<Longrightarrow> split_byte sep p = [p]"
  by (induction p) auto

lemma split_byte_append_sep: "sep \<notin> set p \<Longrightarrow> split_byte sep (p @ sep # s) = p # split_byte sep s"
  by (induction p) auto

lemma split_byte_join:
  "ps \<noteq> [] \<Longrightarrow> (\<And>p. p \<in> set ps \<Longrightarrow> sep \<notin> set p) \<Longrightarrow> split_byte sep (join_byte sep ps) = ps"
proof (induction sep ps rule: join_byte.induct)
  case (3 sep p q ps)
  then show ?case
    by (simp add: split_byte_append_sep)
qed (simp_all add: split_byte_no_sep)

lemma split_first_eq:
  "split_first sep s =
     (if sep \<in> set s then [takeWhile (\<lambda>c. c \<noteq> sep) s, tl (dropWhile (\<lambda>c. c \<noteq> sep) s)] else [s])"
  by (induction s) auto

lemma has_prefix_append [simp]: "has_prefix p (p @ s)"
  by (induction p) auto

lemma has_prefix_iff: "has_prefix p s \<longleftrightarrow> (\<exists>t. s = p @ t)"
  by (induction p s rule: has_prefix.induct) auto

lemma contains_iff: "contains s sub \<longleftrightarrow> (\<exists>u v. s = u @ sub @ v)"
proof (induction s)
  case (Cons c cs)
  show ?case
    by (simp add: Cons has_prefix_iff) (metis append_Cons append_Nil append_eq_Cons_conv)
qed auto

section \<open>Trimming white space\<close>

text \<open>
  \<open>strings.TrimSpace\<close> removes the runes of \<open>unicode.IsSpace\<close> at both ends. The UTF-8
  encodings of those runes: none is a prefix of another, and each starts at the nearest
  lead byte, so trimming by encodings is trimming by runes, on ill-formed input too.
\<close>

definition space_encodings :: "nat list list" where
  "space_encodings =
     [[9], [10], [11], [12], [13], [32],
      [194, 133], [194, 160], [225, 154, 128],
      [226, 128, 128], [226, 128, 129], [226, 128, 130], [226, 128, 131], [226, 128, 132],
      [226, 128, 133], [226, 128, 134], [226, 128, 135], [226, 128, 136], [226, 128, 137],
      [226, 128, 138], [226, 128, 168], [226, 128, 169], [226, 128, 175], [226, 129, 159],
      [227, 128, 128]]"

definition spaces :: "bytes list" where
  "spaces = map (map char_of) space_encodings"

function trim_left :: "bytes list \<Rightarrow> bytes \<Rightarrow> bytes" where
  "trim_left encs s =
     (case find (\<lambda>p. p \<noteq> [] \<and> has_prefix p s) encs of
        None \<Rightarrow> s
      | Some p \<Rightarrow> trim_left encs (drop (length p) s))"
  by pat_completeness auto
termination
  by (relation "measure (\<lambda>(encs, s). length s)") (auto simp: find_Some_iff has_prefix_iff)

declare trim_left.simps [simp del]

definition TrimSpace :: "bytes \<Rightarrow> bytes" where
  "TrimSpace s = rev (trim_left (map rev spaces) (rev (trim_left spaces s)))"

lemma trim_left_suffix: "\<exists>pre. s = pre @ trim_left encs s"
proof (induction encs s rule: trim_left.induct)
  case (1 encs s)
  show ?case
  proof (cases "find (\<lambda>p. p \<noteq> [] \<and> has_prefix p s) encs")
    case None
    then show ?thesis
      by (simp add: trim_left.simps [of encs s])
  next
    case (Some p)
    then obtain pre where "drop (length p) s = pre @ trim_left encs (drop (length p) s)"
      using 1 by blast
    then have "s = (take (length p) s @ pre) @ trim_left encs (drop (length p) s)"
      by (metis append_assoc append_take_drop_id)
    moreover have "trim_left encs s = trim_left encs (drop (length p) s)"
      using Some by (simp add: trim_left.simps [of encs s])
    ultimately show ?thesis
      by metis
  qed
qed

lemma trim_left_done: "find (\<lambda>p. p \<noteq> [] \<and> has_prefix p (trim_left encs s)) encs = None"
proof (induction encs s rule: trim_left.induct)
  case (1 encs s)
  then show ?case
    by (cases "find (\<lambda>p. p \<noteq> [] \<and> has_prefix p s) encs")
      (simp_all add: trim_left.simps [of encs s])
qed

lemma TrimSpace_substring: "\<exists>pre post. s = pre @ TrimSpace s @ post"
proof -
  obtain pre where pre: "s = pre @ trim_left spaces s"
    using trim_left_suffix by blast
  obtain post where "rev (trim_left spaces s) = post @ trim_left (map rev spaces) (rev (trim_left spaces s))"
    using trim_left_suffix by blast
  then have "trim_left spaces s = TrimSpace s @ rev post"
    unfolding TrimSpace_def by (metis rev_append rev_rev_ident)
  with pre show ?thesis
    by metis
qed

end
