(* ===== verification/Config.thy ===== *)
theory Config
  imports Go_Strings
begin

text \<open>
  \<open>internal/config/config.go\<close>: a node's configuration from environment variables. The
  environment is a function (\<open>os.Getenv\<close>: the empty string for an unset variable);
  durations are signed 64-bit nanoseconds, and multiplying milliseconds wraps.
\<close>

section \<open>Configuration\<close>

record config_Peer =
  cfgPeerID :: bytes
  cfgPeerAddress :: bytes

record Config =
  cfgNodeID :: bytes
  cfgGRPCAddr :: bytes
  cfgHTTPAddr :: bytes
  cfgDataDir :: bytes
  cfgPeers :: "config_Peer list"
  cfgElectionMin :: int
  cfgElectionMax :: int
  cfgHeartbeatInterval :: int
  cfgSnapshotThreshold :: u64

definition Millisecond :: int where
  "Millisecond = 1000000"

definition env :: "(bytes \<Rightarrow> bytes) \<Rightarrow> bytes \<Rightarrow> bytes \<Rightarrow> bytes" where
  "env getenv key fallback =
     (let v = TrimSpace (getenv key) in if v \<noteq> [] then v else fallback)"

definition envDurationMS :: "(bytes \<Rightarrow> bytes) \<Rightarrow> bytes \<Rightarrow> int \<Rightarrow> int" where
  "envDurationMS getenv key fallback =
     (case Atoi (env getenv key (Itoa fallback)) of
        Inl _ \<Rightarrow> wrap64 (fallback * Millisecond)
      | Inr ms \<Rightarrow> if ms \<le> 0 then wrap64 (fallback * Millisecond) else wrap64 (ms * Millisecond))"

definition envUint64 :: "(bytes \<Rightarrow> bytes) \<Rightarrow> bytes \<Rightarrow> u64 \<Rightarrow> u64" where
  "envUint64 getenv key fallback =
     (case ParseUint (env getenv key (FormatUint fallback)) of Inl _ \<Rightarrow> fallback | Inr parsed \<Rightarrow> parsed)"

text \<open>The loop of \<open>parsePeers\<close>: the ids seen so far, and the peers collected so far.\<close>

fun parse_peer_parts :: "bytes \<Rightarrow> bytes list \<Rightarrow> config_Peer list \<Rightarrow> bytes list \<Rightarrow> config_Peer list result" where
  "parse_peer_parts selfID seen acc [] = Inr acc"
| "parse_peer_parts selfID seen acc (part # parts) =
     (case split_first CHR ''='' (TrimSpace part) of
        [pid, addr] \<Rightarrow>
          if pid = [] \<or> addr = [] then Inl (InvalidPeerEntry part)
          else if pid \<in> set seen then Inl (DuplicatePeer pid)
          else if pid = selfID then parse_peer_parts selfID (pid # seen) acc parts
          else parse_peer_parts selfID (pid # seen)
                 (acc @ [\<lparr>cfgPeerID = pid, cfgPeerAddress = addr\<rparr>]) parts
      | _ \<Rightarrow> Inl (InvalidPeerEntry part))"

definition parsePeers :: "bytes \<Rightarrow> bytes \<Rightarrow> config_Peer list result" where
  "parsePeers raw selfID =
     (if TrimSpace raw = [] then Inr []
      else parse_peer_parts selfID [] [] (split_byte CHR '','' raw))"

definition FromEnv :: "(bytes \<Rightarrow> bytes) \<Rightarrow> Config result" where
  "FromEnv getenv =
     (let cfg = \<lparr>cfgNodeID = env getenv ''NODE_ID'' ''node1'',
                 cfgGRPCAddr = env getenv ''RAFT_GRPC_ADDR'' '':9001'',
                 cfgHTTPAddr = env getenv ''RAFT_HTTP_ADDR'' '':8001'',
                 cfgDataDir = env getenv ''RAFT_DATA_DIR'' ''data/node1'',
                 cfgPeers = [],
                 cfgElectionMin = envDurationMS getenv ''RAFT_ELECTION_MIN_MS'' 500,
                 cfgElectionMax = envDurationMS getenv ''RAFT_ELECTION_MAX_MS'' 900,
                 cfgHeartbeatInterval = envDurationMS getenv ''RAFT_HEARTBEAT_MS'' 100,
                 cfgSnapshotThreshold = envUint64 getenv ''RAFT_SNAPSHOT_THRESHOLD'' 10000\<rparr> in
      if cfgElectionMin cfg \<le> cfgHeartbeatInterval cfg
        then Inl (ConfigInvalid ''RAFT_ELECTION_MIN_MS must be greater than RAFT_HEARTBEAT_MS'')
      else if cfgElectionMax cfg < cfgElectionMin cfg
        then Inl (ConfigInvalid ''RAFT_ELECTION_MAX_MS must be >= RAFT_ELECTION_MIN_MS'')
      else case parsePeers (getenv ''RAFT_PEERS'') (cfgNodeID cfg) of
          Inl err \<Rightarrow> Inl err
        | Inr peers \<Rightarrow> Inr (cfg\<lparr>cfgPeers := peers\<rparr>))"

section \<open>What a loaded configuration satisfies\<close>

definition peers_ok :: "bytes \<Rightarrow> config_Peer list \<Rightarrow> bool" where
  "peers_ok selfID ps \<longleftrightarrow>
     distinct (map cfgPeerID ps) \<and> selfID \<notin> set (map cfgPeerID ps)
     \<and> list_all (\<lambda>p. cfgPeerID p \<noteq> [] \<and> cfgPeerAddress p \<noteq> []) ps"

lemma parse_peer_parts_ok:
  "parse_peer_parts selfID seen acc parts = Inr ps \<Longrightarrow> peers_ok selfID acc \<Longrightarrow>
     set (map cfgPeerID acc) \<subseteq> set seen \<Longrightarrow> peers_ok selfID ps"
proof (induction selfID seen acc parts rule: parse_peer_parts.induct)
  case (2 selfID seen acc part parts)
  from "2.prems"(1) obtain pid addr where
    split: "split_first CHR ''='' (TrimSpace part) = [pid, addr]"
    and nonempty: "pid \<noteq> []" "addr \<noteq> []" and fresh: "pid \<notin> set seen"
    by (auto split: list.splits if_splits)
  show ?case
  proof (cases "pid = selfID")
    case True
    with 2 split nonempty fresh show ?thesis
      by (auto simp: subset_insertI2)
  next
    case False
    have "peers_ok selfID (acc @ [\<lparr>cfgPeerID = pid, cfgPeerAddress = addr\<rparr>])"
      using "2.prems"(2,3) False nonempty fresh by (auto simp: peers_ok_def)
    with 2 split nonempty fresh False show ?thesis
      by (auto simp: subset_insertI2)
  qed
qed simp

lemma parsePeers_ok: "parsePeers raw selfID = Inr ps \<Longrightarrow> peers_ok selfID ps"
  by (auto simp: parsePeers_def peers_ok_def split: if_splits dest!: parse_peer_parts_ok)

lemma env_not_Nil: "fallback \<noteq> [] \<Longrightarrow> env getenv key fallback \<noteq> []"
  by (simp add: env_def Let_def)

lemma envDurationMS_default:
  assumes "TrimSpace (getenv key) = []" and "0 < fallback" and "fallback \<le> 1000000"
  shows "envDurationMS getenv key fallback = fallback * Millisecond"
proof -
  have "Atoi (Itoa fallback) = Inr fallback"
    using assms(2,3) by (intro Atoi_Itoa) simp_all
  moreover have "wrap64 (fallback * Millisecond) = fallback * Millisecond"
    using assms(2,3) by (intro wrap64_small) (simp_all add: Millisecond_def)
  ultimately show ?thesis
    using assms by (simp add: envDurationMS_def env_def)
qed


lemma FromEnv_ok:
  assumes "FromEnv getenv = Inr cfg"
  shows "cfgNodeID cfg \<noteq> [] \<and> cfgGRPCAddr cfg \<noteq> [] \<and> cfgHTTPAddr cfg \<noteq> [] \<and> cfgDataDir cfg \<noteq> []
    \<and> peers_ok (cfgNodeID cfg) (cfgPeers cfg)
    \<and> cfgHeartbeatInterval cfg < cfgElectionMin cfg \<and> cfgElectionMin cfg \<le> cfgElectionMax cfg"
proof -
  obtain ps where "parsePeers (getenv ''RAFT_PEERS'') (cfgNodeID cfg) = Inr ps" "cfgPeers cfg = ps"
    using assms by (auto simp: FromEnv_def Let_def split: if_splits sum.splits)
  then have "peers_ok (cfgNodeID cfg) (cfgPeers cfg)"
    using parsePeers_ok by simp
  moreover have "cfgNodeID cfg = env getenv ''NODE_ID'' ''node1''" "cfgGRPCAddr cfg = env getenv ''RAFT_GRPC_ADDR'' '':9001''"
    "cfgHTTPAddr cfg = env getenv ''RAFT_HTTP_ADDR'' '':8001''" "cfgDataDir cfg = env getenv ''RAFT_DATA_DIR'' ''data/node1''"
    "cfgHeartbeatInterval cfg < cfgElectionMin cfg" "cfgElectionMin cfg \<le> cfgElectionMax cfg"
    using assms by (auto simp: FromEnv_def Let_def split: if_splits sum.splits)
  ultimately show ?thesis
    by (simp add: env_not_Nil)
qed

text \<open>
  C37: a configuration that loads is usable: the node has an id, addresses and a data directory;
  its peers have ids and addresses, no id twice, and the node is not among them; the heartbeat
  interval is below the election timeout, whose bounds are in order.
\<close>

theorem FromEnv_valid:
  assumes "FromEnv getenv = Inr cfg"
  shows "cfgNodeID cfg \<noteq> [] \<and> cfgGRPCAddr cfg \<noteq> [] \<and> cfgHTTPAddr cfg \<noteq> [] \<and> cfgDataDir cfg \<noteq> []
    \<and> distinct (map cfgPeerID (cfgPeers cfg)) \<and> cfgNodeID cfg \<notin> set (map cfgPeerID (cfgPeers cfg))
    \<and> (\<forall>p \<in> set (cfgPeers cfg). cfgPeerID p \<noteq> [] \<and> cfgPeerAddress p \<noteq> [])
    \<and> cfgHeartbeatInterval cfg < cfgElectionMin cfg \<and> cfgElectionMin cfg \<le> cfgElectionMax cfg"
  using FromEnv_ok [OF assms] by (auto simp: peers_ok_def list_all_iff)

lemma TrimSpace_Nil [simp]: "TrimSpace [] = []"
  by code_simp

lemma FromEnv_defaults:
  "\<exists>cfg. FromEnv (\<lambda>_. []) = Inr cfg \<and> cfgNodeID cfg = ''node1'' \<and> cfgPeers cfg = []
     \<and> cfgElectionMin cfg = 500 * Millisecond \<and> cfgElectionMax cfg = 900 * Millisecond"
proof -
  have "envDurationMS (\<lambda>_. []) key ms = ms * Millisecond" if "ms \<in> {100, 500, 900}" for key ms
    using that by (intro envDurationMS_default) auto
  then show ?thesis
    by (simp add: FromEnv_def Let_def env_def parsePeers_def Millisecond_def)
qed

theorem FromEnv_valid_witness:
  "\<exists>cfg. FromEnv (\<lambda>_. []) = Inr cfg \<and> cfgHeartbeatInterval cfg < cfgElectionMin cfg"
proof -
  obtain cfg where cfg: "FromEnv (\<lambda>_. []) = Inr cfg"
    using FromEnv_defaults by blast
  from cfg FromEnv_valid [OF cfg] show ?thesis
    by blast
qed

text \<open>
  C38: the product of a number of milliseconds and \<open>time.Millisecond\<close> is not checked: a large
  positive RAFT_HEARTBEAT_MS passes every check of \<open>FromEnv\<close> and yields a negative interval.
\<close>

theorem FromEnv_duration_wraps:
  "\<exists>getenv cfg. Atoi (getenv ''RAFT_HEARTBEAT_MS'') = Inr 9223372036855 \<and> FromEnv getenv = Inr cfg \<and> cfgHeartbeatInterval cfg < 0"
proof -
  define g where "g = (\<lambda>key. if key = ''RAFT_HEARTBEAT_MS'' then ''9223372036855'' else [])"
  have "Atoi ''9223372036855'' = Inr 9223372036855"
    by (simp add: Atoi_def Let_def is_digit_def digit_val_def)
  moreover have "TrimSpace ''9223372036855'' = ''9223372036855''"
    by code_simp
  ultimately have a: "Atoi ''9223372036855'' = Inr 9223372036855" "TrimSpace ''9223372036855'' = ''9223372036855''" .
  have "envDurationMS g ''RAFT_HEARTBEAT_MS'' 100 = wrap64 (9223372036855 * Millisecond)"
    by (simp add: envDurationMS_def env_def g_def a)
  also have "\<dots> = - 9223372036854551616"
    by (simp add: Millisecond_def wrap64_def sint_uint uint_word_of_int signed_take_bit_eq_take_bit_minus take_bit_eq_mod bit_iff_odd)
  finally have h: "envDurationMS g ''RAFT_HEARTBEAT_MS'' 100 = - 9223372036854551616" .
  have "envDurationMS g key ms = ms * Millisecond" if "ms \<in> {500, 900}" "key \<noteq> ''RAFT_HEARTBEAT_MS''" for key ms
    using that by (intro envDurationMS_default) (auto simp: g_def)
  with h have "\<exists>cfg. FromEnv g = Inr cfg \<and> cfgHeartbeatInterval cfg < 0"
    by (simp add: FromEnv_def Let_def env_def parsePeers_def Millisecond_def) (simp add: g_def parsePeers_def)
  moreover have "Atoi (g ''RAFT_HEARTBEAT_MS'') = Inr 9223372036855"
    by (simp add: g_def a)
  ultimately show ?thesis
    by blast
qed

end
