(* ===== verification/Go_Json.thy ===== *)
theory Go_Json
  imports Go_Strings
begin

text \<open>
  What the program uses of Go's \<open>encoding/json\<close>: \<open>Marshal\<close> of a \<open>map[string]string\<close>
  (snapshots) and of strings inside a struct (log commands), and \<open>Unmarshal\<close> into the same
  two types, on arbitrary input bytes. The encoder escapes HTML characters and replaces
  ill-formed UTF-8 by U+FFFD; the decoder accepts the full JSON grammar, ignores unknown
  fields, matches field names up to case folding and reports a type error for a value that
  is not a string. Both round trips hold for well-formed UTF-8, which protobuf guarantees
  for the strings clients send.
\<close>

section \<open>UTF-8\<close>

definition cont_byte :: "nat \<Rightarrow> nat \<Rightarrow> char \<Rightarrow> bool" where
  "cont_byte lo hi c \<longleftrightarrow> lo \<le> (of_char c :: nat) \<and> (of_char c :: nat) \<le> hi"

text \<open>
  The length of the well-formed encoding at the start of the input (the size that
  \<open>utf8.DecodeRune\<close> returns), or \<open>None\<close> where it returns \<open>RuneError\<close> with size 1.
\<close>

fun utf8_len :: "bytes \<Rightarrow> nat option" where
  "utf8_len [] = None"
| "utf8_len (c # cs) =
     (let b = (of_char c :: nat) in
      if b < 128 then Some 1
      else if 194 \<le> b \<and> b \<le> 223 then
        (case cs of c1 # _ \<Rightarrow> if cont_byte 128 191 c1 then Some 2 else None | [] \<Rightarrow> None)
      else if 224 \<le> b \<and> b \<le> 239 then
        (case cs of
           c1 # c2 # _ \<Rightarrow>
             (if cont_byte (if b = 224 then 160 else 128) (if b = 237 then 159 else 191) c1
                \<and> cont_byte 128 191 c2 then Some 3 else None)
         | _ \<Rightarrow> None)
      else if 240 \<le> b \<and> b \<le> 244 then
        (case cs of
           c1 # c2 # c3 # _ \<Rightarrow>
             (if cont_byte (if b = 240 then 144 else 128) (if b = 244 then 143 else 191) c1
                \<and> cont_byte 128 191 c2 \<and> cont_byte 128 191 c3 then Some 4 else None)
         | _ \<Rightarrow> None)
      else None)"

text \<open>\<open>utf8.AppendRune\<close>, for a code point below \<open>0x110000\<close> that is no surrogate.\<close>

definition encode_rune :: "nat \<Rightarrow> bytes" where
  "encode_rune r =
     map char_of
      (if r < 128 then [r]
       else if r < 2048 then [192 + r div 64, 128 + r mod 64]
       else if r < 65536 then [224 + r div 4096, 128 + (r div 64) mod 64, 128 + r mod 64]
       else [240 + r div 262144, 128 + (r div 4096) mod 64, 128 + (r div 64) mod 64, 128 + r mod 64])"

lemma utf8_len_pos: "utf8_len s = Some n \<Longrightarrow> 0 < n \<and> n \<le> length s"
  by (cases s) (auto simp: Let_def split: if_splits list.splits)

lemma utf8_len_take: "utf8_len s = Some n \<Longrightarrow> utf8_len (take n s @ t) = Some n"
  by (cases s) (auto simp: Let_def split: if_splits list.splits)

declare utf8_len.simps(2) [simp del]

function valid_utf8 :: "bytes \<Rightarrow> bool" where
  "valid_utf8 s =
     (if s = [] then True
      else case utf8_len s of None \<Rightarrow> False | Some n \<Rightarrow> valid_utf8 (drop n s))"
  by pat_completeness auto
termination
  by (relation "measure length") (auto dest: utf8_len_pos)

declare valid_utf8.simps [simp del]

section \<open>Marshal\<close>

definition bslash :: char where
  "bslash = char_of (92::nat)"

definition hex_digit :: "nat \<Rightarrow> char" where
  "hex_digit d = (if d < 10 then char_of (48 + d) else char_of (87 + d))"

text \<open>The escape of one ASCII byte (\<open>appendString\<close> with HTML escaping on).\<close>

definition escape_ascii :: "char \<Rightarrow> bytes" where
  "escape_ascii c =
     (let b = (of_char c :: nat) in
      if b = 92 \<or> b = 34 then [bslash, c]
      else if b = 8 then (bslash # ''b'')
      else if b = 12 then (bslash # ''f'')
      else if b = 10 then (bslash # ''n'')
      else if b = 13 then (bslash # ''r'')
      else if b = 9 then (bslash # ''t'')
      else if b < 32 \<or> b = 60 \<or> b = 62 \<or> b = 38
        then (bslash # ''u00'') @ [hex_digit (b div 16), hex_digit (b mod 16)]
      else [c])"

function encode_chars :: "bytes \<Rightarrow> bytes" where
  "encode_chars s =
     (case s of
        [] \<Rightarrow> []
      | c # cs \<Rightarrow>
          if (of_char c :: nat) < 128 then escape_ascii c @ encode_chars cs
          else case utf8_len s of
              None \<Rightarrow> (bslash # ''ufffd'') @ encode_chars cs
            | Some n \<Rightarrow>
                (if take n s = encode_rune 8232 then (bslash # ''u2028'')
                 else if take n s = encode_rune 8233 then (bslash # ''u2029'')
                 else take n s) @ encode_chars (drop n s))"
  by pat_completeness auto
termination
  by (relation "measure length") (auto dest: utf8_len_pos)

declare encode_chars.simps [simp del]

definition quote :: char where
  "quote = char_of (34::nat)"

definition marshal_string :: "bytes \<Rightarrow> bytes" where
  "marshal_string s = quote # encode_chars s @ [quote]"

definition marshal_member :: "bytes \<times> bytes \<Rightarrow> bytes" where
  "marshal_member kv = marshal_string (fst kv) @ CHR '':'' # marshal_string (snd kv)"

text \<open>Members separated by commas, in braces: a struct's fields or a map's sorted keys.\<close>

fun marshal_members :: "(bytes \<times> bytes) list \<Rightarrow> bytes" where
  "marshal_members [] = []"
| "marshal_members [m] = marshal_member m"
| "marshal_members (m # m' # ms) = marshal_member m @ CHR '','' # marshal_members (m' # ms)"

definition marshal_object :: "(bytes \<times> bytes) list \<Rightarrow> bytes" where
  "marshal_object ms = CHR ''{'' # marshal_members ms @ [CHR ''}'']"

section \<open>Unmarshal: the JSON grammar\<close>

datatype json =
    JNull
  | JBool bool
  | JNum bytes
  | JStr bytes
  | JArr "json list"
  | JObj "(bytes \<times> json) list"

definition is_ws :: "char \<Rightarrow> bool" where
  "is_ws c \<longleftrightarrow> (of_char c :: nat) \<in> {32, 9, 10, 13}"

definition skip_ws :: "bytes \<Rightarrow> bytes" where
  "skip_ws s = dropWhile is_ws s"

definition hex_val :: "char \<Rightarrow> nat option" where
  "hex_val c =
     (let b = (of_char c :: nat) in
      if 48 \<le> b \<and> b \<le> 57 then Some (b - 48)
      else if 97 \<le> b \<and> b \<le> 102 then Some (b - 87)
      else if 65 \<le> b \<and> b \<le> 70 then Some (b - 55)
      else None)"

fun hex4 :: "bytes \<Rightarrow> (nat \<times> bytes) option" where
  "hex4 (a # b # c # d # s) =
     (case (hex_val a, hex_val b, hex_val c, hex_val d) of
        (Some w, Some x, Some y, Some z) \<Rightarrow> Some (((w * 16 + x) * 16 + y) * 16 + z, s)
      | _ \<Rightarrow> None)"
| "hex4 _ = None"

definition simple_escape :: "char \<Rightarrow> char option" where
  "simple_escape c =
     (let b = (of_char c :: nat) in
      if b = 34 \<or> b = 92 \<or> b = 47 then Some c
      else if b = 98 then Some (char_of (8::nat))
      else if b = 102 then Some (char_of (12::nat))
      else if b = 110 then Some (char_of (10::nat))
      else if b = 114 then Some (char_of (13::nat))
      else if b = 116 then Some (char_of (9::nat))
      else None)"

text \<open>A second \<open>\u\<close> escape that completes a surrogate pair.\<close>

definition low_surrogate :: "bytes \<Rightarrow> (nat \<times> bytes) option" where
  "low_surrogate s =
     (case s of
        a # b # t \<Rightarrow>
          (if a = bslash \<and> b = CHR ''u'' then
             (case hex4 t of
                Some (r, u) \<Rightarrow> if 56320 \<le> r \<and> r < 57344 then Some (r, u) else None
              | None \<Rightarrow> None)
           else None)
      | _ \<Rightarrow> None)"

definition prepend :: "bytes \<Rightarrow> (bytes \<times> bytes) option \<Rightarrow> (bytes \<times> bytes) option" where
  "prepend p r = map_option (\<lambda>(s, rest). (p @ s, rest)) r"

lemma hex4_length: "hex4 s = Some (r, t) \<Longrightarrow> length t < length s"
  by (induction s rule: hex4.induct) (auto split: option.splits)

lemma low_surrogate_length: "low_surrogate s = Some (r, t) \<Longrightarrow> length t < length s"
  by (auto simp: low_surrogate_def split: list.splits if_splits option.splits dest!: hex4_length)

text \<open>The rest of a string literal after its opening quote: its value and what follows it.\<close>

function parse_string :: "bytes \<Rightarrow> (bytes \<times> bytes) option" where
  "parse_string s =
     (case s of
        [] \<Rightarrow> None
      | c # cs \<Rightarrow>
          if c = quote then Some ([], cs)
          else if c = bslash then
            (case cs of
               [] \<Rightarrow> None
             | e # es \<Rightarrow>
                 if e = CHR ''u'' then
                   (case hex4 es of
                      None \<Rightarrow> None
                    | Some (r, t) \<Rightarrow>
                        if 55296 \<le> r \<and> r < 57344 then
                          (case (if r < 56320 then low_surrogate t else None) of
                             Some (r2, u) \<Rightarrow>
                               prepend (encode_rune (65536 + (r - 55296) * 1024 + (r2 - 56320)))
                                 (parse_string u)
                           | None \<Rightarrow> prepend (encode_rune 65533) (parse_string t))
                        else prepend (encode_rune r) (parse_string t))
                 else
                   (case simple_escape e of
                      None \<Rightarrow> None
                    | Some b \<Rightarrow> prepend [b] (parse_string es)))
          else if (of_char c :: nat) < 32 then None
          else
            (case utf8_len s of
               None \<Rightarrow> prepend (encode_rune 65533) (parse_string cs)
             | Some n \<Rightarrow> prepend (take n s) (parse_string (drop n s))))"
  by pat_completeness auto
termination
  by (relation "measure length")
    (auto dest: utf8_len_pos dest!: hex4_length low_surrogate_length split: if_splits)

declare parse_string.simps [simp del]

text \<open>Numbers: an optional minus, an integer part, a fraction, an exponent.\<close>

definition take_digits :: "bytes \<Rightarrow> bytes \<times> bytes" where
  "take_digits s = (takeWhile is_digit s, dropWhile is_digit s)"

definition parse_int_part :: "bytes \<Rightarrow> bytes option" where
  "parse_int_part s =
     (case s of
        [] \<Rightarrow> None
      | c # cs \<Rightarrow>
          if c = CHR ''0'' then Some cs
          else if is_digit c then Some (dropWhile is_digit cs)
          else None)"

definition parse_frac :: "bytes \<Rightarrow> bytes option" where
  "parse_frac s =
     (case s of
        c # cs \<Rightarrow>
          (if c = CHR ''.'' then
             (case take_digits cs of (ds, t) \<Rightarrow> if ds = [] then None else Some t)
           else Some s)
      | [] \<Rightarrow> Some [])"

definition parse_exp :: "bytes \<Rightarrow> bytes option" where
  "parse_exp s =
     (case s of
        c # cs \<Rightarrow>
          (if c = CHR ''e'' \<or> c = CHR ''E'' then
             (let cs' = (case cs of d # ds \<Rightarrow> if d = CHR ''+'' \<or> d = CHR ''-'' then ds else cs | [] \<Rightarrow> cs)
              in case take_digits cs' of (ds, t) \<Rightarrow> if ds = [] then None else Some t)
           else Some s)
      | [] \<Rightarrow> Some [])"

definition parse_number :: "bytes \<Rightarrow> (json \<times> bytes) option" where
  "parse_number s =
     (case parse_int_part (case s of c # cs \<Rightarrow> if c = CHR ''-'' then cs else s | [] \<Rightarrow> s) of
        None \<Rightarrow> None
      | Some t \<Rightarrow>
          (case parse_frac t of
             None \<Rightarrow> None
           | Some u \<Rightarrow>
               (case parse_exp u of
                  None \<Rightarrow> None
                | Some v \<Rightarrow> Some (JNum (take (length s - length v) s), v))))"

definition max_nesting_depth :: nat where
  "max_nesting_depth = 10000"

text \<open>
  Values, array elements and object members; the first argument is fuel (every call uses
  a unit, and each value takes at least one byte of input), the second the nesting depth,
  which Go limits.
\<close>

fun parse_value :: "nat \<Rightarrow> nat \<Rightarrow> bytes \<Rightarrow> (json \<times> bytes) option"
  and parse_elems :: "nat \<Rightarrow> nat \<Rightarrow> bytes \<Rightarrow> (json list \<times> bytes) option"
  and parse_members :: "nat \<Rightarrow> nat \<Rightarrow> bytes \<Rightarrow> ((bytes \<times> json) list \<times> bytes) option"
where
  "parse_value 0 d s = None"
| "parse_value (Suc f) d s =
     (case skip_ws s of
        [] \<Rightarrow> None
      | c # cs \<Rightarrow>
          if c = quote then map_option (\<lambda>(v, t). (JStr v, t)) (parse_string cs)
          else if c = CHR ''{'' then
            if max_nesting_depth \<le> d then None
            else (case skip_ws cs of
                    e # es \<Rightarrow>
                      if e = CHR ''}'' then Some (JObj [], es)
                      else map_option (\<lambda>(ms, t). (JObj ms, t)) (parse_members f (Suc d) cs)
                  | [] \<Rightarrow> None)
          else if c = CHR ''['' then
            if max_nesting_depth \<le> d then None
            else (case skip_ws cs of
                    e # es \<Rightarrow>
                      if e = CHR '']'' then Some (JArr [], es)
                      else map_option (\<lambda>(vs, t). (JArr vs, t)) (parse_elems f (Suc d) cs)
                  | [] \<Rightarrow> None)
          else if has_prefix ''null'' (c # cs) then Some (JNull, drop 4 (c # cs))
          else if has_prefix ''true'' (c # cs) then Some (JBool True, drop 4 (c # cs))
          else if has_prefix ''false'' (c # cs) then Some (JBool False, drop 5 (c # cs))
          else parse_number (c # cs))"
| "parse_elems 0 d s = None"
| "parse_elems (Suc f) d s =
     (case parse_value f d s of
        None \<Rightarrow> None
      | Some (v, t) \<Rightarrow>
          (case skip_ws t of
             c # cs \<Rightarrow>
               if c = CHR '','' then map_option (\<lambda>(vs, u). (v # vs, u)) (parse_elems f d cs)
               else if c = CHR '']'' then Some ([v], cs)
               else None
           | [] \<Rightarrow> None))"
| "parse_members 0 d s = None"
| "parse_members (Suc f) d s =
     (case skip_ws s of
        q # ks \<Rightarrow>
          if q \<noteq> quote then None
          else (case parse_string ks of
                  None \<Rightarrow> None
                | Some (k, t) \<Rightarrow>
                    (case skip_ws t of
                       c # cs \<Rightarrow>
                         if c \<noteq> CHR '':'' then None
                         else (case parse_value f d cs of
                                 None \<Rightarrow> None
                               | Some (v, u) \<Rightarrow>
                                   (case skip_ws u of
                                      e # es \<Rightarrow>
                                        if e = CHR '','' then
                                          map_option (\<lambda>(ms, w). ((k, v) # ms, w)) (parse_members f d es)
                                        else if e = CHR ''}'' then Some ([(k, v)], es)
                                        else None
                                    | [] \<Rightarrow> None))
                     | [] \<Rightarrow> None))
      | [] \<Rightarrow> None)"

text \<open>A whole document: one value with nothing but white space after it.\<close>

definition parse_json :: "bytes \<Rightarrow> json option" where
  "parse_json s =
     (case parse_value (2 * length s + 2) 0 s of
        None \<Rightarrow> None
      | Some (v, t) \<Rightarrow> if skip_ws t = [] then Some v else None)"

section \<open>Unmarshal: storing into Go values\<close>

text \<open>
  Field names match exactly or up to simple case folding. Folding maps ASCII letters to
  upper case, U+212A (Kelvin) to K and U+017F (long s) to S; no other rune folds to ASCII,
  so on the ASCII field names of this program the comparison is the one Go makes.
\<close>

fun fold_name :: "bytes \<Rightarrow> bytes" where
  "fold_name [] = []"
| "fold_name (c # cs) =
     (if has_prefix (map char_of [226::nat, 132, 170]) (c # cs) then CHR ''K'' # fold_name (drop 2 cs)
      else if has_prefix (map char_of [197::nat, 191]) (c # cs) then CHR ''S'' # fold_name (drop 1 cs)
      else if 97 \<le> (of_char c :: nat) \<and> (of_char c :: nat) \<le> 122
        then char_of (of_char c - 32 :: nat) # fold_name cs
      else c # fold_name cs)"

definition match_field :: "bytes list \<Rightarrow> bytes \<Rightarrow> bytes option" where
  "match_field fields key =
     (if key \<in> set fields then Some key
      else find (\<lambda>f. fold_name f = fold_name key) fields)"

text \<open>
  Decoding into a struct of strings: null leaves a field alone, a value of another type is
  an error (decoding goes on, but the error is returned in the end), unknown fields are
  skipped, and the last occurrence of a field wins.
\<close>

fun decode_fields :: "bytes list \<Rightarrow> (bytes \<times> json) list \<Rightarrow> (bytes \<Rightarrow> bytes) \<Rightarrow> (bytes \<Rightarrow> bytes) result" where
  "decode_fields fields [] st = Inr st"
| "decode_fields fields ((k, v) # ms) st =
     (case match_field fields k of
        None \<Rightarrow> decode_fields fields ms st
      | Some f \<Rightarrow>
          (case v of
             JStr s \<Rightarrow> decode_fields fields ms (st(f := s))
           | JNull \<Rightarrow> decode_fields fields ms st
           | _ \<Rightarrow> Inl JsonError))"

definition unmarshal_struct :: "bytes list \<Rightarrow> bytes \<Rightarrow> (bytes \<Rightarrow> bytes) result" where
  "unmarshal_struct fields raw =
     (case parse_json raw of
        Some JNull \<Rightarrow> Inr (\<lambda>_. [])
      | Some (JObj ms) \<Rightarrow> decode_fields fields ms (\<lambda>_. [])
      | _ \<Rightarrow> Inl JsonError)"

text \<open>
  Decoding into a \<open>map[string]string\<close>, as a table in key order: null stores the empty
  string. A top-level null gives the nil map, which ranges like the empty one.
\<close>

fun decode_map :: "(bytes \<times> json) list \<Rightarrow> (bytes \<times> bytes) list \<Rightarrow> (bytes \<times> bytes) list result" where
  "decode_map [] m = Inr m"
| "decode_map ((k, v) # ms) m =
     (case v of
        JStr s \<Rightarrow> decode_map ms (upsert k s m)
      | JNull \<Rightarrow> decode_map ms (upsert k [] m)
      | _ \<Rightarrow> Inl JsonError)"

definition unmarshal_map :: "bytes \<Rightarrow> (bytes \<times> bytes) list result" where
  "unmarshal_map raw =
     (case parse_json raw of
        Some JNull \<Rightarrow> Inr []
      | Some (JObj ms) \<Rightarrow> decode_map ms []
      | _ \<Rightarrow> Inl JsonError)"

section \<open>Round trips\<close>

lemma char_of_neq_u: "b < 256 \<Longrightarrow> b \<noteq> 117 \<Longrightarrow> char_of (b :: nat) \<noteq> CHR ''u''"
  by (auto dest: arg_cong [where f = "of_char :: char \<Rightarrow> nat"] simp: of_char_of)

lemma hex_val_hex_digit [simp]: "d < 16 \<Longrightarrow> hex_val (hex_digit d) = Some d"
  by (auto simp: hex_val_def hex_digit_def of_char_of)

lemma quote_neq_bslash [simp]: "quote \<noteq> bslash" "bslash \<noteq> quote"
  by (auto simp: quote_def bslash_def)

lemma utf8_len_ascii: "(of_char c :: nat) < 128 \<Longrightarrow> utf8_len (c # cs) = Some 1"
  by (simp add: utf8_len.simps)

lemma parse_string_quote [simp]: "parse_string (quote # t) = Some ([], t)"
  by (subst parse_string.simps) simp

lemma parse_string_simple_escape:
  "e \<noteq> CHR ''u'' \<Longrightarrow> simple_escape e = Some b \<Longrightarrow>
     parse_string (bslash # e # t) = prepend [b] (parse_string t)"
  by (subst parse_string.simps) simp

lemma parse_string_unicode_escape:
  "hex4 s = Some (r, t) \<Longrightarrow> r < 55296 \<Longrightarrow>
     parse_string (bslash # CHR ''u'' # s) = prepend (encode_rune r) (parse_string t)"
  by (subst parse_string.simps) simp

lemma parse_string_plain:
  assumes "32 \<le> (of_char c :: nat)" and "c \<noteq> quote" and "c \<noteq> bslash"
    and "utf8_len (c # cs) = Some n"
  shows "parse_string (c # cs) = prepend (take n (c # cs)) (parse_string (drop n (c # cs)))"
  using assms by (subst parse_string.simps) simp

lemma encode_rune_ascii: "b < 128 \<Longrightarrow> encode_rune b = [char_of b]"
  by (simp add: encode_rune_def)

lemma parse_escape_ascii:
  assumes "(of_char c :: nat) < 128"
  shows "parse_string (escape_ascii c @ t) = prepend [c] (parse_string t)"
proof -
  define b where "b = (of_char c :: nat)"
  have c: "c = char_of b" and b: "b < 128"
    using assms by (auto simp: b_def)
  consider "b \<in> {92, 34, 8, 12, 10, 13, 9}"
    | "b \<notin> {92, 34, 8, 12, 10, 13, 9}" "b < 32 \<or> b \<in> {60, 62, 38}"
    | "b \<notin> {92, 34, 8, 12, 10, 13, 9}" "\<not> (b < 32 \<or> b \<in> {60, 62, 38})"
    by blast
  then show ?thesis
  proof cases
    case 1
    then show ?thesis
      by (auto simp: c escape_ascii_def of_char_of simple_escape_def char_of_neq_u
          intro!: parse_string_simple_escape)
  next
    case 2
    have "hex4 (CHR ''0'' # CHR ''0'' # hex_digit (b div 16) # hex_digit (b mod 16) # t) = Some (b, t)"
      using b by (simp add: hex_val_def [of "CHR ''0''"])
    moreover have "escape_ascii c = bslash # CHR ''u'' # CHR ''0'' # CHR ''0'' # hex_digit (b div 16) # [hex_digit (b mod 16)]"
      using 2 by (auto simp: escape_ascii_def Let_def b_def)
    ultimately show ?thesis
      using b by (simp add: parse_string_unicode_escape encode_rune_ascii c)
  next
    case 3
    then have "escape_ascii c = [c]"
      by (auto simp: escape_ascii_def Let_def b_def)
    with 3 b show ?thesis
      using parse_string_plain [of c t 1]
      by (simp add: utf8_len_ascii c of_char_of quote_def bslash_def)
  qed
qed

lemma parse_multibyte:
  assumes "\<not> (of_char c :: nat) < 128" and "utf8_len (c # cs) = Some n"
  shows "parse_string (take n (c # cs) @ t) = prepend (take n (c # cs)) (parse_string t)"
proof -
  obtain m where n: "n = Suc m"
    using utf8_len_pos [OF assms(2)] by (cases n) auto
  have "utf8_len (c # take m cs @ t) = Some n"
    using utf8_len_take [OF assms(2), of t] by (simp add: n)
  moreover have "c \<noteq> quote" "c \<noteq> bslash"
    using assms(1) by (auto simp: quote_def bslash_def of_char_of)
  moreover have "length (take m cs) = m"
    using utf8_len_pos [OF assms(2)] by (simp add: n)
  ultimately show ?thesis
    using assms(1) parse_string_plain [of c "take m cs @ t" n] by (simp add: n)
qed

lemma hex4_line_sep: "hex4 (''2028'' @ t) = Some (8232, t)" "hex4 (''2029'' @ t) = Some (8233, t)"
  by (simp_all add: hex_val_def)

lemma prepend_Some [simp]: "prepend p (Some (s, t)) = Some (p @ s, t)"
  by (simp add: prepend_def)

lemma parse_encode_chars: "valid_utf8 s \<Longrightarrow> parse_string (encode_chars s @ quote # t) = Some (s, t)"
proof (induction s rule: valid_utf8.induct)
  case (1 s)
  show ?case
  proof (cases s)
    case Nil
    then show ?thesis
      by (subst encode_chars.simps) simp
  next
    case (Cons c cs)
    from "1.prems" Cons obtain n where n: "utf8_len s = Some n" and valid: "valid_utf8 (drop n s)"
      by (subst (asm) valid_utf8.simps) (auto split: option.splits)
    have IH: "parse_string (encode_chars (drop n s) @ quote # t) = Some (drop n s, t)"
      using "1.IH" [OF _ n valid] Cons by simp
    show ?thesis
    proof (cases "(of_char c :: nat) < 128")
      case True
      then have "n = 1"
        using n Cons by (simp add: utf8_len_ascii)
      with True IH Cons show ?thesis
        by (subst encode_chars.simps) (simp add: parse_escape_ascii)
    next
      case False
      have "encode_chars s = (if take n s = encode_rune 8232 then bslash # ''u2028''
          else if take n s = encode_rune 8233 then bslash # ''u2029'' else take n s) @ encode_chars (drop n s)"
        using False n Cons by (subst encode_chars.simps) simp
      moreover have "parse_string (take n s @ encode_chars (drop n s) @ quote # t) = Some (s, t)"
        using parse_multibyte [OF False] n IH by (simp add: Cons)
      moreover have "take n s = encode_rune r \<Longrightarrow> prepend (encode_rune r) (Some (drop n s, t)) = Some (s, t)" for r
        by (metis append_take_drop_id prepend_Some)
      ultimately show ?thesis
        using IH
          parse_string_unicode_escape [OF hex4_line_sep(1), of "encode_chars (drop n s) @ quote # t"]
          parse_string_unicode_escape [OF hex4_line_sep(2), of "encode_chars (drop n s) @ quote # t"]
        by (auto split: if_splits)
    qed
  qed
qed

lemma skip_ws_quote [simp]: "skip_ws (quote # s) = quote # s"
  by (simp add: skip_ws_def is_ws_def quote_def of_char_of)

lemma skip_ws_punct [simp]:
  "skip_ws (CHR '':'' # s) = CHR '':'' # s" "skip_ws (CHR '','' # s) = CHR '','' # s"
  "skip_ws (CHR ''{'' # s) = CHR ''{'' # s" "skip_ws (CHR ''}'' # s) = CHR ''}'' # s"
  by (simp_all add: skip_ws_def is_ws_def)

lemma quote_neq_punct [simp]:
  "quote \<noteq> CHR ''{''" "quote \<noteq> CHR ''}''" "CHR ''{'' \<noteq> quote" "CHR ''}'' \<noteq> quote"
  by (auto simp: quote_def dest: arg_cong [where f = "of_char :: char \<Rightarrow> nat"])

lemma parse_value_string:
  "valid_utf8 s \<Longrightarrow> parse_value (Suc f) d (marshal_string s @ t) = Some (JStr s, t)"
  by (simp add: marshal_string_def parse_encode_chars)

definition valid_pairs :: "(bytes \<times> bytes) list \<Rightarrow> bool" where
  "valid_pairs ms \<longleftrightarrow> list_all (\<lambda>(k, v). valid_utf8 k \<and> valid_utf8 v) ms"

definition string_members :: "(bytes \<times> bytes) list \<Rightarrow> (bytes \<times> json) list" where
  "string_members ms = map (\<lambda>(k, v). (k, JStr v)) ms"

lemma parse_member:
  assumes "valid_utf8 k" and "valid_utf8 v"
  shows "parse_members (Suc (Suc f)) d (marshal_member (k, v) @ e # t) =
     (case skip_ws (e # t) of
        e # es \<Rightarrow>
          if e = CHR '','' then map_option (\<lambda>(ms, w). ((k, JStr v) # ms, w)) (parse_members (Suc f) d es)
          else if e = CHR ''}'' then Some ([(k, JStr v)], es)
          else None
      | [] \<Rightarrow> None)"
proof -
  have "parse_string (encode_chars k @ quote # CHR '':'' # marshal_string v @ e # t) =
      Some (k, CHR '':'' # marshal_string v @ e # t)"
    using assms(1) by (rule parse_encode_chars)
  then show ?thesis
    using parse_value_string [OF assms(2), of f d "e # t"]
    by (simp add: marshal_member_def marshal_string_def [of k] del: parse_value.simps)
qed

lemma parse_members_marshal:
  "ms \<noteq> [] \<Longrightarrow> valid_pairs ms \<Longrightarrow> length ms < f \<Longrightarrow>
     parse_members f d (marshal_members ms @ CHR ''}'' # t) = Some (string_members ms, t)"
proof (induction ms arbitrary: f rule: marshal_members.induct)
  case (2 m)
  obtain k v where m: "m = (k, v)"
    by force
  obtain f' where "f = Suc (Suc f')"
    using 2 by (cases f; cases "f - 1") auto
  with 2 m show ?case
    by (simp add: parse_member valid_pairs_def string_members_def del: parse_members.simps)
next
  case (3 m m' ms)
  obtain k v where m: "m = (k, v)"
    by force
  obtain f' where f: "f = Suc (Suc f')"
    using 3 by (cases f; cases "f - 1") auto
  have "parse_members (Suc f') d (marshal_members (m' # ms) @ CHR ''}'' # t) =
      Some (string_members (m' # ms), t)"
    using 3 f by (intro "3.IH") (auto simp: valid_pairs_def)
  with 3 m f show ?case
    by (simp add: parse_member valid_pairs_def string_members_def del: parse_members.simps)
qed simp

lemma length_marshal_members: "length ms \<le> length (marshal_members ms)"
  by (induction ms rule: marshal_members.induct) (auto simp: marshal_member_def marshal_string_def)

lemma marshal_members_quote: "ms \<noteq> [] \<Longrightarrow> \<exists>s. marshal_members ms = quote # s"
  by (induction ms rule: marshal_members.induct) (auto simp: marshal_member_def marshal_string_def)

lemma parse_value_marshal_object:
  assumes "valid_pairs ms" and "length ms < f"
  shows "parse_value (Suc f) 0 (marshal_object ms) = Some (JObj (string_members ms), [])"
proof (cases "ms = []")
  case True
  then show ?thesis
    by (simp add: marshal_object_def string_members_def max_nesting_depth_def)
next
  case False
  obtain s where "marshal_members ms = quote # s"
    using marshal_members_quote [OF False] by blast
  moreover have "parse_members f (Suc 0) (marshal_members ms @ [CHR ''}'']) = Some (string_members ms, [])"
    using False assms by (intro parse_members_marshal) auto
  ultimately show ?thesis
    by (simp add: marshal_object_def max_nesting_depth_def)
qed

lemma parse_json_marshal_object:
  assumes "valid_pairs ms"
  shows "parse_json (marshal_object ms) = Some (JObj (string_members ms))"
proof -
  have "length ms < 2 * length (marshal_object ms) + 1"
    using length_marshal_members [of ms] by (simp add: marshal_object_def)
  from parse_value_marshal_object [OF assms this] show ?thesis
    by (simp add: parse_json_def skip_ws_def)
qed

lemma upsert_greatest: "(\<And>k'. k' \<in> fst ` set t \<Longrightarrow> k' < k) \<Longrightarrow> upsert k v t = t @ [(k, v)]"
  by (induction k v t rule: upsert.induct) (auto dest: less_not_sym)

lemma decode_string_members:
  "decode_map (string_members ms) m = Inr (fold (\<lambda>(k, v). upsert k v) ms m)"
  by (induction ms arbitrary: m) (auto simp: string_members_def)

lemma fold_upsert_sorted: "wf_table (t @ ms) \<Longrightarrow> fold (\<lambda>(k, v). upsert k v) ms t = t @ ms"
proof (induction ms arbitrary: t)
  case (Cons m ms)
  obtain k v where m: "m = (k, v)"
    by force
  have "upsert k v t = t @ [(k, v)]"
    using Cons.prems by (intro upsert_greatest) (auto simp: wf_table_def sorted_wrt_append m)
  with Cons show ?case
    by (simp add: m)
qed simp

lemma unmarshal_map_marshal:
  assumes "wf_table ms" and "valid_pairs ms"
  shows "unmarshal_map (marshal_object ms) = Inr ms"
  using fold_upsert_sorted [of "[]" ms] assms
  by (simp add: unmarshal_map_def parse_json_marshal_object decode_string_members)

end
