(* ===== verification/Storage.thy ===== *)
theory Storage
  imports Go_Json
begin

text \<open>
  \<open>internal/storage/storage.go\<close>: the durable state of a node in SQLite. The four tables are
  a record; every SQL statement is a function on it, and every call to the database may
  fail: \<open>faults\<close> is the script of what the driver will report next, so a theorem that holds
  for every store holds for every pattern of database failures. A transaction works on a
  copy of the tables that only \<open>Commit\<close> installs.
\<close>

section \<open>Tables, rows, the store\<close>

record Entry =
  entryIndex :: u64
  entryTerm :: u64
  entryCommand :: bytes

record Snapshot =
  LastIncludedIndex :: u64
  LastIncludedTerm :: u64
  Data :: bytes

text \<open>
  \<open>log_entries\<close> and \<open>kv\<close> are keyed by \<open>idx\<close> and \<open>key\<close>; integers in a table are signed
  64-bit, as SQLite stores them. The CHECK constraint of \<open>snapshot\<close> allows one row.
\<close>

record tables =
  metadata :: "(bytes \<times> bytes) list"
  log_entries :: "(int \<times> (int \<times> bytes)) list"
  kv :: "(bytes \<times> (bytes \<times> int)) list"
  snapshot_row :: "(int \<times> int \<times> bytes) option"

record Store =
  db :: tables
  faults :: "bool list"
  is_open :: bool

definition empty_tables :: tables where
  "empty_tables = \<lparr>metadata = [], log_entries = [], kv = [], snapshot_row = None\<rparr>"

section \<open>Calls to the database\<close>

text \<open>One call: \<open>True\<close> when the driver reports an error. A closed database always does.\<close>

definition db_call :: "Store \<Rightarrow> bool \<times> Store" where
  "db_call s =
     (if \<not> is_open s then (True, s)
      else case faults s of [] \<Rightarrow> (False, s) | b # bs \<Rightarrow> (b, s\<lparr>faults := bs\<rparr>))"

definition query :: "(tables \<Rightarrow> 'a result) \<Rightarrow> (Store, 'a) action" where
  "query q s = (case db_call s of (failed, s') \<Rightarrow> if failed then (Inl DriverError, s') else (q (db s'), s'))"

definition exec :: "(tables \<Rightarrow> tables) \<Rightarrow> (Store, unit) action" where
  "exec f s =
     (case db_call s of (failed, s') \<Rightarrow>
        if failed then (Inl DriverError, s') else (Inr (), s'\<lparr>db := f (db s')\<rparr>))"

text \<open>A transaction: \<open>Begin\<close> hands out a copy, statements change the copy, \<open>Commit\<close> installs it.\<close>

definition Begin :: "(Store, tables) action" where
  "Begin = query Inr"

definition tx_exec :: "(tables \<Rightarrow> tables result) \<Rightarrow> tables \<Rightarrow> (Store, tables) action" where
  "tx_exec f tx = query (\<lambda>_. f tx)"

definition Commit :: "tables \<Rightarrow> (Store, unit) action" where
  "Commit tx = exec (\<lambda>_. tx)"

section \<open>The SQL statements\<close>

definition set_meta :: "bytes \<Rightarrow> bytes \<Rightarrow> tables \<Rightarrow> tables" where
  "set_meta key value T = T\<lparr>metadata := upsert key value (metadata T)\<rparr>"

definition insert_or_ignore_meta :: "bytes \<Rightarrow> bytes \<Rightarrow> tables \<Rightarrow> tables" where
  "insert_or_ignore_meta key value T =
     (if map_of (metadata T) key = None then set_meta key value T else T)"

definition upsert_log_row :: "Entry \<Rightarrow> tables \<Rightarrow> tables" where
  "upsert_log_row e T =
     T\<lparr>log_entries := upsert (int64_of (entryIndex e)) (int64_of (entryTerm e), entryCommand e) (log_entries T)\<rparr>"

definition delete_log_from :: "u64 \<Rightarrow> tables \<Rightarrow> tables" where
  "delete_log_from index T = T\<lparr>log_entries := delete_where (\<lambda>idx. int64_of index \<le> idx) (log_entries T)\<rparr>"

definition delete_log_upto :: "u64 \<Rightarrow> tables \<Rightarrow> tables" where
  "delete_log_upto index T = T\<lparr>log_entries := delete_where (\<lambda>idx. idx \<le> int64_of index) (log_entries T)\<rparr>"

definition upsert_kv :: "u64 \<Rightarrow> bytes \<Rightarrow> bytes \<Rightarrow> tables \<Rightarrow> tables" where
  "upsert_kv index key value T = T\<lparr>kv := upsert key (value, int64_of index) (kv T)\<rparr>"

definition insert_kv :: "u64 \<Rightarrow> bytes \<Rightarrow> bytes \<Rightarrow> tables \<Rightarrow> tables result" where
  "insert_kv index key value T =
     (if map_of (kv T) key = None then Inr (upsert_kv index key value T) else Inl DriverError)"

definition upsert_snapshot :: "Snapshot \<Rightarrow> tables \<Rightarrow> tables" where
  "upsert_snapshot snap T =
     T\<lparr>snapshot_row := Some (int64_of (LastIncludedIndex snap), int64_of (LastIncludedTerm snap), Data snap)\<rparr>"

section \<open>Opening and closing\<close>

definition defaults :: "(bytes \<times> bytes) list" where
  "defaults =
     [(''current_term'', ''0''), (''voted_for'', ''''), (''last_applied'', ''0''),
      (''snapshot_index'', ''0''), (''snapshot_term'', ''0'')]"

text \<open>
  The two PRAGMAs and the four \<open>CREATE TABLE IF NOT EXISTS\<close> statements leave the rows
  alone; the defaults are then inserted one by one, outside any transaction, in the
  order the range over the Go map happens to take (the argument \<open>order\<close>).
\<close>

fun exec_all :: "(tables \<Rightarrow> tables) list \<Rightarrow> (Store, unit) action" where
  "exec_all [] = ret ()"
| "exec_all (f # fs) = and_then (exec f) (\<lambda>_. exec_all fs)"

definition init :: "(bytes \<times> bytes) list \<Rightarrow> (Store, unit) action" where
  "init order =
     and_then (exec_all (replicate 6 (\<lambda>T. T)))
       (\<lambda>_. exec_all (map (\<lambda>(key, value). insert_or_ignore_meta key value) order))"

definition Close :: "(Store, unit) action" where
  "Close s = (case exec (\<lambda>T. T) s of (r, s') \<Rightarrow> (r, s'\<lparr>is_open := False\<rparr>))"

text \<open>
  \<open>Open\<close> on the files \<open>T\<close> of a data directory: creating the directory and opening the
  database are the first two calls that may fail. The second component is the state of
  the files afterwards, also when opening failed.
\<close>

definition Open :: "(bytes \<times> bytes) list \<Rightarrow> tables \<Rightarrow> bool list \<Rightarrow> Store result \<times> tables" where
  "Open order T script =
     (let s = \<lparr>db = T, faults = script, is_open = True\<rparr> in
      case and_then (exec (\<lambda>T. T)) (\<lambda>_. exec (\<lambda>T. T)) s of
        (Inl e, s') \<Rightarrow> (Inl e, db s')
      | (Inr _, s') \<Rightarrow>
          (case init order s' of
             (Inl e, s'') \<Rightarrow> (Inl e, db s'')
           | (Inr _, s'') \<Rightarrow> (Inr s'', db s'')))"

section \<open>Metadata\<close>

definition stringMeta :: "bytes \<Rightarrow> (Store, bytes) action" where
  "stringMeta key =
     query (\<lambda>T. case map_of (metadata T) key of None \<Rightarrow> Inl ErrNoRows | Some value \<Rightarrow> Inr value)"

definition uintMeta :: "bytes \<Rightarrow> (Store, u64) action" where
  "uintMeta key =
     and_then (stringMeta key)
       (\<lambda>value. case ParseUint value of
           Inl err \<Rightarrow> fail (MetadataInvalid key value err)
         | Inr parsed \<Rightarrow> ret parsed)"

definition setMetaTx :: "bytes \<Rightarrow> bytes \<Rightarrow> tables \<Rightarrow> (Store, tables) action" where
  "setMetaTx key value = tx_exec (\<lambda>T. Inr (set_meta key value T))"

definition CurrentTermVote :: "(Store, u64 \<times> bytes) action" where
  "CurrentTermVote =
     and_then (uintMeta ''current_term'') (\<lambda>term.
     and_then (stringMeta ''voted_for'') (\<lambda>votedFor.
     ret (term, votedFor)))"

definition SaveTermVote :: "u64 \<Rightarrow> bytes \<Rightarrow> (Store, unit) action" where
  "SaveTermVote term votedFor =
     and_then Begin (\<lambda>tx.
     and_then (setMetaTx ''current_term'' (FormatUint term) tx) (\<lambda>tx.
     and_then (setMetaTx ''voted_for'' votedFor tx) (\<lambda>tx.
     Commit tx)))"

definition LastApplied :: "(Store, u64) action" where
  "LastApplied = uintMeta ''last_applied''"

definition SetLastApplied :: "u64 \<Rightarrow> (Store, unit) action" where
  "SetLastApplied index = exec (set_meta ''last_applied'' (FormatUint index))"

definition SnapshotIndexTerm :: "(Store, u64 \<times> u64) action" where
  "SnapshotIndexTerm =
     and_then (uintMeta ''snapshot_index'') (\<lambda>index.
     and_then (uintMeta ''snapshot_term'') (\<lambda>term.
     ret (index, term)))"

section \<open>The log\<close>

text \<open>
  \<open>ORDER BY idx DESC LIMIT 1\<close> is the last row of the table in key order. The branch on
  \<open>!idx.Valid\<close> is never taken: \<open>idx\<close> is the primary key and never NULL.
\<close>

definition LastIndexAndTerm :: "(Store, u64 \<times> u64) action" where
  "LastIndexAndTerm s =
     (case query (\<lambda>T. if log_entries T = [] then Inl ErrNoRows
                      else Inr (fst (last (log_entries T)), fst (snd (last (log_entries T))))) s of
        (Inl err, s') \<Rightarrow> if err = ErrNoRows then SnapshotIndexTerm s' else (Inl err, s')
      | (Inr (idx, term), s') \<Rightarrow> (Inr (uint64_of idx, uint64_of term), s'))"

definition LoadSnapshot :: "(Store, Snapshot) action" where
  "LoadSnapshot =
     query (\<lambda>T. case snapshot_row T of
         None \<Rightarrow> Inr \<lparr>LastIncludedIndex = 0, LastIncludedTerm = 0, Data = []\<rparr>
       | Some (idx, term, data) \<Rightarrow>
           Inr \<lparr>LastIncludedIndex = uint64_of idx, LastIncludedTerm = uint64_of term, Data = data\<rparr>)"

definition Term :: "u64 \<Rightarrow> (Store, u64 \<times> bool) action" where
  "Term index =
     (if index = 0 then ret (0, True)
      else and_then SnapshotIndexTerm (\<lambda>(snapIndex, snapTerm).
        if index = snapIndex then ret (snapTerm, True)
        else if index < snapIndex then ret (0, False)
        else query (\<lambda>T. case map_of (log_entries T) (int64_of index) of
                 None \<Rightarrow> Inr (0, False)
               | Some (term, _) \<Rightarrow> Inr (uint64_of term, True))))"

definition Entry_at :: "u64 \<Rightarrow> (Store, Entry \<times> bool) action" where
  "Entry_at index =
     query (\<lambda>T. case map_of (log_entries T) (int64_of index) of
         None \<Rightarrow> Inr (\<lparr>entryIndex = 0, entryTerm = 0, entryCommand = []\<rparr>, False)
       | Some (term, command) \<Rightarrow>
           Inr (\<lparr>entryIndex = uint64_of (int64_of index), entryTerm = uint64_of term,
                 entryCommand = command\<rparr>, True))"

definition row_entry :: "int \<times> (int \<times> bytes) \<Rightarrow> Entry" where
  "row_entry r =
     \<lparr>entryIndex = uint64_of (fst r), entryTerm = uint64_of (fst (snd r)), entryCommand = snd (snd r)\<rparr>"

text \<open>
  SQL's LIMIT: a negative one is no limit. The iteration over the rows may fail after the
  query was accepted (\<open>rows.Scan\<close>, \<open>rows.Err\<close>): a second call.
\<close>

definition limit_rows :: "int \<Rightarrow> 'r list \<Rightarrow> 'r list" where
  "limit_rows limit rows = (if limit < 0 then rows else take (nat limit) rows)"

definition EntriesFrom :: "u64 \<Rightarrow> int \<Rightarrow> (Store, Entry list) action" where
  "EntriesFrom start limit =
     and_then SnapshotIndexTerm (\<lambda>(snapIndex, _).
     let start = (if start \<le> snapIndex then snapIndex + 1 else start) in
     and_then (query (\<lambda>T. Inr (limit_rows limit (filter (\<lambda>r. int64_of start \<le> fst r) (log_entries T))))) (\<lambda>rows.
     query (\<lambda>_. Inr (map row_entry rows))))"

fun append_rows :: "Entry list \<Rightarrow> tables \<Rightarrow> (Store, tables) action" where
  "append_rows [] tx = ret tx"
| "append_rows (entry # entries) tx =
     and_then (tx_exec (\<lambda>T. Inr (upsert_log_row entry T)) tx) (append_rows entries)"

definition AppendEntries :: "Entry list \<Rightarrow> (Store, unit) action" where
  "AppendEntries entries =
     (if entries = [] then ret ()
      else and_then Begin (\<lambda>tx. and_then (append_rows entries tx) Commit))"

definition DeleteFrom :: "u64 \<Rightarrow> (Store, unit) action" where
  "DeleteFrom index = exec (delete_log_from index)"

section \<open>The key-value state machine\<close>

definition ApplySet :: "u64 \<Rightarrow> bytes \<Rightarrow> bytes \<Rightarrow> (Store, unit) action" where
  "ApplySet index key value =
     and_then Begin (\<lambda>tx.
     and_then (tx_exec (\<lambda>T. Inr (upsert_kv index key value T)) tx) (\<lambda>tx.
     and_then (setMetaTx ''last_applied'' (FormatUint index) tx) (\<lambda>tx.
     Commit tx)))"

definition Get :: "bytes \<Rightarrow> (Store, bytes \<times> bool) action" where
  "Get key =
     query (\<lambda>T. case map_of (kv T) key of None \<Rightarrow> Inr ([], False) | Some (value, _) \<Rightarrow> Inr (value, True))"

definition All_kv :: "(Store, (bytes \<times> bytes) list) action" where
  "All_kv =
     and_then (query (\<lambda>T. Inr (map (\<lambda>(key, value, _). (key, value)) (kv T)))) (\<lambda>values.
     query (\<lambda>_. Inr values))"

section \<open>Snapshots\<close>

definition CreateSnapshot :: "u64 \<Rightarrow> u64 \<Rightarrow> (Store, Snapshot) action" where
  "CreateSnapshot lastIncludedIndex lastIncludedTerm =
     and_then All_kv (\<lambda>values.
     let data = marshal_object values;
         snap = \<lparr>LastIncludedIndex = lastIncludedIndex, LastIncludedTerm = lastIncludedTerm, Data = data\<rparr> in
     and_then Begin (\<lambda>tx.
     and_then (tx_exec (\<lambda>T. Inr (upsert_snapshot snap T)) tx) (\<lambda>tx.
     and_then (tx_exec (\<lambda>T. Inr (delete_log_upto lastIncludedIndex T)) tx) (\<lambda>tx.
     and_then (setMetaTx ''snapshot_index'' (FormatUint lastIncludedIndex) tx) (\<lambda>tx.
     and_then (setMetaTx ''snapshot_term'' (FormatUint lastIncludedTerm) tx) (\<lambda>tx.
     and_then (setMetaTx ''last_applied'' (FormatUint lastIncludedIndex) tx) (\<lambda>tx.
     and_then (Commit tx) (\<lambda>_.
     ret snap))))))))"

text \<open>The loop over the decoded map; the keys are distinct, so their order does not matter.\<close>

fun insert_values :: "u64 \<Rightarrow> (bytes \<times> bytes) list \<Rightarrow> tables \<Rightarrow> (Store, tables) action" where
  "insert_values index [] tx = ret tx"
| "insert_values index ((key, value) # values) tx =
     and_then (tx_exec (insert_kv index key value) tx) (insert_values index values)"

definition InstallSnapshot :: "Snapshot \<Rightarrow> (Store, unit) action" where
  "InstallSnapshot snap =
     (case (if Data snap = [] then Inr [] else unmarshal_map (Data snap)) of
        Inl err \<Rightarrow> fail err
      | Inr values \<Rightarrow>
          and_then Begin (\<lambda>tx.
          and_then (tx_exec (\<lambda>T. Inr (T\<lparr>kv := []\<rparr>)) tx) (\<lambda>tx.
          and_then (insert_values (LastIncludedIndex snap) values tx) (\<lambda>tx.
          and_then (tx_exec (\<lambda>T. Inr (delete_log_upto (LastIncludedIndex snap) T)) tx) (\<lambda>tx.
          and_then (tx_exec (\<lambda>T. Inr (upsert_snapshot snap T)) tx) (\<lambda>tx.
          and_then (setMetaTx ''snapshot_index'' (FormatUint (LastIncludedIndex snap)) tx) (\<lambda>tx.
          and_then (setMetaTx ''snapshot_term'' (FormatUint (LastIncludedTerm snap)) tx) (\<lambda>tx.
          and_then (setMetaTx ''last_applied'' (FormatUint (LastIncludedIndex snap)) tx) (\<lambda>tx.
          Commit tx)))))))))"

end
