(* ===== verification/Storage_Spec.thy ===== *)
theory Storage_Spec
  imports Storage
begin

text \<open>
  What the storage layer promises: each method is an atomic operation on the tables (the
  specification of the method, a function), also when the database fails in the middle;
  the well-formedness of the tables that \<open>Open\<close> establishes and every method keeps; and the
  interface \<open>replicated_log\<close> on which the conflict resolution of the AppendEntries handler rests.
\<close>

section \<open>Every method is an atomic operation on the tables\<close>

text \<open>
  The specification of a method is a function on the tables: its result and the tables it
  leaves. A method implements it when each run either has exactly that effect or reports
  an error and leaves the tables as they were, and when it has that effect on a database
  that reports no error.
\<close>

definition healthy :: "Store \<Rightarrow> bool" where
  "healthy s \<longleftrightarrow> is_open s \<and> faults s = []"

definition implements :: "(Store, 'a) action \<Rightarrow> (tables \<Rightarrow> 'a result \<times> tables) \<Rightarrow> bool" where
  "implements m w \<longleftrightarrow>
     (\<forall>s r s'. m s = (r, s') \<longrightarrow>
        ((r, db s') = w (db s) \<or> (\<exists>e. r = Inl e) \<and> db s' = db s)
        \<and> is_open s' = is_open s
        \<and> (healthy s \<longrightarrow> (r, db s') = w (db s) \<and> healthy s'))"

lemma implementsI:
  assumes "\<And>s r s'. m s = (r, s') \<Longrightarrow> (r, db s') = w (db s) \<or> (\<exists>e. r = Inl e) \<and> db s' = db s"
    and "\<And>s r s'. m s = (r, s') \<Longrightarrow> is_open s' = is_open s"
    and "\<And>s r s'. m s = (r, s') \<Longrightarrow> healthy s \<Longrightarrow> (r, db s') = w (db s) \<and> healthy s'"
  shows "implements m w"
  using assms unfolding implements_def by blast

lemma implements_cong: "implements m w \<Longrightarrow> (\<And>T. w T = w' T) \<Longrightarrow> implements m w'"
  by (simp add: implements_def)

lemma db_call_cases:
  assumes "db_call s = (b, s')"
  shows "db s' = db s" and "is_open s' = is_open s" and "healthy s \<Longrightarrow> \<not> b \<and> healthy s'"
  using assms by (auto simp: db_call_def healthy_def split: if_splits list.splits)

lemma implements_query: "implements (query q) (\<lambda>T. (q T, T))"
  by (rule implementsI) (auto simp: query_def split: prod.splits if_splits dest: db_call_cases)

lemma implements_exec: "implements (exec f) (\<lambda>T. (Inr (), f T))"
  by (rule implementsI)
    (auto simp: exec_def healthy_def split: prod.splits if_splits dest: db_call_cases)

lemma implements_ret: "implements (ret x) (\<lambda>T. (Inr x, T))"
  by (simp add: implements_def ret_def)

lemma implements_fail: "implements (fail e) (\<lambda>T. (Inl e, T))"
  by (simp add: implements_def fail_def)

text \<open>Any sequence of calls that leave the tables alone, followed by one that may not.\<close>

lemma implements_and_then:
  assumes m: "implements m (\<lambda>T. (q T, T))" and f: "\<And>x. implements (f x) (w x)"
  shows "implements (and_then m f) (\<lambda>T. case q T of Inl e \<Rightarrow> (Inl e, T) | Inr x \<Rightarrow> w x T)"
proof -
  have m_err: "db t = db s \<and> is_open t = is_open s \<and> (healthy s \<longrightarrow> q (db s) = Inl e \<and> healthy t)"
    if "m s = (Inl e, t)" for s e t
    using m that unfolding implements_def by fastforce
  have m_ok: "db t = db s \<and> is_open t = is_open s \<and> q (db s) = Inr x \<and> (healthy s \<longrightarrow> healthy t)"
    if "m s = (Inr x, t)" for s x t
    using m that unfolding implements_def by fastforce
  have f_run: "((r, db s') = w x (db t) \<or> (\<exists>e. r = Inl e) \<and> db s' = db t) \<and> is_open s' = is_open t
      \<and> (healthy t \<longrightarrow> (r, db s') = w x (db t) \<and> healthy s')"
    if "f x t = (r, s')" for x t r s'
    using f [of x] that unfolding implements_def by blast
  show ?thesis
    unfolding implements_def
  proof (intro allI impI)
    fix s r s'
    assume "and_then m f s = (r, s')"
    then show "((r, db s') = (case q (db s) of Inl e \<Rightarrow> (Inl e, db s) | Inr x \<Rightarrow> w x (db s))
        \<or> (\<exists>e. r = Inl e) \<and> db s' = db s) \<and> is_open s' = is_open s
        \<and> (healthy s \<longrightarrow> (r, db s') = (case q (db s) of Inl e \<Rightarrow> (Inl e, db s) | Inr x \<Rightarrow> w x (db s)) \<and> healthy s')"
    proof (cases rule: and_then_cases)
      case (err e)
      from m_err [OF err(1)] err(2) show ?thesis by simp
    next
      case (ok x t)
      from m_ok [OF ok(1)] f_run [OF ok(2)] show ?thesis by simp
    qed
  qed
qed

lemma implements_then_ret:
  assumes "implements m w"
  shows "implements (and_then m (\<lambda>x. ret (g x)))
    (\<lambda>T. case w T of (Inl e, T') \<Rightarrow> (Inl e, T') | (Inr x, T') \<Rightarrow> (Inr (g x), T'))"
proof (rule implementsI)
  fix s r s'
  assume run: "and_then m (\<lambda>x. ret (g x)) s = (r, s')"
  then obtain r' where r': "m s = (r', s')"
    and r: "r = (case r' of Inl e \<Rightarrow> Inl e | Inr x \<Rightarrow> Inr (g x))"
    by (cases rule: and_then_cases) (auto simp: ret_def)
  from assms r' have *: "((r', db s') = w (db s) \<or> (\<exists>e. r' = Inl e) \<and> db s' = db s)
      \<and> is_open s' = is_open s \<and> (healthy s \<longrightarrow> (r', db s') = w (db s) \<and> healthy s')"
    unfolding implements_def by blast
  then show "(r, db s') = (case w (db s) of (Inl e, T') \<Rightarrow> (Inl e, T') | (Inr x, T') \<Rightarrow> (Inr (g x), T'))
      \<or> (\<exists>e. r = Inl e) \<and> db s' = db s"
    by (auto simp: r split: sum.splits prod.splits)
  from * show "is_open s' = is_open s" by blast
  assume "healthy s"
  with * have "(r', db s') = w (db s)" and "healthy s'" by blast+
  from this(1) [symmetric] this(2)
  show "(r, db s') = (case w (db s) of (Inl e, T') \<Rightarrow> (Inl e, T') | (Inr x, T') \<Rightarrow> (Inr (g x), T')) \<and> healthy s'"
    by (auto simp: r split: sum.splits)
qed

lemmas implements_rules = implements_query implements_exec implements_ret implements_fail implements_and_then

text \<open>What a client of the storage layer may rely on, for every method.\<close>

locale atomic_op =
  fixes m :: "(Store, 'a) action" and w :: "tables \<Rightarrow> 'a result \<times> tables"
  assumes impl: "implements m w"
    and error_keeps: "\<And>T e T'. w T = (Inl e, T') \<Longrightarrow> T' = T"
begin

lemma on_error: "m s = (Inl e, s') \<Longrightarrow> db s' = db s"
  using impl error_keeps unfolding implements_def by (metis Pair_inject)

lemma on_success: "m s = (Inr x, s') \<Longrightarrow> w (db s) = (Inr x, db s')"
  using impl unfolding implements_def by (metis Inl_Inr_False)

lemma stays_open: "m s = (r, s') \<Longrightarrow> is_open s' = is_open s"
  using impl unfolding implements_def by blast

lemma when_healthy: "healthy s \<Longrightarrow> \<exists>s'. m s = (fst (w (db s)), s') \<and> db s' = snd (w (db s)) \<and> healthy s'"
  using impl unfolding implements_def by (metis prod.collapse fst_conv snd_conv)

end

section \<open>The specifications of the methods\<close>

definition meta_uint :: "tables \<Rightarrow> bytes \<Rightarrow> u64 result" where
  "meta_uint T key =
     (case map_of (metadata T) key of
        None \<Rightarrow> Inl ErrNoRows
      | Some value \<Rightarrow>
          (case ParseUint value of
             Inl err \<Rightarrow> Inl (MetadataInvalid key value err)
           | Inr parsed \<Rightarrow> Inr parsed))"

definition term_vote :: "tables \<Rightarrow> (u64 \<times> bytes) result" where
  "term_vote T =
     (case meta_uint T ''current_term'' of
        Inl e \<Rightarrow> Inl e
      | Inr term \<Rightarrow>
          (case map_of (metadata T) ''voted_for'' of None \<Rightarrow> Inl ErrNoRows | Some v \<Rightarrow> Inr (term, v)))"

definition snap_pos :: "tables \<Rightarrow> (u64 \<times> u64) result" where
  "snap_pos T =
     (case meta_uint T ''snapshot_index'' of
        Inl e \<Rightarrow> Inl e
      | Inr index \<Rightarrow>
          (case meta_uint T ''snapshot_term'' of Inl e \<Rightarrow> Inl e | Inr term \<Rightarrow> Inr (index, term)))"

definition last_pos :: "tables \<Rightarrow> (u64 \<times> u64) result" where
  "last_pos T =
     (if log_entries T = [] then snap_pos T
      else Inr (uint64_of (fst (last (log_entries T))), uint64_of (fst (snd (last (log_entries T))))))"

definition log_term :: "tables \<Rightarrow> u64 \<Rightarrow> u64 option" where
  "log_term T index = map_option (\<lambda>(term, _). uint64_of term) (map_of (log_entries T) (int64_of index))"

definition term_pos :: "u64 \<Rightarrow> tables \<Rightarrow> (u64 \<times> bool) result" where
  "term_pos index T =
     (if index = 0 then Inr (0, True)
      else case snap_pos T of
          Inl e \<Rightarrow> Inl e
        | Inr (snapIndex, snapTerm) \<Rightarrow>
            if index = snapIndex then Inr (snapTerm, True)
            else if index < snapIndex then Inr (0, False)
            else case log_term T index of None \<Rightarrow> Inr (0, False) | Some term \<Rightarrow> Inr (term, True))"

definition entry_pos :: "u64 \<Rightarrow> tables \<Rightarrow> Entry \<times> bool" where
  "entry_pos index T =
     (case map_of (log_entries T) (int64_of index) of
        None \<Rightarrow> (\<lparr>entryIndex = 0, entryTerm = 0, entryCommand = []\<rparr>, False)
      | Some (term, command) \<Rightarrow>
          (\<lparr>entryIndex = index, entryTerm = uint64_of term, entryCommand = command\<rparr>, True))"

definition entries_from :: "u64 \<Rightarrow> int \<Rightarrow> tables \<Rightarrow> Entry list result" where
  "entries_from start limit T =
     (case snap_pos T of
        Inl e \<Rightarrow> Inl e
      | Inr (snapIndex, _) \<Rightarrow>
          let start = (if start \<le> snapIndex then snapIndex + 1 else start) in
          Inr (map row_entry (limit_rows limit (filter (\<lambda>r. int64_of start \<le> fst r) (log_entries T)))))"

definition load_snapshot :: "tables \<Rightarrow> Snapshot" where
  "load_snapshot T =
     (case snapshot_row T of
        None \<Rightarrow> \<lparr>LastIncludedIndex = 0, LastIncludedTerm = 0, Data = []\<rparr>
      | Some (idx, term, data) \<Rightarrow>
          \<lparr>LastIncludedIndex = uint64_of idx, LastIncludedTerm = uint64_of term, Data = data\<rparr>)"

definition get_value :: "bytes \<Rightarrow> tables \<Rightarrow> bytes \<times> bool" where
  "get_value key T = (case map_of (kv T) key of None \<Rightarrow> ([], False) | Some (value, _) \<Rightarrow> (value, True))"

definition kv_pairs :: "tables \<Rightarrow> (bytes \<times> bytes) list" where
  "kv_pairs T = map (\<lambda>(key, value, _). (key, value)) (kv T)"

definition save_term_vote :: "u64 \<Rightarrow> bytes \<Rightarrow> tables \<Rightarrow> tables" where
  "save_term_vote term votedFor T =
     set_meta ''voted_for'' votedFor (set_meta ''current_term'' (FormatUint term) T)"

definition append_entries :: "Entry list \<Rightarrow> tables \<Rightarrow> tables" where
  "append_entries entries T = fold upsert_log_row entries T"

definition apply_set :: "u64 \<Rightarrow> bytes \<Rightarrow> bytes \<Rightarrow> tables \<Rightarrow> tables" where
  "apply_set index key value T =
     set_meta ''last_applied'' (FormatUint index) (upsert_kv index key value T)"

definition set_snapshot_meta :: "u64 \<Rightarrow> u64 \<Rightarrow> tables \<Rightarrow> tables" where
  "set_snapshot_meta index term T =
     set_meta ''last_applied'' (FormatUint index)
       (set_meta ''snapshot_term'' (FormatUint term) (set_meta ''snapshot_index'' (FormatUint index) T))"

definition new_snapshot :: "u64 \<Rightarrow> u64 \<Rightarrow> tables \<Rightarrow> Snapshot" where
  "new_snapshot index term T =
     \<lparr>LastIncludedIndex = index, LastIncludedTerm = term, Data = marshal_object (kv_pairs T)\<rparr>"

definition create_snapshot :: "u64 \<Rightarrow> u64 \<Rightarrow> tables \<Rightarrow> tables" where
  "create_snapshot index term T =
     set_snapshot_meta index term
       (delete_log_upto index (upsert_snapshot (new_snapshot index term T) T))"

definition snapshot_values :: "Snapshot \<Rightarrow> (bytes \<times> bytes) list result" where
  "snapshot_values snap = (if Data snap = [] then Inr [] else unmarshal_map (Data snap))"

definition install_snapshot :: "Snapshot \<Rightarrow> (bytes \<times> bytes) list \<Rightarrow> tables \<Rightarrow> tables" where
  "install_snapshot snap values T =
     set_snapshot_meta (LastIncludedIndex snap) (LastIncludedTerm snap)
       (upsert_snapshot snap (delete_log_upto (LastIncludedIndex snap)
         (T\<lparr>kv := map (\<lambda>(k, v). (k, v, int64_of (LastIncludedIndex snap))) values\<rparr>)))"

section \<open>The methods implement them\<close>

lemmas db_prims = Begin_def tx_exec_def Commit_def setMetaTx_def

lemma implements_stringMeta:
  "implements (stringMeta key)
     (\<lambda>T. (case map_of (metadata T) key of None \<Rightarrow> Inl ErrNoRows | Some value \<Rightarrow> Inr value, T))"
  unfolding stringMeta_def by (rule implements_query)

lemma implements_uintMeta: "implements (uintMeta key) (\<lambda>T. (meta_uint T key, T))"
proof -
  have "implements (case ParseUint v of Inl err \<Rightarrow> fail (MetadataInvalid key v err) | Inr p \<Rightarrow> ret p)
      (\<lambda>T. (case ParseUint v of Inl err \<Rightarrow> Inl (MetadataInvalid key v err) | Inr p \<Rightarrow> Inr p, T))" for v
    by (cases "ParseUint v") (simp_all add: implements_rules)
  from implements_and_then [OF implements_stringMeta this] show ?thesis
    unfolding uintMeta_def
    by (rule implements_cong) (auto simp: meta_uint_def split: option.splits)
qed

lemma implements_CurrentTermVote: "implements CurrentTermVote (\<lambda>T. (term_vote T, T))"
  unfolding CurrentTermVote_def
  by (rule implements_cong, (rule implements_rules implements_uintMeta implements_stringMeta)+)
    (auto simp: term_vote_def split: sum.splits option.splits)

lemma implements_SaveTermVote:
  "implements (SaveTermVote term votedFor) (\<lambda>T. (Inr (), save_term_vote term votedFor T))"
  unfolding SaveTermVote_def db_prims
  by (rule implements_cong, (rule implements_rules)+) (simp add: save_term_vote_def)

lemma implements_LastApplied: "implements LastApplied (\<lambda>T. (meta_uint T ''last_applied'', T))"
  unfolding LastApplied_def by (rule implements_uintMeta)

lemma implements_SnapshotIndexTerm: "implements SnapshotIndexTerm (\<lambda>T. (snap_pos T, T))"
  unfolding SnapshotIndexTerm_def
  by (rule implements_cong, (rule implements_rules implements_uintMeta)+)
    (auto simp: snap_pos_def split: sum.splits)

lemma implements_LastIndexAndTerm: "implements LastIndexAndTerm (\<lambda>T. (last_pos T, T))"
proof -
  let ?q = "\<lambda>T. if log_entries T = [] then Inl ErrNoRows
      else Inr (fst (last (log_entries T)), fst (snd (last (log_entries T))))"
  note q = implements_query [of ?q, unfolded implements_def, rule_format]
  note sp = implements_SnapshotIndexTerm [unfolded implements_def, rule_format]
  show ?thesis
    unfolding implements_def
  proof (intro allI impI)
    fix s r s'
    assume run: "LastIndexAndTerm s = (r, s')"
    obtain r0 t where r0: "query ?q s = (r0, t)"
      by force
    show "((r, db s') = (last_pos (db s), db s) \<or> (\<exists>e. r = Inl e) \<and> db s' = db s)
        \<and> is_open s' = is_open s \<and> (healthy s \<longrightarrow> (r, db s') = (last_pos (db s), db s) \<and> healthy s')"
    proof (cases "r0 = Inl ErrNoRows")
      case True
      then have "SnapshotIndexTerm t = (r, s')"
        using run r0 by (simp add: LastIndexAndTerm_def)
      moreover have "log_entries (db s) = []"
        using r0 True by (auto simp: query_def split: prod.splits if_splits dest: db_call_cases)
      ultimately show ?thesis
        using q [OF r0] sp [of t r s'] by (auto simp: last_pos_def)
    next
      case False
      then show ?thesis
        using run q [OF r0] r0 by (cases r0) (auto simp: LastIndexAndTerm_def last_pos_def split: if_splits)
    qed
  qed
qed

lemma implements_Term: "implements (Term index) (\<lambda>T. (term_pos index T, T))"
proof (cases "index = 0")
  case True
  then show ?thesis
    by (simp add: Term_def term_pos_def implements_ret)
next
  case False
  let ?q = "\<lambda>T. case map_of (log_entries T) (int64_of index) of None \<Rightarrow> Inr (0, False) | Some (term, _) \<Rightarrow> Inr (uint64_of term, True)"
  have "implements (case p of (snapIndex, snapTerm) \<Rightarrow>
      if index = snapIndex then ret (snapTerm, True) else if index < snapIndex then ret (0, False) else query ?q)
      (\<lambda>T. (case p of (snapIndex, snapTerm) \<Rightarrow>
        if index = snapIndex then Inr (snapTerm, True) else if index < snapIndex then Inr (0, False) else ?q T, T))" for p
    by (cases p) (simp add: implements_rules)
  from implements_and_then [OF implements_SnapshotIndexTerm this] show ?thesis
    unfolding Term_def using False
    by simp (rule implements_cong, assumption,
      auto simp: term_pos_def log_term_def split: sum.splits option.splits)
qed

lemma implements_Entry_at: "implements (Entry_at index) (\<lambda>T. (Inr (entry_pos index T), T))"
  unfolding Entry_at_def
  by (rule implements_cong, rule implements_query) (auto simp: entry_pos_def split: option.splits)

lemma implements_LoadSnapshot: "implements LoadSnapshot (\<lambda>T. (Inr (load_snapshot T), T))"
  unfolding LoadSnapshot_def
  by (rule implements_cong, rule implements_query) (auto simp: load_snapshot_def split: option.splits)

lemma implements_EntriesFrom: "implements (EntriesFrom start limit) (\<lambda>T. (entries_from start limit T, T))"
proof -
  let ?w = "\<lambda>p T. (case p of (snapIndex, _ :: u64) \<Rightarrow>
      let start = (if start \<le> snapIndex then snapIndex + 1 else start) in
      Inr (map row_entry (limit_rows limit (filter (\<lambda>r. int64_of start \<le> fst r) (log_entries T)))), T)"
  have "implements (case p of (snapIndex, _) \<Rightarrow>
      let start = (if start \<le> snapIndex then snapIndex + 1 else start) in
      and_then (query (\<lambda>T. Inr (limit_rows limit (filter (\<lambda>r. int64_of start \<le> fst r) (log_entries T)))))
        (\<lambda>rows. query (\<lambda>_. Inr (map row_entry rows)))) (?w p)" for p
    unfolding Let_def split_beta by (rule implements_cong, (rule implements_rules)+) simp
  from implements_and_then [OF implements_SnapshotIndexTerm this] show ?thesis
    unfolding EntriesFrom_def
    by (rule implements_cong) (auto simp: entries_from_def Let_def split: sum.splits)
qed

lemma implements_append_rows: "implements (append_rows entries tx) (\<lambda>T. (Inr (append_entries entries tx), T))"
proof (induction entries arbitrary: tx)
  case (Cons e es)
  show ?case
    unfolding append_rows.simps tx_exec_def
    by (rule implements_cong, rule implements_and_then, rule implements_query, rule Cons.IH)
      (simp add: append_entries_def)
qed (simp add: append_entries_def implements_ret)

lemma implements_AppendEntries: "implements (AppendEntries entries) (\<lambda>T. (Inr (), append_entries entries T))"
proof (cases "entries = []")
  case True
  then show ?thesis
    by (simp add: AppendEntries_def append_entries_def implements_ret)
next
  case False
  have "implements (and_then Begin (\<lambda>tx. and_then (append_rows entries tx) Commit)) (\<lambda>T. (Inr (), append_entries entries T))"
    unfolding db_prims
    by (rule implements_cong, (rule implements_rules implements_append_rows)+) simp
  with False show ?thesis
    by (simp add: AppendEntries_def)
qed

lemma implements_DeleteFrom: "implements (DeleteFrom index) (\<lambda>T. (Inr (), delete_log_from index T))"
  unfolding DeleteFrom_def by (rule implements_exec)

lemma implements_ApplySet: "implements (ApplySet index key value) (\<lambda>T. (Inr (), apply_set index key value T))"
  unfolding ApplySet_def db_prims
  by (rule implements_cong, (rule implements_rules)+) (simp add: apply_set_def)

lemma implements_Get: "implements (Get key) (\<lambda>T. (Inr (get_value key T), T))"
  unfolding Get_def
  by (rule implements_cong, rule implements_query) (auto simp: get_value_def split: option.splits)

lemma implements_All_kv: "implements All_kv (\<lambda>T. (Inr (kv_pairs T), T))"
  unfolding All_kv_def
  by (rule implements_cong, (rule implements_rules)+) (simp add: kv_pairs_def)


text \<open>Creating a snapshot: marshalling a map of strings cannot fail.\<close>

lemma implements_CreateSnapshot:
  "implements (CreateSnapshot index term)
     (\<lambda>T. (Inr (new_snapshot index term T), create_snapshot index term T))"
  unfolding CreateSnapshot_def db_prims Let_def
  by (rule implements_cong, (rule implements_query implements_All_kv implements_exec implements_then_ret implements_and_then)+)
    (simp add: new_snapshot_def create_snapshot_def set_snapshot_meta_def)

fun insert_all :: "u64 \<Rightarrow> (bytes \<times> bytes) list \<Rightarrow> tables \<Rightarrow> tables result" where
  "insert_all index [] T = Inr T"
| "insert_all index ((key, value) # values) T =
     (case insert_kv index key value T of Inl e \<Rightarrow> Inl e | Inr T' \<Rightarrow> insert_all index values T')"

lemma implements_insert_values: "implements (insert_values index vs tx) (\<lambda>T. (insert_all index vs tx, T))"
proof (induction vs arbitrary: tx)
  case (Cons m vs)
  obtain k v where m: "m = (k, v)"
    by force
  show ?case
    unfolding m insert_values.simps tx_exec_def
    by (rule implements_cong, rule implements_and_then, rule implements_query, rule Cons.IH)
      (auto split: sum.splits)
qed (simp add: implements_ret)

text \<open>After \<open>DELETE FROM kv\<close> no insertion of a decoded map hits an existing key.\<close>

lemma insert_all_sorted:
  "wf_table (map (\<lambda>(k, v, _). (k, v)) (kv T) @ vs) \<Longrightarrow>
     insert_all index vs T = Inr (T\<lparr>kv := kv T @ map (\<lambda>(k, v). (k, v, int64_of index)) vs\<rparr>)"
proof (induction vs arbitrary: T)
  case (Cons m vs)
  obtain k v where m: "m = (k, v)"
    by force
  have less: "k' < k" if "k' \<in> fst ` set (kv T)" for k'
    using Cons.prems that by (force simp: wf_table_def sorted_wrt_append m)
  then have "upsert k (v, int64_of index) (kv T) = kv T @ [(k, v, int64_of index)]"
    by (rule upsert_greatest)
  moreover have "map_of (kv T) k = None"
    using less by (force simp: map_of_eq_None_iff)
  ultimately have "insert_kv index k v T = Inr (T\<lparr>kv := kv T @ [(k, v, int64_of index)]\<rparr>)"
    by (simp add: insert_kv_def upsert_kv_def)
  then show ?case
    using Cons by (simp add: m)
qed simp

lemma decode_map_wf: "decode_map ms m = Inr vs \<Longrightarrow> wf_table m \<Longrightarrow> wf_table vs"
  by (induction ms m rule: decode_map.induct) (auto split: json.splits)

lemma snapshot_values_wf: "snapshot_values snap = Inr values \<Longrightarrow> wf_table values"
  by (auto simp: snapshot_values_def unmarshal_map_def decode_map_wf split: if_splits option.splits json.splits)

lemma insert_all_empty:
  "snapshot_values snap = Inr values \<Longrightarrow>
     insert_all index values (T\<lparr>kv := []\<rparr>) = Inr (T\<lparr>kv := map (\<lambda>(k, v). (k, v, int64_of index)) values\<rparr>)"
  by (simp add: insert_all_sorted snapshot_values_wf)

lemma implements_InstallSnapshot:
  "implements (InstallSnapshot snap)
     (\<lambda>T. case snapshot_values snap of Inl e \<Rightarrow> (Inl e, T) | Inr values \<Rightarrow> (Inr (), install_snapshot snap values T))"
proof (cases "snapshot_values snap")
  case (Inl e)
  then show ?thesis
    by (simp add: InstallSnapshot_def flip: snapshot_values_def) (rule implements_fail)
next
  case (Inr vs)
  show ?thesis
    unfolding InstallSnapshot_def db_prims snapshot_values_def [symmetric] Inr sum.case
    by (rule implements_cong, (rule implements_rules implements_insert_values)+)
      (simp add: insert_all_empty [OF Inr] install_snapshot_def set_snapshot_meta_def)
qed

section \<open>What clients rely on\<close>

interpretation CurrentTermVote: atomic_op CurrentTermVote "\<lambda>T. (term_vote T, T)"
  by unfold_locales (auto simp: implements_CurrentTermVote)

interpretation SaveTermVote: atomic_op "SaveTermVote term votedFor" "\<lambda>T. (Inr (), save_term_vote term votedFor T)"
  for "term" votedFor
  by unfold_locales (auto simp: implements_SaveTermVote)

interpretation LastApplied: atomic_op LastApplied "\<lambda>T. (meta_uint T ''last_applied'', T)"
  by unfold_locales (auto simp: implements_LastApplied)

interpretation SnapshotIndexTerm: atomic_op SnapshotIndexTerm "\<lambda>T. (snap_pos T, T)"
  by unfold_locales (auto simp: implements_SnapshotIndexTerm)

interpretation LastIndexAndTerm: atomic_op LastIndexAndTerm "\<lambda>T. (last_pos T, T)"
  by unfold_locales (auto simp: implements_LastIndexAndTerm)

interpretation LoadSnapshot: atomic_op LoadSnapshot "\<lambda>T. (Inr (load_snapshot T), T)"
  by unfold_locales (auto simp: implements_LoadSnapshot)

interpretation Term: atomic_op "Term index" "\<lambda>T. (term_pos index T, T)"
  for index
  by unfold_locales (auto simp: implements_Term)

interpretation Entry_at: atomic_op "Entry_at index" "\<lambda>T. (Inr (entry_pos index T), T)"
  for index
  by unfold_locales (auto simp: implements_Entry_at)

interpretation EntriesFrom: atomic_op "EntriesFrom start limit" "\<lambda>T. (entries_from start limit T, T)"
  for start limit
  by unfold_locales (auto simp: implements_EntriesFrom)

interpretation AppendEntries: atomic_op "AppendEntries entries" "\<lambda>T. (Inr (), append_entries entries T)"
  for entries
  by unfold_locales (auto simp: implements_AppendEntries)

interpretation DeleteFrom: atomic_op "DeleteFrom index" "\<lambda>T. (Inr (), delete_log_from index T)"
  for index
  by unfold_locales (auto simp: implements_DeleteFrom)

interpretation ApplySet: atomic_op "ApplySet index key value" "\<lambda>T. (Inr (), apply_set index key value T)"
  for index key "value"
  by unfold_locales (auto simp: implements_ApplySet)

interpretation Get: atomic_op "Get key" "\<lambda>T. (Inr (get_value key T), T)"
  for key
  by unfold_locales (auto simp: implements_Get)

interpretation CreateSnapshot: atomic_op "CreateSnapshot index term"
    "\<lambda>T. (Inr (new_snapshot index term T), create_snapshot index term T)"
  for index "term"
  by unfold_locales (auto simp: implements_CreateSnapshot)

interpretation InstallSnapshot: atomic_op "InstallSnapshot snap"
    "\<lambda>T. case snapshot_values snap of Inl e \<Rightarrow> (Inl e, T) | Inr values \<Rightarrow> (Inr (), install_snapshot snap values T)"
  for snap
  by unfold_locales (auto simp: implements_InstallSnapshot split: sum.splits)

section \<open>Well-formed tables\<close>

definition numeric_keys :: "bytes list" where
  "numeric_keys = [''current_term'', ''last_applied'', ''snapshot_index'', ''snapshot_term'']"

definition meta_ok :: "tables \<Rightarrow> bool" where
  "meta_ok T \<longleftrightarrow>
     (\<forall>key \<in> set numeric_keys. \<exists>x. map_of (metadata T) key = Some (FormatUint x))
     \<and> map_of (metadata T) ''voted_for'' \<noteq> None"

definition log_ok :: "tables \<Rightarrow> bool" where
  "log_ok T \<longleftrightarrow> wf_table (log_entries T) \<and> (\<forall>k \<in> fst ` set (log_entries T). 0 < k \<and> k < 2 ^ 63)"

definition wf_tables :: "tables \<Rightarrow> bool" where
  "wf_tables T \<longleftrightarrow> wf_table (metadata T) \<and> wf_table (kv T) \<and> log_ok T \<and> meta_ok T"

text \<open>The indices a log may hold: positive, and the same read as signed or unsigned.\<close>

definition ok_index :: "u64 \<Rightarrow> bool" where
  "ok_index i \<longleftrightarrow> 0 < i \<and> i < 2 ^ 63"

lemma int64_of_ok: "ok_index i \<Longrightarrow> 0 < int64_of i \<and> int64_of i < 2 ^ 63"
  using int64_of_less_iff [of 0 i] int64_of_less by (simp add: ok_index_def)

subsection \<open>Every statement keeps them well formed\<close>

lemma set_meta_simps [simp, frame_simps]:
  "metadata (set_meta key value T) = upsert key value (metadata T)"
  "log_entries (set_meta key value T) = log_entries T"
  "kv (set_meta key value T) = kv T"
  "snapshot_row (set_meta key value T) = snapshot_row T"
  by (simp_all add: set_meta_def)

lemma upsert_log_row_simps [simp, frame_simps]:
  "metadata (upsert_log_row e T) = metadata T"
  "kv (upsert_log_row e T) = kv T"
  "snapshot_row (upsert_log_row e T) = snapshot_row T"
  by (simp_all add: upsert_log_row_def)

lemma delete_log_simps [simp, frame_simps]:
  "metadata (delete_log_from index T) = metadata T" "metadata (delete_log_upto index T) = metadata T"
  "kv (delete_log_from index T) = kv T" "kv (delete_log_upto index T) = kv T"
  "snapshot_row (delete_log_from index T) = snapshot_row T"
  "snapshot_row (delete_log_upto index T) = snapshot_row T"
  by (simp_all add: delete_log_from_def delete_log_upto_def)

lemma upsert_kv_simps [simp, frame_simps]:
  "metadata (upsert_kv index key value T) = metadata T"
  "log_entries (upsert_kv index key value T) = log_entries T"
  "kv (upsert_kv index key value T) = upsert key (value, int64_of index) (kv T)"
  "snapshot_row (upsert_kv index key value T) = snapshot_row T"
  by (simp_all add: upsert_kv_def)

lemma upsert_snapshot_simps [simp, frame_simps]:
  "metadata (upsert_snapshot snap T) = metadata T"
  "log_entries (upsert_snapshot snap T) = log_entries T"
  "kv (upsert_snapshot snap T) = kv T"
  by (simp_all add: upsert_snapshot_def)

lemma meta_ok_set_numeric: "meta_ok T \<Longrightarrow> key \<noteq> ''voted_for'' \<Longrightarrow> meta_ok (set_meta key (FormatUint x) T)"
  by (auto simp: meta_ok_def table_simps)

lemma meta_ok_set_vote: "meta_ok T \<Longrightarrow> meta_ok (set_meta ''voted_for'' v T)"
  by (auto simp: meta_ok_def table_simps numeric_keys_def)

lemma meta_ok_cong: "metadata T = metadata T' \<Longrightarrow> meta_ok T = meta_ok T'"
  by (simp add: meta_ok_def)

lemma log_ok_cong: "log_entries T = log_entries T' \<Longrightarrow> log_ok T = log_ok T'"
  by (simp add: log_ok_def)

lemma log_ok_upsert: "log_ok T \<Longrightarrow> ok_index (entryIndex e) \<Longrightarrow> log_ok (upsert_log_row e T)"
  using int64_of_ok [of "entryIndex e"] by (auto simp: log_ok_def upsert_log_row_def keys_upsert)

lemma log_ok_delete: "log_ok T \<Longrightarrow> log_ok (T\<lparr>log_entries := delete_where P (log_entries T)\<rparr>)"
  by (auto simp: log_ok_def) (auto simp: delete_where_def)

lemma wf_save_term_vote [simp]: "wf_tables T \<Longrightarrow> wf_tables (save_term_vote term v T)"
  by (auto simp: wf_tables_def save_term_vote_def meta_ok_set_vote meta_ok_set_numeric cong: log_ok_cong)

lemma wf_upsert_log_row: "wf_tables T \<Longrightarrow> ok_index (entryIndex e) \<Longrightarrow> wf_tables (upsert_log_row e T)"
  by (simp add: wf_tables_def log_ok_upsert cong: meta_ok_cong)

lemma wf_append_entries:
  "wf_tables T \<Longrightarrow> list_all (\<lambda>e. ok_index (entryIndex e)) es \<Longrightarrow> wf_tables (append_entries es T)"
  by (induction es arbitrary: T) (auto simp: append_entries_def wf_upsert_log_row)

lemma wf_delete_log_from [simp]: "wf_tables T \<Longrightarrow> wf_tables (delete_log_from index T)"
  by (auto simp: wf_tables_def delete_log_from_def log_ok_delete cong: meta_ok_cong)

lemma wf_delete_log_upto [simp]: "wf_tables T \<Longrightarrow> wf_tables (delete_log_upto index T)"
  by (auto simp: wf_tables_def delete_log_upto_def log_ok_delete cong: meta_ok_cong)

lemma wf_set_numeric [simp]: "wf_tables T \<Longrightarrow> key \<noteq> ''voted_for'' \<Longrightarrow> wf_tables (set_meta key (FormatUint x) T)"
  by (auto simp: wf_tables_def meta_ok_set_numeric cong: log_ok_cong)

lemma wf_apply_set [simp]: "wf_tables T \<Longrightarrow> wf_tables (apply_set index key value T)"
  unfolding apply_set_def
  by (rule wf_set_numeric) (auto simp: wf_tables_def cong: log_ok_cong meta_ok_cong)

lemma wf_set_snapshot_meta [simp]: "wf_tables T \<Longrightarrow> wf_tables (set_snapshot_meta index term T)"
  by (simp add: set_snapshot_meta_def)

lemma wf_upsert_snapshot [simp]: "wf_tables T \<Longrightarrow> wf_tables (upsert_snapshot snap T)"
  by (auto simp: wf_tables_def cong: log_ok_cong meta_ok_cong)

lemma wf_create_snapshot [simp]: "wf_tables T \<Longrightarrow> wf_tables (create_snapshot index term T)"
  by (simp add: create_snapshot_def)

lemma wf_install_snapshot [simp]:
  assumes "wf_tables T" and "wf_table vs"
  shows "wf_tables (install_snapshot snap vs T)"
proof -
  have "wf_table (map (\<lambda>(k, v). (k, v, i)) vs)" for i :: int
    using assms(2) by (simp add: wf_table_def case_prod_beta comp_def)
  then have "wf_tables (T\<lparr>kv := map (\<lambda>(k, v). (k, v, int64_of (LastIncludedIndex snap))) vs\<rparr>)"
    using assms(1) by (auto simp: wf_tables_def log_ok_def meta_ok_def)
  then show ?thesis
    by (simp add: install_snapshot_def)
qed

subsection \<open>Opening\<close>

lemma exec_success: "exec f s = (Inr (), s') \<Longrightarrow> db s' = f (db s) \<and> is_open s' = is_open s"
  using implements_exec [of f] unfolding implements_def by fastforce

lemma exec_all_success: "exec_all fs s = (Inr (), s') \<Longrightarrow> db s' = fold (\<lambda>f. f) fs (db s) \<and> is_open s' = is_open s"
proof (induction fs arbitrary: s)
  case (Cons f fs)
  from Cons.prems obtain t where t: "exec f s = (Inr (), t)" and rest: "exec_all fs t = (Inr (), s')"
    by (auto elim: and_then_cases)
  from exec_success [OF t] Cons.IH [OF rest] show ?case
    by simp
qed (simp add: ret_def)

lemma exec_all_healthy: "healthy s \<Longrightarrow> \<exists>s'. exec_all fs s = (Inr (), s') \<and> healthy s'"
proof (induction fs arbitrary: s)
  case (Cons f fs)
  obtain t where "exec f s = (Inr (), t)" and "healthy t"
    using Cons.prems by (auto simp: exec_def db_call_def healthy_def)
  with Cons.IH show ?case
    by (auto simp: and_then_def)
qed (simp add: ret_def)

definition fill_defaults :: "(bytes \<times> bytes) list \<Rightarrow> tables \<Rightarrow> tables" where
  "fill_defaults order T = fold (\<lambda>(key, value). insert_or_ignore_meta key value) order T"

lemma funpow_id: "((\<lambda>T. T) ^^ n) x = x"
  by (induction n) auto

lemma init_success:
  assumes "init order s = (Inr (), s')"
  shows "db s' = fill_defaults order (db s) \<and> is_open s' = is_open s"
proof -
  from assms obtain t where "exec_all (replicate 6 (\<lambda>T. T)) s = (Inr (), t)"
    and "exec_all (map (\<lambda>(key, value). insert_or_ignore_meta key value) order) t = (Inr (), s')"
    unfolding init_def by (auto elim: and_then_cases)
  then show ?thesis
    by (auto dest!: exec_all_success
        simp: funpow_id fill_defaults_def fold_map comp_def)
qed

lemma Open_success:
  assumes "Open order T script = (Inr s, T')"
  shows "db s = fill_defaults order T \<and> T' = db s \<and> is_open s"
proof -
  from assms obtain s0 where
    "and_then (exec (\<lambda>T. T)) (\<lambda>_. exec (\<lambda>T. T)) \<lparr>db = T, faults = script, is_open = True\<rparr> = (Inr (), s0)"
    and i: "init order s0 = (Inr (), s)" and "T' = db s"
    by (auto simp: Open_def Let_def split: prod.splits sum.splits)
  then have "db s0 = T" and "is_open s0"
    by (auto elim!: and_then_cases dest!: exec_success)
  with init_success [OF i] \<open>T' = db s\<close> show ?thesis by simp
qed

lemma Open_healthy: "\<exists>s. Open order T [] = (Inr s, db s) \<and> healthy s"
proof -
  let ?s = "\<lparr>db = T, faults = [], is_open = True\<rparr>"
  have h: "healthy ?s" and "and_then (exec (\<lambda>T. T)) (\<lambda>_. exec (\<lambda>T. T)) ?s = (Inr (), ?s)"
    by (auto simp: healthy_def and_then_def exec_def db_call_def)
  moreover obtain s1 s2 where "exec_all (replicate 6 (\<lambda>T. T)) ?s = (Inr (), s1)" and
    "exec_all (map (\<lambda>(key, value). insert_or_ignore_meta key value) order) s1 = (Inr (), s2)" "healthy s2"
    using exec_all_healthy h by metis
  ultimately show ?thesis
    by (auto simp: Open_def init_def and_then_def)
qed

lemma map_of_fill_defaults:
  "map_of (metadata (fill_defaults order T)) key =
     (case map_of (metadata T) key of Some v \<Rightarrow> Some v | None \<Rightarrow> map_of order key)"
proof (induction order arbitrary: T)
  case (Cons d order)
  obtain k v where d: "d = (k, v)"
    by force
  have "fill_defaults (d # order) T = fill_defaults order (insert_or_ignore_meta k v T)"
    by (simp add: fill_defaults_def d)
  with Cons show ?case
    by (auto simp: d insert_or_ignore_meta_def table_simps split: option.splits)
qed (simp add: fill_defaults_def split: option.splits)

lemma fill_defaults_frame [simp]:
  "log_entries (fill_defaults order T) = log_entries T"
  "kv (fill_defaults order T) = kv T"
  "snapshot_row (fill_defaults order T) = snapshot_row T"
  "wf_table (metadata T) \<Longrightarrow> wf_table (metadata (fill_defaults order T))"
  by (induction order arbitrary: T) (auto simp: fill_defaults_def insert_or_ignore_meta_def)

text \<open>Reopening well-formed tables changes nothing.\<close>

lemma fill_defaults_ok:
  assumes "meta_ok T" and "set order = set defaults"
  shows "fill_defaults order T = T"
proof -
  have "insert_or_ignore_meta k v T = T" if "(k, v) \<in> set defaults" for k v
    using assms(1) that
    by (auto simp: defaults_def insert_or_ignore_meta_def meta_ok_def numeric_keys_def)
  then have "\<forall>d \<in> set order. (case d of (k, v) \<Rightarrow> insert_or_ignore_meta k v) T = T"
    using assms(2) by auto
  then show ?thesis
    unfolding fill_defaults_def by (induction order) auto
qed

lemma map_of_permuted_defaults:
  assumes "set order = set defaults"
  shows "map_of order = map_of defaults"
proof -
  have d: "distinct (map fst defaults)"
    by (simp add: defaults_def)
  have "inj_on fst (set order)"
    using d assms by (simp add: distinct_map)
  have *: "map_of order k = Some v \<longleftrightarrow> (k, v) \<in> set defaults" for k v
  proof
    assume "map_of order k = Some v"
    then show "(k, v) \<in> set defaults"
      using assms map_of_SomeD by fastforce
  next
    assume kv: "(k, v) \<in> set defaults"
    then obtain v' where v': "map_of order k = Some v'"
      by (metis assms map_of_eq_None_iff image_eqI fst_conv option.exhaust)
    then have "(k, v') \<in> set order"
      by (rule map_of_SomeD)
    then have "v' = v"
      using \<open>inj_on fst (set order)\<close> kv assms by (metis fst_conv inj_onD snd_conv)
    with v' show "map_of order k = Some v"
      by simp
  qed
  show ?thesis
    by (rule ext, rule option.expand)
      (use * d in \<open>metis map_of_eq_Some_iff option.collapse option.sel option.discI\<close>)+
qed

lemma FormatUint_0: "FormatUint 0 = ''0''"
  by code_simp

lemma wf_fill_defaults_empty:
  assumes "set order = set defaults"
  shows "wf_tables (fill_defaults order empty_tables)"
proof -
  have "\<exists>x. map_of defaults key = Some (FormatUint x)" if "key \<in> set numeric_keys" for key
    using that by (intro exI [of _ 0]) (auto simp: numeric_keys_def defaults_def FormatUint_0)
  moreover have "map_of defaults ''voted_for'' \<noteq> None"
    by (simp add: defaults_def)
  ultimately show ?thesis
    by (auto simp: wf_tables_def meta_ok_def log_ok_def map_of_fill_defaults empty_tables_def
        map_of_permuted_defaults [OF assms])
qed

section \<open>The replicated log\<close>

definition log_entry :: "tables \<Rightarrow> u64 \<Rightarrow> (u64 \<times> bytes) option" where
  "log_entry T i = map_option (\<lambda>(term, command). (uint64_of term, command)) (map_of (log_entries T) (int64_of i))"

lemma log_term_log_entry: "log_term T i = map_option fst (log_entry T i)"
  by (cases "map_of (log_entries T) (int64_of i)") (auto simp: log_term_def log_entry_def)

lemma log_entry_upsert:
  "log_entry (upsert_log_row e T) i = (if i = entryIndex e then Some (entryTerm e, entryCommand e) else log_entry T i)"
  by (auto simp: log_entry_def upsert_log_row_def table_simps)

lemma log_entry_append:
  "log_entry (append_entries es T) i =
     (case map_of (rev (map (\<lambda>e. (entryIndex e, entryTerm e, entryCommand e)) es)) i of
        None \<Rightarrow> log_entry T i | Some x \<Rightarrow> Some x)"
  unfolding append_entries_def
  by (induction es arbitrary: T) (auto simp: log_entry_upsert map_add_def split: option.splits)

lemma log_entry_ok:
  assumes "log_ok T" and "log_entry T i = Some x"
  shows "ok_index i"
proof -
  from assms(2) have "int64_of i \<in> fst ` set (log_entries T)"
    by (auto simp: log_entry_def dest!: map_of_SomeD intro: rev_image_eqI)
  with assms(1) have pos: "0 < int64_of i" and "int64_of i < 2 ^ 63"
    by (auto simp: log_ok_def)
  have "i < 2 ^ 63"
  proof (rule ccontr)
    assume "\<not> i < 2 ^ 63"
    then have "2 ^ 63 \<le> uint i"
      by (simp add: word_less_def)
    then have "uint i div 2 ^ 63 = 1"
      using uint_lt2p [of i] by simp
    then have "int64_of i = uint i - 2 ^ 64"
      using uint_lt2p [of i] by (simp add: int64_of_def sint_uint signed_take_bit_eq_take_bit_minus
          take_bit_eq_mod bit_iff_odd)
    then show False
      using pos uint_lt2p [of i] by simp
  qed
  with pos show ?thesis
    by (auto simp: ok_index_def word_gt_0)
qed

lemma log_entry_delete_from:
  assumes "log_ok T" and "ok_index k"
  shows "log_entry (delete_log_from k T) i = (if k \<le> i then None else log_entry T i)"
proof (cases "ok_index i")
  case True
  then have "int64_of k \<le> int64_of i \<longleftrightarrow> k \<le> i"
    using assms(2) by (intro int64_of_le_iff) (auto simp: ok_index_def)
  then show ?thesis
    by (simp add: log_entry_def delete_log_from_def table_simps)
next
  case False
  then have "log_entry T i = None"
    using log_entry_ok [OF assms(1)] by (cases "log_entry T i") auto
  then show ?thesis
    by (auto simp: log_entry_def delete_log_from_def table_simps)
qed

text \<open>Entries at consecutive indices after \<open>p\<close>: what a leader sends after its previous entry.\<close>

fun consecutive :: "u64 \<Rightarrow> Entry list \<Rightarrow> bool" where
  "consecutive p [] = True"
| "consecutive p (e # es) = (entryIndex e = p + 1 \<and> ok_index (p + 1) \<and> consecutive (p + 1) es)"

lemma ok_index_Suc: "ok_index (p + 1) \<Longrightarrow> p < p + 1"
proof -
  assume "ok_index (p + 1)"
  then have "p \<noteq> - 1"
    by (auto simp: ok_index_def)
  then have "p < - 1"
    by (simp add: word_order.not_eq_extremum)
  then show ?thesis
    by (rule u64_less_Suc)
qed

lemma consecutive_bounds: "consecutive p es \<Longrightarrow> e \<in> set es \<Longrightarrow> p < entryIndex e \<and> ok_index (entryIndex e)"
proof (induction p es rule: consecutive.induct)
  case (2 p e' es)
  then show ?case
    using ok_index_Suc [of p] by (auto intro: less_trans)
qed simp

lemma consecutive_ok: "consecutive p es \<Longrightarrow> list_all (\<lambda>e. ok_index (entryIndex e)) es"
  by (auto simp: list_all_iff dest: consecutive_bounds)

lemma consecutive_distinct: "consecutive p es \<Longrightarrow> distinct (map entryIndex es)"
  by (induction p es rule: consecutive.induct) (auto dest: consecutive_bounds)

text \<open>
  Conflict resolution, over any log: entries the log already has with the same term are
  skipped; at the first one it lacks, the rest is appended; at the first one whose term
  differs, the log is truncated there and the rest is appended.
\<close>

fun reconcile :: "('t \<Rightarrow> u64 \<Rightarrow> (u64 \<times> bytes) option) \<Rightarrow> (Entry list \<Rightarrow> 't \<Rightarrow> 't) \<Rightarrow> (u64 \<Rightarrow> 't \<Rightarrow> 't)
    \<Rightarrow> Entry list \<Rightarrow> 't \<Rightarrow> 't" where
  "reconcile look app trunc [] t = t"
| "reconcile look app trunc (e # es) t =
     (case look t (entryIndex e) of
        None \<Rightarrow> app (e # es) t
      | Some (tm, _) \<Rightarrow>
          if tm \<noteq> entryTerm e then app (e # es) (trunc (entryIndex e) t)
          else reconcile look app trunc es t)"

locale replicated_log =
  fixes look :: "'t \<Rightarrow> u64 \<Rightarrow> (u64 \<times> bytes) option"
    and app :: "Entry list \<Rightarrow> 't \<Rightarrow> 't"
    and trunc :: "u64 \<Rightarrow> 't \<Rightarrow> 't"
    and linv :: "'t \<Rightarrow> bool"
  assumes look_app:
      "look (app es t) i =
         (case map_of (rev (map (\<lambda>e. (entryIndex e, entryTerm e, entryCommand e)) es)) i of
            None \<Rightarrow> look t i | Some x \<Rightarrow> Some x)"
    and look_trunc: "linv t \<Longrightarrow> ok_index k \<Longrightarrow> look (trunc k t) i = (if k \<le> i then None else look t i)"
    and linv_app: "linv t \<Longrightarrow> list_all (\<lambda>e. ok_index (entryIndex e)) es \<Longrightarrow> linv (app es t)"
    and linv_trunc: "linv t \<Longrightarrow> linv (trunc k t)"
begin

lemma look_app_outside: "(\<And>e. e \<in> set es \<Longrightarrow> entryIndex e \<noteq> i) \<Longrightarrow> look (app es t) i = look t i"
  by (fastforce simp: look_app split: option.splits dest!: map_of_SomeD)

lemma look_app_inside:
  assumes "distinct (map entryIndex es)" and "e \<in> set es"
  shows "look (app es t) (entryIndex e) = Some (entryTerm e, entryCommand e)"
proof -
  have "distinct (map fst (rev (map (\<lambda>e. (entryIndex e, entryTerm e, entryCommand e)) es)))"
    using assms(1) by (simp add: rev_map comp_def flip: rev_map)
  then have "map_of (rev (map (\<lambda>e. (entryIndex e, entryTerm e, entryCommand e)) es)) (entryIndex e) =
      Some (entryTerm e, entryCommand e)"
    using assms(2) by (intro map_of_is_SomeI) auto
  then show ?thesis
    by (simp add: look_app)
qed

lemma linv_reconcile: "linv t \<Longrightarrow> consecutive p es \<Longrightarrow> linv (reconcile look app trunc es t)"
proof (induction es arbitrary: p)
  case (Cons e es)
  have "list_all (\<lambda>e. ok_index (entryIndex e)) (e # es)"
    using Cons.prems by (intro consecutive_ok [of p])
  with Cons show ?case
    by (auto split: option.splits intro!: linv_app linv_trunc)
qed simp

text \<open>Nothing at or below the previous index changes.\<close>

lemma reconcile_prefix:
  "linv t \<Longrightarrow> consecutive p es \<Longrightarrow> i \<le> p \<Longrightarrow> look (reconcile look app trunc es t) i = look t i"
proof (induction es arbitrary: p)
  case (Cons e es)
  have p: "p < entryIndex e" and ok: "ok_index (entryIndex e)"
    using Cons.prems by (auto dest: ok_index_Suc)
  have out: "entryIndex e' \<noteq> i" if "e' \<in> set (e # es)" for e'
    using consecutive_bounds [OF Cons.prems(2) that] Cons.prems(3) by auto
  have "look (app (e # es) t') i = look t' i" for t'
    by (rule look_app_outside) (rule out)
  moreover have "look (reconcile look app trunc es t) i = look t i"
    using Cons.prems p by (intro Cons.IH [of "p + 1"]) auto
  ultimately show ?case
    using Cons.prems p ok by (auto simp: look_trunc split: option.splits)
qed simp

text \<open>Every entry of the request is there afterwards, with the request's term.\<close>

lemma reconcile_terms:
  "linv t \<Longrightarrow> consecutive p es \<Longrightarrow> e \<in> set es \<Longrightarrow>
     map_option fst (look (reconcile look app trunc es t) (entryIndex e)) = Some (entryTerm e)"
proof (induction es arbitrary: p)
  case (Cons e' es)
  have "distinct (map entryIndex (e' # es))"
    using Cons.prems(2) by (rule consecutive_distinct)
  then have all: "look (app (e' # es) t') (entryIndex e) = Some (entryTerm e, entryCommand e)" for t'
    using Cons.prems(3) by (rule look_app_inside)
  have keep: "look (reconcile look app trunc es t) (entryIndex e') = look t (entryIndex e')"
    using Cons.prems by (intro reconcile_prefix [of t "p + 1"]) auto
  have rest: "map_option fst (look (reconcile look app trunc es t) (entryIndex e)) = Some (entryTerm e)" if "e \<in> set es"
    using Cons.prems that by (intro Cons.IH [of "p + 1"]) auto
  show ?case
    using Cons.prems(3) all keep rest by (auto split: option.splits)
qed simp

text \<open>Beyond the request an entry is either kept or cut off; it is never changed.\<close>

lemma reconcile_beyond:
  assumes "linv t" and "consecutive p es" and "\<And>e. e \<in> set es \<Longrightarrow> entryIndex e \<noteq> i"
  shows "look (reconcile look app trunc es t) i = look t i \<or> look (reconcile look app trunc es t) i = None"
  using assms
proof (induction es arbitrary: p)
  case (Cons e es)
  have "look (app (e # es) t') i = look t' i" for t'
    by (rule look_app_outside) (use Cons.prems(3) in auto)
  moreover have "look (reconcile look app trunc es t) i = look t i \<or> look (reconcile look app trunc es t) i = None"
    by (rule Cons.IH [of "p + 1"]) (use Cons.prems in auto)
  ultimately show ?case
    using Cons.prems(1,2) by (auto simp: look_trunc split: option.splits)
qed simp

text \<open>Receiving the same request again changes nothing.\<close>

lemma reconcile_skip:
  "(\<And>e. e \<in> set es \<Longrightarrow> map_option fst (look t (entryIndex e)) = Some (entryTerm e)) \<Longrightarrow>
     reconcile look app trunc es t = t"
  by (induction es) (force split: option.splits)+

lemma reconcile_idem:
  "linv t \<Longrightarrow> consecutive p es \<Longrightarrow>
     reconcile look app trunc es (reconcile look app trunc es t) = reconcile look app trunc es t"
  by (rule reconcile_skip) (rule reconcile_terms)

end

interpretation sql_log: replicated_log log_entry append_entries delete_log_from wf_tables
  by unfold_locales (simp_all add: log_entry_append log_entry_delete_from wf_tables_def [THEN iffD1]
      wf_append_entries)

section \<open>Reading back what was written\<close>

lemma meta_uint_set: "meta_uint (set_meta key (FormatUint x) T) key = Inr x"
  by (simp add: meta_uint_def table_simps ParseUint_FormatUint)

lemma meta_uint_other: "key \<noteq> key' \<Longrightarrow> meta_uint (set_meta key' v T) key = meta_uint T key"
  by (simp add: meta_uint_def table_simps)

lemma meta_uint_cong: "metadata T = metadata T' \<Longrightarrow> meta_uint T key = meta_uint T' key"
  by (simp add: meta_uint_def)

lemma snap_pos_cong:
  assumes "metadata T = metadata T'"
  shows "snap_pos T = snap_pos T'"
proof -
  have "meta_uint T = meta_uint T'"
    using meta_uint_cong [OF assms] by (rule ext)
  then show ?thesis
    by (simp add: snap_pos_def split: sum.splits)
qed

lemma term_vote_cong: "metadata T = metadata T' \<Longrightarrow> term_vote T = term_vote T'"
  using meta_uint_cong [of T T' "''current_term''"] by (simp add: term_vote_def split: sum.splits)

lemma term_vote_save: "term_vote (save_term_vote t v T) = Inr (t, v)"
  by (simp add: term_vote_def save_term_vote_def meta_uint_other meta_uint_set table_simps)

lemma snap_pos_set: "snap_pos (set_snapshot_meta index t T) = Inr (index, t)"
  by (simp add: snap_pos_def set_snapshot_meta_def meta_uint_other meta_uint_set)

lemma applied_set_snapshot: "meta_uint (set_snapshot_meta index t T) ''last_applied'' = Inr index"
  by (simp add: set_snapshot_meta_def meta_uint_set)

lemma applied_apply_set: "meta_uint (apply_set index key v T) ''last_applied'' = Inr index"
  by (simp add: apply_set_def meta_uint_set)

lemma db_Close: "db (snd (Close s)) = db s"
  by (auto simp: Close_def exec_def split: prod.splits dest: db_call_cases)

lemma meta_uint_ok: "meta_ok T \<Longrightarrow> key \<in> set numeric_keys \<Longrightarrow> \<exists>x. meta_uint T key = Inr x"
  by (fastforce simp: meta_ok_def meta_uint_def ParseUint_FormatUint)

lemma snap_pos_ok: "meta_ok T \<Longrightarrow> \<exists>index t. snap_pos T = Inr (index, t)"
  using meta_uint_ok [of T "''snapshot_index''"] meta_uint_ok [of T "''snapshot_term''"]
  by (auto simp: snap_pos_def numeric_keys_def)

lemma wf_tables_meta: "wf_tables T \<Longrightarrow> meta_ok T"
  by (simp add: wf_tables_def)

lemma wf_tables_log: "wf_tables T \<Longrightarrow> log_ok T"
  by (simp add: wf_tables_def)

lemma filter_delete: "filter (\<lambda>r. P (fst r)) t = delete_where (\<lambda>k. \<not> P k) t"
  by (simp add: delete_where_def)

definition log_row :: "Entry \<Rightarrow> int \<times> (int \<times> bytes)" where
  "log_row e = (int64_of (entryIndex e), int64_of (entryTerm e), entryCommand e)"

lemma row_entry_log_row [simp]: "row_entry (log_row e) = e"
  by (simp add: row_entry_def log_row_def)

lemma wf_log_rows: "consecutive p es \<Longrightarrow> wf_table (map log_row es)"
proof (induction p es rule: consecutive.induct)
  case (2 p e es)
  have "int64_of (p + 1) < int64_of (entryIndex e')" if "e' \<in> set es" for e'
    using consecutive_bounds [of "p + 1" es e'] 2 that by (subst int64_of_less_iff) (auto simp: ok_index_def)
  then show ?case
    using 2 by (auto simp: wf_table_def log_row_def sorted_wrt_map)
qed simp

lemma map_of_log_append:
  "map_of (log_entries (append_entries es T)) = map_of (log_entries T) ++ map_of (rev (map log_row es))"
  unfolding append_entries_def
  by (induction es arbitrary: T) (auto simp: upsert_log_row_def table_simps log_row_def map_add_def fun_eq_iff split: option.splits)

text \<open>What the reads of a log return after new entries were appended at its end.\<close>

lemma rows_from_append:
  assumes "log_ok T" and "consecutive p es" and "p < 2 ^ 63"
    and beyond: "\<And>k. k \<in> fst ` set (log_entries T) \<Longrightarrow> k \<le> int64_of p"
    and ok: "log_ok (append_entries es T)"
  shows "filter (\<lambda>r. int64_of p < fst r) (log_entries (append_entries es T)) = map log_row es"
proof (rule wf_table_eqI)
  show "wf_table (filter (\<lambda>r. int64_of p < fst r) (log_entries (append_entries es T)))"
    using ok by (simp add: filter_delete [of "\<lambda>k. int64_of p < k"] log_ok_def)
  show "wf_table (map log_row es)"
    using assms(2) by (rule wf_log_rows)
  then have rev: "map_of (rev (map log_row es)) = map_of (map log_row es)"
    by (intro map_of_inject_set [THEN iffD2]) (auto dest: wf_table_distinct simp flip: rev_map)
  have rows: "int64_of p < k" if "map_of (map log_row es) k = Some v" for k v
  proof -
    from that obtain e where "e \<in> set es" "k = int64_of (entryIndex e)"
      by (auto simp: log_row_def dest!: map_of_SomeD)
    with consecutive_bounds [OF assms(2)] assms(3) show ?thesis
      by (auto simp: ok_index_def int64_of_less_iff)
  qed
  have old: "map_of (log_entries T) k = None" if "int64_of p < k" for k
    using beyond that by (force simp: map_of_eq_None_iff)
  show "map_of (filter (\<lambda>r. int64_of p < fst r) (log_entries (append_entries es T))) = map_of (map log_row es)"
    unfolding filter_delete [of "\<lambda>k. int64_of p < k"] map_of_delete_where map_of_log_append rev
    using rows old by (fastforce simp: fun_eq_iff map_add_def split: option.splits)
qed


section \<open>Properties of the storage layer\<close>

text \<open>A data directory after the first start of a node.\<close>

definition fresh_store :: Store where
  "fresh_store = \<lparr>db = fill_defaults defaults empty_tables, faults = [], is_open = True\<rparr>"

lemma wf_fresh: "wf_tables (db fresh_store)"
  by (simp add: fresh_store_def wf_fill_defaults_empty)

lemma healthy_fresh: "healthy fresh_store"
  by (simp add: fresh_store_def healthy_def)

lemma ParseUint_0: "ParseUint ''0'' = Inr 0"
  using ParseUint_FormatUint [of 0] by (simp add: FormatUint_0)

lemma meta_fresh: "key \<in> set numeric_keys \<Longrightarrow> meta_uint (db fresh_store) key = Inr 0"
  by (auto simp: numeric_keys_def meta_uint_def fresh_store_def map_of_fill_defaults empty_tables_def
      defaults_def ParseUint_0)

lemma snap_pos_fresh: "snap_pos (db fresh_store) = Inr (0, 0)"
  by (simp add: snap_pos_def meta_fresh numeric_keys_def)


text \<open>
  C30: a term and vote that \<open>SaveTermVote\<close> has reported as saved are what \<open>CurrentTermVote\<close> reads
  after the store is closed and reopened, in whatever order the defaults are inserted and
  whatever fails on the way; and without failures the reopening succeeds.
\<close>

theorem SaveTermVote_reopen:
  assumes "wf_tables (db s)" and "set order = set defaults" and "SaveTermVote t v s = (Inr (), s')"
  shows "(\<forall>script s2 T2 r s3. Open order (db (snd (Close s'))) script = (Inr s2, T2)
        \<and> CurrentTermVote s2 = (Inr r, s3) \<longrightarrow> r = (t, v))
    \<and> (\<exists>s2 s3. Open order (db (snd (Close s'))) [] = (Inr s2, db s2) \<and> CurrentTermVote s2 = (Inr (t, v), s3))"
proof -
  have T: "db s' = save_term_vote t v (db s)"
    using SaveTermVote.on_success [OF assms(3)] by simp
  then have "wf_tables (db s')"
    using assms(1) by simp
  then have id: "fill_defaults order (db s') = db s'"
    using assms(2) by (simp add: fill_defaults_ok wf_tables_meta)
  then have reopened: "db s2 = db s'" if "Open order (db (snd (Close s'))) script = (Inr s2, T2)" for script s2 T2
    using Open_success [OF that] by (simp add: db_Close)
  obtain s2 where s2: "Open order (db (snd (Close s'))) [] = (Inr s2, db s2)" "healthy s2"
    using Open_healthy by blast
  then have "\<exists>s3. CurrentTermVote s2 = (Inr (t, v), s3)"
    using CurrentTermVote.when_healthy [of s2] reopened by (auto simp: T term_vote_save)
  with s2(1) reopened show ?thesis
    by (auto dest!: CurrentTermVote.on_success simp: T term_vote_save)
qed

theorem SaveTermVote_reopen_witness:
  "\<exists>s' s2 s3. SaveTermVote 7 ''n2'' fresh_store = (Inr (), s')
     \<and> Open defaults (db (snd (Close s'))) [] = (Inr s2, db s2) \<and> CurrentTermVote s2 = (Inr (7, ''n2''), s3)"
proof -
  obtain s' where s': "SaveTermVote 7 ''n2'' fresh_store = (Inr (), s')"
    using SaveTermVote.when_healthy [OF healthy_fresh, of 7 "''n2''"] by auto
  from SaveTermVote_reopen [OF wf_fresh refl s'] s' show ?thesis
    by auto
qed


text \<open>The methods that change the tables, as data: a run of the store is a list of them.\<close>

datatype store_op =
    OpSaveTermVote u64 bytes
  | OpSetLastApplied u64
  | OpAppendEntries "Entry list"
  | OpDeleteFrom u64
  | OpApplySet u64 bytes bytes
  | OpCreateSnapshot u64 u64
  | OpInstallSnapshot Snapshot

primrec run_op :: "store_op \<Rightarrow> Store \<Rightarrow> Store" where
  "run_op (OpSaveTermVote t v) s = snd (SaveTermVote t v s)"
| "run_op (OpSetLastApplied index) s = snd (SetLastApplied index s)"
| "run_op (OpAppendEntries es) s = snd (AppendEntries es s)"
| "run_op (OpDeleteFrom index) s = snd (DeleteFrom index s)"
| "run_op (OpApplySet index key v) s = snd (ApplySet index key v s)"
| "run_op (OpCreateSnapshot index t) s = snd (CreateSnapshot index t s)"
| "run_op (OpInstallSnapshot snap) s = snd (InstallSnapshot snap s)"

primrec op_ok :: "store_op \<Rightarrow> bool" where
  "op_ok (OpSaveTermVote t v) = True"
| "op_ok (OpSetLastApplied index) = True"
| "op_ok (OpAppendEntries es) = list_all (\<lambda>e. ok_index (entryIndex e)) es"
| "op_ok (OpDeleteFrom index) = True"
| "op_ok (OpApplySet index key v) = True"
| "op_ok (OpCreateSnapshot index t) = True"
| "op_ok (OpInstallSnapshot snap) = True"

lemma implements_wf:
  assumes "implements m w" and "wf_tables (db s)" and "wf_tables (snd (w (db s)))"
  shows "wf_tables (db (snd (m s)))"
  using assms unfolding implements_def by (metis prod.collapse snd_conv)

lemma implements_SetLastApplied:
  "implements (SetLastApplied index) (\<lambda>T. (Inr (), set_meta ''last_applied'' (FormatUint index) T))"
  unfolding SetLastApplied_def by (rule implements_exec)

lemmas mutator_specs = implements_SaveTermVote implements_SetLastApplied implements_AppendEntries
  implements_DeleteFrom implements_ApplySet implements_CreateSnapshot implements_InstallSnapshot

lemma wf_run_op: "wf_tables (db s) \<Longrightarrow> op_ok oper \<Longrightarrow> wf_tables (db (run_op oper s))"
  by (cases oper)
    (auto intro!: mutator_specs [THEN implements_wf] wf_append_entries wf_install_snapshot snapshot_values_wf
      split: sum.splits)

text \<open>
  C31: the tables stay well formed (sorted by their keys, metadata numeric and complete, log indices
  positive and below \<open>2 ^ 63\<close>) from the first start on, through every sequence of writes, also
  when some of them fail.
\<close>

theorem store_wf_invariant:
  assumes "set order = set defaults" and "Open order empty_tables script = (Inr s, T)"
    and "list_all op_ok ops"
  shows "wf_tables (db (fold run_op ops s))"
proof -
  have "wf_tables (db s)"
    using Open_success [OF assms(2)] wf_fill_defaults_empty [OF assms(1)] by simp
  then show ?thesis
    using assms(3) by (induction ops arbitrary: s) (auto intro: wf_run_op)
qed

theorem store_wf_invariant_witness:
  "\<exists>s. Open defaults empty_tables [] = (Inr s, db s)
     \<and> wf_tables (db (fold run_op
         [OpAppendEntries [\<lparr>entryIndex = 1, entryTerm = 1, entryCommand = ''x''\<rparr>], OpApplySet 1 ''k'' ''v'',
          OpCreateSnapshot 1 1, OpDeleteFrom 5] s))"
proof -
  obtain s where s: "Open defaults empty_tables [] = (Inr s, db s)"
    using Open_healthy by blast
  from store_wf_invariant [OF refl this, of "[OpAppendEntries [\<lparr>entryIndex = 1, entryTerm = 1, entryCommand = ''x''\<rparr>],
      OpApplySet 1 ''k'' ''v'', OpCreateSnapshot 1 1, OpDeleteFrom 5]"] s
  show ?thesis
    by (simp add: ok_index_def)
qed

lemma snap_pos_append [simp]: "snap_pos (append_entries es T) = snap_pos T"
  by (rule snap_pos_cong) (induction es arbitrary: T, auto simp: append_entries_def)

lemma limit_rows_map: "limit_rows limit (map f xs) = map f (limit_rows limit xs)"
  by (simp add: limit_rows_def take_map)

lemma int64_of_Suc:
  assumes "ok_index (p + 1)"
  shows "int64_of (p + 1) = int64_of p + 1"
proof -
  have "p < p + 1" and "p + 1 < 2 ^ 63"
    using assms ok_index_Suc by (auto simp: ok_index_def)
  then have "p < 2 ^ 63"
    by simp
  moreover have "uint (p + 1) = uint p + 1"
    unfolding uint_nat unat_u64_Suc [OF \<open>p < p + 1\<close>] by simp
  ultimately show ?thesis
    using \<open>p + 1 < 2 ^ 63\<close> by (simp add: int64_of_small)
qed

lemma last_log_rows:
  assumes "log_ok T" and "es \<noteq> []" and "filter (\<lambda>r. b < fst r) (log_entries T) = map log_row es"
  shows "last_pos T = Inr (entryIndex (last es), entryTerm (last es))"
proof -
  have "log_entries T \<noteq> []"
    using assms(2,3) by auto
  moreover have "last (log_entries T) = log_row (last es)"
  proof -
    have "last (filter (\<lambda>r. b < fst r) t) = last t" if "wf_table t" "filter (\<lambda>r. b < fst r) t \<noteq> []" for t :: "(int \<times> int \<times> bytes) list"
      using that by (induction t) (fastforce simp: wf_table_def filter_empty_conv dest: last_in_set split: if_splits)+
    with assms show ?thesis
      by (metis last_map log_ok_def map_is_Nil_conv)
  qed
  ultimately show ?thesis
    by (simp add: last_pos_def log_row_def)
qed

text \<open>
  C32: entries appended after the end of the log are read back: \<open>EntriesFrom\<close> returns exactly them,
  in order and cut at its limit, and \<open>LastIndexAndTerm\<close> the index and term of the last one.
\<close>

theorem AppendEntries_read_back:
  assumes "wf_tables (db s)" and "snap_pos (db s) = Inr (i, t)" and "i \<le> p" and "ok_index (p + 1)"
    and "\<And>k. k \<in> fst ` set (log_entries (db s)) \<Longrightarrow> k \<le> int64_of p"
    and "consecutive p es" and "AppendEntries es s = (Inr (), s')"
  shows "(\<forall>limit xs s2. EntriesFrom (p + 1) limit s' = (Inr xs, s2) \<longrightarrow> xs = limit_rows limit es)
     \<and> (\<forall>pos s2. es \<noteq> [] \<and> LastIndexAndTerm s' = (Inr pos, s2) \<longrightarrow> pos = (entryIndex (last es), entryTerm (last es)))"
proof -
  have T: "db s' = append_entries es (db s)"
    using AppendEntries.on_success [OF assms(7)] by simp
  have wf: "wf_tables (db s')"
    unfolding T using assms(1,6) by (intro wf_append_entries consecutive_ok)
  have p: "p < p + 1" "p < 2 ^ 63"
    using assms(4) ok_index_Suc [of p] by (auto simp: ok_index_def)
  have rows: "filter (\<lambda>r. int64_of p < fst r) (log_entries (db s')) = map log_row es"
    unfolding T by (rule rows_from_append) (use assms p wf T in \<open>auto simp: wf_tables_def\<close>)
  moreover have "\<not> p + 1 \<le> i"
    using p(1) assms(3) by simp
  ultimately have "entries_from (p + 1) limit (db s') = Inr (limit_rows limit es)" for limit
    using assms(2,4) by (simp add: entries_from_def T int64_of_Suc zle_add1_eq_le add1_zle_eq limit_rows_map comp_def)
  moreover have "last_pos (db s') = Inr (entryIndex (last es), entryTerm (last es))" if "es \<noteq> []"
    using wf that rows by (intro last_log_rows) (auto simp: wf_tables_def)
  ultimately show ?thesis
    by (auto dest!: EntriesFrom.on_success LastIndexAndTerm.on_success)
qed


theorem AppendEntries_read_back_witness:
  "let e = \<lparr>entryIndex = 1, entryTerm = 4, entryCommand = ''x''\<rparr> in
   \<exists>s' s2 s3. AppendEntries [e] fresh_store = (Inr (), s')
     \<and> EntriesFrom 1 128 s' = (Inr [e], s2) \<and> LastIndexAndTerm s' = (Inr (1, 4), s3)"
proof -
  let ?e = "\<lparr>entryIndex = 1, entryTerm = 4, entryCommand = ''x''\<rparr>"
  obtain s' where s': "AppendEntries [?e] fresh_store = (Inr (), s')" "healthy s'"
    using AppendEntries.when_healthy [OF healthy_fresh, of "[?e]"] by auto
  have snap: "snap_pos (db fresh_store) = Inr (0, 0)"
    by (rule snap_pos_fresh)
  have log: "log_entries (db fresh_store) = []"
    by (simp add: fresh_store_def empty_tables_def)
  have T: "db s' = append_entries [?e] (db fresh_store)"
    using AppendEntries.on_success [OF s'(1)] by simp
  then have sp': "snap_pos (db s') = Inr (0, 0)" and lp: "log_entries (db s') \<noteq> []"
    using snap log by (simp_all add: append_entries_def upsert_log_row_def cong: snap_pos_cong)
  obtain xs s2 pos s3 where r: "EntriesFrom (0 + 1) 128 s' = (Inr xs, s2)" "LastIndexAndTerm s' = (Inr pos, s3)"
    using EntriesFrom.when_healthy [OF s'(2), of 1 128] LastIndexAndTerm.when_healthy [OF s'(2)] sp' lp
    by (auto simp: entries_from_def last_pos_def)
  moreover have "consecutive 0 [?e]" "ok_index (0 + 1)"
    by (auto simp: ok_index_def)
  ultimately have "xs = limit_rows 128 [?e] \<and> pos = (1, 4)"
    using AppendEntries_read_back [OF wf_fresh snap, of 0 "[?e]" s'] s'(1) log by simp
  with r s'(1) show ?thesis
    by (simp add: limit_rows_def)
qed

lemma kv_pairs_install [simp]: "kv_pairs (install_snapshot snap vs T) = vs"
  by (simp add: kv_pairs_def install_snapshot_def set_snapshot_meta_def case_prod_beta comp_def)

lemma snap_pos_install: "snap_pos (install_snapshot snap vs T) = Inr (LastIncludedIndex snap, LastIncludedTerm snap)"
  by (simp add: install_snapshot_def snap_pos_set)

lemma wf_kv_pairs: "wf_table (kv T) \<Longrightarrow> wf_table (kv_pairs T)"
  by (simp add: wf_table_def kv_pairs_def case_prod_beta comp_def)

lemma snapshot_values_new:
  assumes "valid_pairs (kv_pairs T)" and "wf_table (kv T)"
  shows "snapshot_values (new_snapshot index t T) = Inr (kv_pairs T)"
proof -
  have "marshal_object (kv_pairs T) \<noteq> []"
    by (simp add: marshal_object_def)
  with assms show ?thesis
    by (simp add: snapshot_values_def new_snapshot_def unmarshal_map_marshal wf_kv_pairs)
qed

lemma map_of_kv_pairs: "map_of (kv_pairs T) key = map_option fst (map_of (kv T) key)"
proof -
  have "map_of (map (\<lambda>(k, v, _). (k, v)) t) key = map_option fst (map_of t key)" for t :: "(bytes \<times> bytes \<times> int) list"
    by (induction t) auto
  then show ?thesis
    by (simp add: kv_pairs_def)
qed

text \<open>
  C33: a snapshot created on one node and installed on another carries over the whole key-value
  state, the position of the last included entry and the applied index, provided keys and
  values are valid UTF-8.
\<close>

theorem snapshot_roundtrip:
  assumes "wf_tables (db s)" and "valid_pairs (kv_pairs (db s))"
    and "CreateSnapshot index t s = (Inr snap, s')" and "InstallSnapshot snap f = (Inr (), f')"
  shows "kv_pairs (db f') = kv_pairs (db s) \<and> snap_pos (db f') = Inr (index, t) \<and> snap_pos (db s') = Inr (index, t)
    \<and> load_snapshot (db f') = snap \<and> load_snapshot (db s') = snap \<and> kv (db s') = kv (db s)
    \<and> meta_uint (db f') ''last_applied'' = Inr index"
proof -
  have snap: "snap = new_snapshot index t (db s)" and s': "db s' = create_snapshot index t (db s)"
    using CreateSnapshot.on_success [OF assms(3)] by auto
  have "snapshot_values snap = Inr (kv_pairs (db s))"
    unfolding snap using assms(1,2) by (intro snapshot_values_new) (auto simp: wf_tables_def)
  with InstallSnapshot.on_success [OF assms(4)]
  have f': "db f' = install_snapshot snap (kv_pairs (db s)) (db f)"
    by simp
  have "snapshot_row (db f') = snapshot_row (upsert_snapshot snap (db f))"
       "snapshot_row (db s') = snapshot_row (upsert_snapshot snap (db f))"
    by (auto simp: f' s' snap install_snapshot_def create_snapshot_def set_snapshot_meta_def upsert_snapshot_def)
  then have "load_snapshot (db f') = snap" "load_snapshot (db s') = snap"
    by (auto simp: load_snapshot_def upsert_snapshot_def)
  moreover have "snap_pos (db f') = Inr (index, t)" "snap_pos (db s') = Inr (index, t)"
    by (auto simp: f' s' snap_pos_install create_snapshot_def snap_pos_set) (auto simp: snap new_snapshot_def)
  moreover have "kv (db s') = kv (db s)"
    by (simp add: s' create_snapshot_def set_snapshot_meta_def)
  moreover have "meta_uint (db f') ''last_applied'' = Inr index"
    by (simp add: f' install_snapshot_def applied_set_snapshot) (simp add: snap new_snapshot_def)
  ultimately show ?thesis
    by (simp add: f')
qed

theorem snapshot_roundtrip_witness:
  "let s = snd (ApplySet 1 ''k'' ''v'' fresh_store) in
   \<exists>snap s' f'. CreateSnapshot 1 4 s = (Inr snap, s') \<and> InstallSnapshot snap fresh_store = (Inr (), f')
     \<and> kv_pairs (db f') = [(''k'', ''v'')] \<and> snap_pos (db f') = Inr (1, 4)"
proof -
  define s where "s = snd (ApplySet 1 ''k'' ''v'' fresh_store)"
  have s: "wf_tables (db s)" "healthy s" and pairs: "kv_pairs (db s) = [(''k'', ''v'')]"
    using ApplySet.when_healthy [OF healthy_fresh, of 1 "''k''" "''v''"] wf_fresh
    by (auto simp: s_def) (auto simp: kv_pairs_def apply_set_def fresh_store_def empty_tables_def)
  have v: "valid_pairs (kv_pairs (db s))"
    unfolding pairs by code_simp
  obtain snap s' where c: "CreateSnapshot 1 4 s = (Inr snap, s')"
    using CreateSnapshot.when_healthy [OF s(2), of 1 4] by auto
  have "snapshot_values snap = Inr (kv_pairs (db s))"
    using CreateSnapshot.on_success [OF c] s(1) v by (auto simp: snapshot_values_new wf_tables_def)
  then obtain f' where f: "InstallSnapshot snap fresh_store = (Inr (), f')"
    using InstallSnapshot.when_healthy [OF healthy_fresh, of snap] by auto
  from snapshot_roundtrip [OF s(1) v c f] c f pairs show ?thesis
    by (auto simp: s_def [symmetric])
qed

text \<open>
  After a successful \<open>DeleteFrom\<close> the log has lost exactly the entries at and above the index;
  the snapshot position, the key-value state and the term and vote are untouched.
\<close>

theorem DeleteFrom_truncates:
  assumes "wf_tables (db s)" and "ok_index k" and "DeleteFrom k s = (Inr (), s')"
  shows "(\<forall>i. log_entry (db s') i = (if k \<le> i then None else log_entry (db s) i))
    \<and> snap_pos (db s') = snap_pos (db s) \<and> kv (db s') = kv (db s) \<and> term_vote (db s') = term_vote (db s)"
proof -
  have T: "db s' = delete_log_from k (db s)"
    using DeleteFrom.on_success [OF assms(3)] by simp
  then show ?thesis
    using assms(1,2) snap_pos_cong [of "db s'" "db s"] term_vote_cong [of "db s'" "db s"]
    by (simp add: log_entry_delete_from wf_tables_log)
qed

theorem DeleteFrom_truncates_witness:
  "\<exists>s s'. DeleteFrom 1 s = (Inr (), s') \<and> log_entry (db s) 1 = Some (4, ''x'') \<and> log_entry (db s') 1 = None"
proof -
  let ?e = "\<lparr>entryIndex = 1, entryTerm = 4, entryCommand = ''x''\<rparr>"
  obtain s where s: "AppendEntries [?e] fresh_store = (Inr (), s)" "healthy s"
    using AppendEntries.when_healthy [OF healthy_fresh, of "[?e]"] by auto
  have T: "db s = append_entries [?e] (db fresh_store)"
    using AppendEntries.on_success [OF s(1)] by simp
  have ok: "ok_index 1"
    by (simp add: ok_index_def)
  have wf: "wf_tables (db s)"
    unfolding T by (rule wf_append_entries) (simp_all add: wf_fresh ok)
  obtain s' where s': "DeleteFrom 1 s = (Inr (), s')"
    using DeleteFrom.when_healthy [OF s(2), of 1] by auto
  with DeleteFrom_truncates [OF wf ok s'] show ?thesis
    by (intro exI [of _ s] exI [of _ s']) (simp add: T log_entry_append)
qed

text \<open>
  After a successful \<open>ApplySet\<close> the key has the new value, every other key its old one, and
  the applied index is that of the entry.
\<close>

theorem ApplySet_Get:
  assumes "ApplySet index key v s = (Inr (), s')"
  shows "(\<forall>k r s2. Get k s' = (Inr r, s2) \<longrightarrow> r = (if k = key then (v, True) else get_value k (db s)))
    \<and> (\<forall>a s2. LastApplied s' = (Inr a, s2) \<longrightarrow> a = index)"
proof -
  have "db s' = apply_set index key v (db s)"
    using ApplySet.on_success [OF assms] by simp
  then show ?thesis
    by (auto dest!: Get.on_success LastApplied.on_success simp: applied_apply_set)
      (auto simp: get_value_def apply_set_def table_simps)
qed

theorem ApplySet_Get_witness:
  "\<exists>s' s2 s3. ApplySet 1 ''k'' ''v'' fresh_store = (Inr (), s') \<and> Get ''k'' s' = (Inr (''v'', True), s2)
     \<and> LastApplied s' = (Inr 1, s3)"
proof -
  obtain s' where s': "ApplySet 1 ''k'' ''v'' fresh_store = (Inr (), s')" "healthy s'"
    and T: "db s' = apply_set 1 ''k'' ''v'' (db fresh_store)"
    using ApplySet.when_healthy [OF healthy_fresh, of 1 "''k''" "''v''"] by auto
  obtain r s2 s3 where "Get ''k'' s' = (Inr r, s2)" "LastApplied s' = (Inr 1, s3)"
    using Get.when_healthy [OF s'(2), of "''k''"] LastApplied.when_healthy [OF s'(2)]
    by (simp add: T applied_apply_set) blast
  with ApplySet_Get [OF s'(1)] s'(1) show ?thesis
    by (metis (full_types))
qed

end
