(* ===== verification/Wire.thy ===== *)
theory Wire
  imports Go_Strings
begin

text \<open>
  \<open>internal/wire\<close>: the messages of the two gRPC services with their getters, and the
  dial target of a peer address. A message travels as a pointer, so the getters take an
  \<open>option\<close>: on a nil pointer they return the zero value of the field.
\<close>

named_theorems getter_simps \<open>the getters of the messages\<close>

section \<open>Messages\<close>

record LogEntry =
  leIndex :: u64
  leTerm :: u64
  leCommand :: bytes

record RequestVoteRequest =
  rvTerm :: u64
  rvCandidateId :: bytes
  rvLastLogIndex :: u64
  rvLastLogTerm :: u64

record RequestVoteResponse =
  rvrTerm :: u64
  rvrVoteGranted :: bool

record AppendEntriesRequest =
  aeTerm :: u64
  aeLeaderId :: bytes
  aePrevLogIndex :: u64
  aePrevLogTerm :: u64
  aeEntries :: "LogEntry option list"
  aeLeaderCommit :: u64

record AppendEntriesResponse =
  aerTerm :: u64
  aerSuccess :: bool
  aerMatchIndex :: u64

record InstallSnapshotRequest =
  isTerm :: u64
  isLeaderId :: bytes
  isLastIncludedIndex :: u64
  isLastIncludedTerm :: u64
  isData :: bytes

record InstallSnapshotResponse =
  isrTerm :: u64

record ClientWriteRequest =
  cwKey :: bytes
  cwValue :: bytes

record ClientWriteResponse =
  cwrSuccess :: bool
  cwrLeaderId :: bytes
  cwrError :: bytes
  cwrIndex :: u64
  cwrTerm :: u64

record ClientReadRequest =
  crKey :: bytes

record ClientReadResponse =
  crrSuccess :: bool
  crrLeaderId :: bytes
  crrError :: bytes
  crrValue :: bytes

record PeerStatus =
  psId :: bytes
  psAddress :: bytes
  psMatchIndex :: u64
  psNextIndex :: u64

record StatusResponse =
  stId :: bytes
  stRole :: bytes
  stTerm :: u64
  stLeaderId :: bytes
  stCommitIndex :: u64
  stLastApplied :: u64
  stLastLogIndex :: u64
  stPeers :: "PeerStatus option list"

section \<open>Zero values and getters\<close>

definition LogEntry_Reset :: LogEntry where
  "LogEntry_Reset = \<lparr>leIndex = 0, leTerm = 0, leCommand = []\<rparr>"

definition LogEntry_GetIndex :: "LogEntry option \<Rightarrow> u64" where
  "LogEntry_GetIndex m = (case m of Some m \<Rightarrow> leIndex m | None \<Rightarrow> 0)"

definition LogEntry_GetTerm :: "LogEntry option \<Rightarrow> u64" where
  "LogEntry_GetTerm m = (case m of Some m \<Rightarrow> leTerm m | None \<Rightarrow> 0)"

definition LogEntry_GetCommand :: "LogEntry option \<Rightarrow> bytes" where
  "LogEntry_GetCommand m = (case m of Some m \<Rightarrow> leCommand m | None \<Rightarrow> [])"

definition RequestVoteRequest_Reset :: RequestVoteRequest where
  "RequestVoteRequest_Reset = \<lparr>rvTerm = 0, rvCandidateId = [], rvLastLogIndex = 0, rvLastLogTerm = 0\<rparr>"

definition RequestVoteRequest_GetTerm :: "RequestVoteRequest option \<Rightarrow> u64" where
  "RequestVoteRequest_GetTerm m = (case m of Some m \<Rightarrow> rvTerm m | None \<Rightarrow> 0)"

definition RequestVoteRequest_GetCandidateId :: "RequestVoteRequest option \<Rightarrow> bytes" where
  "RequestVoteRequest_GetCandidateId m = (case m of Some m \<Rightarrow> rvCandidateId m | None \<Rightarrow> [])"

definition RequestVoteRequest_GetLastLogIndex :: "RequestVoteRequest option \<Rightarrow> u64" where
  "RequestVoteRequest_GetLastLogIndex m = (case m of Some m \<Rightarrow> rvLastLogIndex m | None \<Rightarrow> 0)"

definition RequestVoteRequest_GetLastLogTerm :: "RequestVoteRequest option \<Rightarrow> u64" where
  "RequestVoteRequest_GetLastLogTerm m = (case m of Some m \<Rightarrow> rvLastLogTerm m | None \<Rightarrow> 0)"

definition RequestVoteResponse_Reset :: RequestVoteResponse where
  "RequestVoteResponse_Reset = \<lparr>rvrTerm = 0, rvrVoteGranted = False\<rparr>"

definition RequestVoteResponse_GetTerm :: "RequestVoteResponse option \<Rightarrow> u64" where
  "RequestVoteResponse_GetTerm m = (case m of Some m \<Rightarrow> rvrTerm m | None \<Rightarrow> 0)"

definition RequestVoteResponse_GetVoteGranted :: "RequestVoteResponse option \<Rightarrow> bool" where
  "RequestVoteResponse_GetVoteGranted m = (case m of Some m \<Rightarrow> rvrVoteGranted m | None \<Rightarrow> False)"

definition AppendEntriesRequest_Reset :: AppendEntriesRequest where
  "AppendEntriesRequest_Reset = \<lparr>aeTerm = 0, aeLeaderId = [], aePrevLogIndex = 0, aePrevLogTerm = 0, aeEntries = [], aeLeaderCommit = 0\<rparr>"

definition AppendEntriesRequest_GetTerm :: "AppendEntriesRequest option \<Rightarrow> u64" where
  "AppendEntriesRequest_GetTerm m = (case m of Some m \<Rightarrow> aeTerm m | None \<Rightarrow> 0)"

definition AppendEntriesRequest_GetLeaderId :: "AppendEntriesRequest option \<Rightarrow> bytes" where
  "AppendEntriesRequest_GetLeaderId m = (case m of Some m \<Rightarrow> aeLeaderId m | None \<Rightarrow> [])"

definition AppendEntriesRequest_GetPrevLogIndex :: "AppendEntriesRequest option \<Rightarrow> u64" where
  "AppendEntriesRequest_GetPrevLogIndex m = (case m of Some m \<Rightarrow> aePrevLogIndex m | None \<Rightarrow> 0)"

definition AppendEntriesRequest_GetPrevLogTerm :: "AppendEntriesRequest option \<Rightarrow> u64" where
  "AppendEntriesRequest_GetPrevLogTerm m = (case m of Some m \<Rightarrow> aePrevLogTerm m | None \<Rightarrow> 0)"

definition AppendEntriesRequest_GetEntries :: "AppendEntriesRequest option \<Rightarrow> LogEntry option list" where
  "AppendEntriesRequest_GetEntries m = (case m of Some m \<Rightarrow> aeEntries m | None \<Rightarrow> [])"

definition AppendEntriesRequest_GetLeaderCommit :: "AppendEntriesRequest option \<Rightarrow> u64" where
  "AppendEntriesRequest_GetLeaderCommit m = (case m of Some m \<Rightarrow> aeLeaderCommit m | None \<Rightarrow> 0)"

definition AppendEntriesResponse_Reset :: AppendEntriesResponse where
  "AppendEntriesResponse_Reset = \<lparr>aerTerm = 0, aerSuccess = False, aerMatchIndex = 0\<rparr>"

definition AppendEntriesResponse_GetTerm :: "AppendEntriesResponse option \<Rightarrow> u64" where
  "AppendEntriesResponse_GetTerm m = (case m of Some m \<Rightarrow> aerTerm m | None \<Rightarrow> 0)"

definition AppendEntriesResponse_GetSuccess :: "AppendEntriesResponse option \<Rightarrow> bool" where
  "AppendEntriesResponse_GetSuccess m = (case m of Some m \<Rightarrow> aerSuccess m | None \<Rightarrow> False)"

definition AppendEntriesResponse_GetMatchIndex :: "AppendEntriesResponse option \<Rightarrow> u64" where
  "AppendEntriesResponse_GetMatchIndex m = (case m of Some m \<Rightarrow> aerMatchIndex m | None \<Rightarrow> 0)"

definition InstallSnapshotRequest_Reset :: InstallSnapshotRequest where
  "InstallSnapshotRequest_Reset = \<lparr>isTerm = 0, isLeaderId = [], isLastIncludedIndex = 0, isLastIncludedTerm = 0, isData = []\<rparr>"

definition InstallSnapshotRequest_GetTerm :: "InstallSnapshotRequest option \<Rightarrow> u64" where
  "InstallSnapshotRequest_GetTerm m = (case m of Some m \<Rightarrow> isTerm m | None \<Rightarrow> 0)"

definition InstallSnapshotRequest_GetLeaderId :: "InstallSnapshotRequest option \<Rightarrow> bytes" where
  "InstallSnapshotRequest_GetLeaderId m = (case m of Some m \<Rightarrow> isLeaderId m | None \<Rightarrow> [])"

definition InstallSnapshotRequest_GetLastIncludedIndex :: "InstallSnapshotRequest option \<Rightarrow> u64" where
  "InstallSnapshotRequest_GetLastIncludedIndex m = (case m of Some m \<Rightarrow> isLastIncludedIndex m | None \<Rightarrow> 0)"

definition InstallSnapshotRequest_GetLastIncludedTerm :: "InstallSnapshotRequest option \<Rightarrow> u64" where
  "InstallSnapshotRequest_GetLastIncludedTerm m = (case m of Some m \<Rightarrow> isLastIncludedTerm m | None \<Rightarrow> 0)"

definition InstallSnapshotRequest_GetData :: "InstallSnapshotRequest option \<Rightarrow> bytes" where
  "InstallSnapshotRequest_GetData m = (case m of Some m \<Rightarrow> isData m | None \<Rightarrow> [])"

definition InstallSnapshotResponse_Reset :: InstallSnapshotResponse where
  "InstallSnapshotResponse_Reset = \<lparr>isrTerm = 0\<rparr>"

definition InstallSnapshotResponse_GetTerm :: "InstallSnapshotResponse option \<Rightarrow> u64" where
  "InstallSnapshotResponse_GetTerm m = (case m of Some m \<Rightarrow> isrTerm m | None \<Rightarrow> 0)"

definition ClientWriteRequest_Reset :: ClientWriteRequest where
  "ClientWriteRequest_Reset = \<lparr>cwKey = [], cwValue = []\<rparr>"

definition ClientWriteRequest_GetKey :: "ClientWriteRequest option \<Rightarrow> bytes" where
  "ClientWriteRequest_GetKey m = (case m of Some m \<Rightarrow> cwKey m | None \<Rightarrow> [])"

definition ClientWriteRequest_GetValue :: "ClientWriteRequest option \<Rightarrow> bytes" where
  "ClientWriteRequest_GetValue m = (case m of Some m \<Rightarrow> cwValue m | None \<Rightarrow> [])"

definition ClientWriteResponse_Reset :: ClientWriteResponse where
  "ClientWriteResponse_Reset = \<lparr>cwrSuccess = False, cwrLeaderId = [], cwrError = [], cwrIndex = 0, cwrTerm = 0\<rparr>"

definition ClientWriteResponse_GetSuccess :: "ClientWriteResponse option \<Rightarrow> bool" where
  "ClientWriteResponse_GetSuccess m = (case m of Some m \<Rightarrow> cwrSuccess m | None \<Rightarrow> False)"

definition ClientWriteResponse_GetLeaderId :: "ClientWriteResponse option \<Rightarrow> bytes" where
  "ClientWriteResponse_GetLeaderId m = (case m of Some m \<Rightarrow> cwrLeaderId m | None \<Rightarrow> [])"

definition ClientWriteResponse_GetError :: "ClientWriteResponse option \<Rightarrow> bytes" where
  "ClientWriteResponse_GetError m = (case m of Some m \<Rightarrow> cwrError m | None \<Rightarrow> [])"

definition ClientWriteResponse_GetIndex :: "ClientWriteResponse option \<Rightarrow> u64" where
  "ClientWriteResponse_GetIndex m = (case m of Some m \<Rightarrow> cwrIndex m | None \<Rightarrow> 0)"

definition ClientWriteResponse_GetTerm :: "ClientWriteResponse option \<Rightarrow> u64" where
  "ClientWriteResponse_GetTerm m = (case m of Some m \<Rightarrow> cwrTerm m | None \<Rightarrow> 0)"

definition ClientReadRequest_Reset :: ClientReadRequest where
  "ClientReadRequest_Reset = \<lparr>crKey = []\<rparr>"

definition ClientReadRequest_GetKey :: "ClientReadRequest option \<Rightarrow> bytes" where
  "ClientReadRequest_GetKey m = (case m of Some m \<Rightarrow> crKey m | None \<Rightarrow> [])"

definition ClientReadResponse_Reset :: ClientReadResponse where
  "ClientReadResponse_Reset = \<lparr>crrSuccess = False, crrLeaderId = [], crrError = [], crrValue = []\<rparr>"

definition ClientReadResponse_GetSuccess :: "ClientReadResponse option \<Rightarrow> bool" where
  "ClientReadResponse_GetSuccess m = (case m of Some m \<Rightarrow> crrSuccess m | None \<Rightarrow> False)"

definition ClientReadResponse_GetLeaderId :: "ClientReadResponse option \<Rightarrow> bytes" where
  "ClientReadResponse_GetLeaderId m = (case m of Some m \<Rightarrow> crrLeaderId m | None \<Rightarrow> [])"

definition ClientReadResponse_GetError :: "ClientReadResponse option \<Rightarrow> bytes" where
  "ClientReadResponse_GetError m = (case m of Some m \<Rightarrow> crrError m | None \<Rightarrow> [])"

definition ClientReadResponse_GetValue :: "ClientReadResponse option \<Rightarrow> bytes" where
  "ClientReadResponse_GetValue m = (case m of Some m \<Rightarrow> crrValue m | None \<Rightarrow> [])"

definition PeerStatus_Reset :: PeerStatus where
  "PeerStatus_Reset = \<lparr>psId = [], psAddress = [], psMatchIndex = 0, psNextIndex = 0\<rparr>"

definition PeerStatus_GetId :: "PeerStatus option \<Rightarrow> bytes" where
  "PeerStatus_GetId m = (case m of Some m \<Rightarrow> psId m | None \<Rightarrow> [])"

definition PeerStatus_GetAddress :: "PeerStatus option \<Rightarrow> bytes" where
  "PeerStatus_GetAddress m = (case m of Some m \<Rightarrow> psAddress m | None \<Rightarrow> [])"

definition PeerStatus_GetMatchIndex :: "PeerStatus option \<Rightarrow> u64" where
  "PeerStatus_GetMatchIndex m = (case m of Some m \<Rightarrow> psMatchIndex m | None \<Rightarrow> 0)"

definition PeerStatus_GetNextIndex :: "PeerStatus option \<Rightarrow> u64" where
  "PeerStatus_GetNextIndex m = (case m of Some m \<Rightarrow> psNextIndex m | None \<Rightarrow> 0)"

definition StatusResponse_Reset :: StatusResponse where
  "StatusResponse_Reset = \<lparr>stId = [], stRole = [], stTerm = 0, stLeaderId = [], stCommitIndex = 0, stLastApplied = 0, stLastLogIndex = 0, stPeers = []\<rparr>"

definition StatusResponse_GetId :: "StatusResponse option \<Rightarrow> bytes" where
  "StatusResponse_GetId m = (case m of Some m \<Rightarrow> stId m | None \<Rightarrow> [])"

definition StatusResponse_GetRole :: "StatusResponse option \<Rightarrow> bytes" where
  "StatusResponse_GetRole m = (case m of Some m \<Rightarrow> stRole m | None \<Rightarrow> [])"

definition StatusResponse_GetTerm :: "StatusResponse option \<Rightarrow> u64" where
  "StatusResponse_GetTerm m = (case m of Some m \<Rightarrow> stTerm m | None \<Rightarrow> 0)"

definition StatusResponse_GetLeaderId :: "StatusResponse option \<Rightarrow> bytes" where
  "StatusResponse_GetLeaderId m = (case m of Some m \<Rightarrow> stLeaderId m | None \<Rightarrow> [])"

definition StatusResponse_GetCommitIndex :: "StatusResponse option \<Rightarrow> u64" where
  "StatusResponse_GetCommitIndex m = (case m of Some m \<Rightarrow> stCommitIndex m | None \<Rightarrow> 0)"

definition StatusResponse_GetLastApplied :: "StatusResponse option \<Rightarrow> u64" where
  "StatusResponse_GetLastApplied m = (case m of Some m \<Rightarrow> stLastApplied m | None \<Rightarrow> 0)"

definition StatusResponse_GetLastLogIndex :: "StatusResponse option \<Rightarrow> u64" where
  "StatusResponse_GetLastLogIndex m = (case m of Some m \<Rightarrow> stLastLogIndex m | None \<Rightarrow> 0)"

definition StatusResponse_GetPeers :: "StatusResponse option \<Rightarrow> PeerStatus option list" where
  "StatusResponse_GetPeers m = (case m of Some m \<Rightarrow> stPeers m | None \<Rightarrow> [])"

lemma getters_Some [simp, getter_simps]:
  "LogEntry_GetIndex (Some mle) = leIndex mle"
  "LogEntry_GetTerm (Some mle) = leTerm mle"
  "LogEntry_GetCommand (Some mle) = leCommand mle"
  "RequestVoteRequest_GetTerm (Some mrv) = rvTerm mrv"
  "RequestVoteRequest_GetCandidateId (Some mrv) = rvCandidateId mrv"
  "RequestVoteRequest_GetLastLogIndex (Some mrv) = rvLastLogIndex mrv"
  "RequestVoteRequest_GetLastLogTerm (Some mrv) = rvLastLogTerm mrv"
  "RequestVoteResponse_GetTerm (Some mrvr) = rvrTerm mrvr"
  "RequestVoteResponse_GetVoteGranted (Some mrvr) = rvrVoteGranted mrvr"
  "AppendEntriesRequest_GetTerm (Some mae) = aeTerm mae"
  "AppendEntriesRequest_GetLeaderId (Some mae) = aeLeaderId mae"
  "AppendEntriesRequest_GetPrevLogIndex (Some mae) = aePrevLogIndex mae"
  "AppendEntriesRequest_GetPrevLogTerm (Some mae) = aePrevLogTerm mae"
  "AppendEntriesRequest_GetEntries (Some mae) = aeEntries mae"
  "AppendEntriesRequest_GetLeaderCommit (Some mae) = aeLeaderCommit mae"
  "AppendEntriesResponse_GetTerm (Some maer) = aerTerm maer"
  "AppendEntriesResponse_GetSuccess (Some maer) = aerSuccess maer"
  "AppendEntriesResponse_GetMatchIndex (Some maer) = aerMatchIndex maer"
  "InstallSnapshotRequest_GetTerm (Some mis) = isTerm mis"
  "InstallSnapshotRequest_GetLeaderId (Some mis) = isLeaderId mis"
  "InstallSnapshotRequest_GetLastIncludedIndex (Some mis) = isLastIncludedIndex mis"
  "InstallSnapshotRequest_GetLastIncludedTerm (Some mis) = isLastIncludedTerm mis"
  "InstallSnapshotRequest_GetData (Some mis) = isData mis"
  "InstallSnapshotResponse_GetTerm (Some misr) = isrTerm misr"
  "ClientWriteRequest_GetKey (Some mcw) = cwKey mcw"
  "ClientWriteRequest_GetValue (Some mcw) = cwValue mcw"
  "ClientWriteResponse_GetSuccess (Some mcwr) = cwrSuccess mcwr"
  "ClientWriteResponse_GetLeaderId (Some mcwr) = cwrLeaderId mcwr"
  "ClientWriteResponse_GetError (Some mcwr) = cwrError mcwr"
  "ClientWriteResponse_GetIndex (Some mcwr) = cwrIndex mcwr"
  "ClientWriteResponse_GetTerm (Some mcwr) = cwrTerm mcwr"
  "ClientReadRequest_GetKey (Some mcr) = crKey mcr"
  "ClientReadResponse_GetSuccess (Some mcrr) = crrSuccess mcrr"
  "ClientReadResponse_GetLeaderId (Some mcrr) = crrLeaderId mcrr"
  "ClientReadResponse_GetError (Some mcrr) = crrError mcrr"
  "ClientReadResponse_GetValue (Some mcrr) = crrValue mcrr"
  "PeerStatus_GetId (Some mps) = psId mps"
  "PeerStatus_GetAddress (Some mps) = psAddress mps"
  "PeerStatus_GetMatchIndex (Some mps) = psMatchIndex mps"
  "PeerStatus_GetNextIndex (Some mps) = psNextIndex mps"
  "StatusResponse_GetId (Some mst) = stId mst"
  "StatusResponse_GetRole (Some mst) = stRole mst"
  "StatusResponse_GetTerm (Some mst) = stTerm mst"
  "StatusResponse_GetLeaderId (Some mst) = stLeaderId mst"
  "StatusResponse_GetCommitIndex (Some mst) = stCommitIndex mst"
  "StatusResponse_GetLastApplied (Some mst) = stLastApplied mst"
  "StatusResponse_GetLastLogIndex (Some mst) = stLastLogIndex mst"
  "StatusResponse_GetPeers (Some mst) = stPeers mst"
  by (simp_all add: LogEntry_GetIndex_def
      LogEntry_GetTerm_def
      LogEntry_GetCommand_def
      RequestVoteRequest_GetTerm_def
      RequestVoteRequest_GetCandidateId_def
      RequestVoteRequest_GetLastLogIndex_def
      RequestVoteRequest_GetLastLogTerm_def
      RequestVoteResponse_GetTerm_def
      RequestVoteResponse_GetVoteGranted_def
      AppendEntriesRequest_GetTerm_def
      AppendEntriesRequest_GetLeaderId_def
      AppendEntriesRequest_GetPrevLogIndex_def
      AppendEntriesRequest_GetPrevLogTerm_def
      AppendEntriesRequest_GetEntries_def
      AppendEntriesRequest_GetLeaderCommit_def
      AppendEntriesResponse_GetTerm_def
      AppendEntriesResponse_GetSuccess_def
      AppendEntriesResponse_GetMatchIndex_def
      InstallSnapshotRequest_GetTerm_def
      InstallSnapshotRequest_GetLeaderId_def
      InstallSnapshotRequest_GetLastIncludedIndex_def
      InstallSnapshotRequest_GetLastIncludedTerm_def
      InstallSnapshotRequest_GetData_def
      InstallSnapshotResponse_GetTerm_def
      ClientWriteRequest_GetKey_def
      ClientWriteRequest_GetValue_def
      ClientWriteResponse_GetSuccess_def
      ClientWriteResponse_GetLeaderId_def
      ClientWriteResponse_GetError_def
      ClientWriteResponse_GetIndex_def
      ClientWriteResponse_GetTerm_def
      ClientReadRequest_GetKey_def
      ClientReadResponse_GetSuccess_def
      ClientReadResponse_GetLeaderId_def
      ClientReadResponse_GetError_def
      ClientReadResponse_GetValue_def
      PeerStatus_GetId_def
      PeerStatus_GetAddress_def
      PeerStatus_GetMatchIndex_def
      PeerStatus_GetNextIndex_def
      StatusResponse_GetId_def
      StatusResponse_GetRole_def
      StatusResponse_GetTerm_def
      StatusResponse_GetLeaderId_def
      StatusResponse_GetCommitIndex_def
      StatusResponse_GetLastApplied_def
      StatusResponse_GetLastLogIndex_def
      StatusResponse_GetPeers_def)

text \<open>A getter on a nil message reads the field of a message that was just reset.\<close>

lemma getters_None [simp, getter_simps]:
  "LogEntry_GetIndex None = leIndex LogEntry_Reset"
  "LogEntry_GetTerm None = leTerm LogEntry_Reset"
  "LogEntry_GetCommand None = leCommand LogEntry_Reset"
  "RequestVoteRequest_GetTerm None = rvTerm RequestVoteRequest_Reset"
  "RequestVoteRequest_GetCandidateId None = rvCandidateId RequestVoteRequest_Reset"
  "RequestVoteRequest_GetLastLogIndex None = rvLastLogIndex RequestVoteRequest_Reset"
  "RequestVoteRequest_GetLastLogTerm None = rvLastLogTerm RequestVoteRequest_Reset"
  "RequestVoteResponse_GetTerm None = rvrTerm RequestVoteResponse_Reset"
  "RequestVoteResponse_GetVoteGranted None = rvrVoteGranted RequestVoteResponse_Reset"
  "AppendEntriesRequest_GetTerm None = aeTerm AppendEntriesRequest_Reset"
  "AppendEntriesRequest_GetLeaderId None = aeLeaderId AppendEntriesRequest_Reset"
  "AppendEntriesRequest_GetPrevLogIndex None = aePrevLogIndex AppendEntriesRequest_Reset"
  "AppendEntriesRequest_GetPrevLogTerm None = aePrevLogTerm AppendEntriesRequest_Reset"
  "AppendEntriesRequest_GetEntries None = aeEntries AppendEntriesRequest_Reset"
  "AppendEntriesRequest_GetLeaderCommit None = aeLeaderCommit AppendEntriesRequest_Reset"
  "AppendEntriesResponse_GetTerm None = aerTerm AppendEntriesResponse_Reset"
  "AppendEntriesResponse_GetSuccess None = aerSuccess AppendEntriesResponse_Reset"
  "AppendEntriesResponse_GetMatchIndex None = aerMatchIndex AppendEntriesResponse_Reset"
  "InstallSnapshotRequest_GetTerm None = isTerm InstallSnapshotRequest_Reset"
  "InstallSnapshotRequest_GetLeaderId None = isLeaderId InstallSnapshotRequest_Reset"
  "InstallSnapshotRequest_GetLastIncludedIndex None = isLastIncludedIndex InstallSnapshotRequest_Reset"
  "InstallSnapshotRequest_GetLastIncludedTerm None = isLastIncludedTerm InstallSnapshotRequest_Reset"
  "InstallSnapshotRequest_GetData None = isData InstallSnapshotRequest_Reset"
  "InstallSnapshotResponse_GetTerm None = isrTerm InstallSnapshotResponse_Reset"
  "ClientWriteRequest_GetKey None = cwKey ClientWriteRequest_Reset"
  "ClientWriteRequest_GetValue None = cwValue ClientWriteRequest_Reset"
  "ClientWriteResponse_GetSuccess None = cwrSuccess ClientWriteResponse_Reset"
  "ClientWriteResponse_GetLeaderId None = cwrLeaderId ClientWriteResponse_Reset"
  "ClientWriteResponse_GetError None = cwrError ClientWriteResponse_Reset"
  "ClientWriteResponse_GetIndex None = cwrIndex ClientWriteResponse_Reset"
  "ClientWriteResponse_GetTerm None = cwrTerm ClientWriteResponse_Reset"
  "ClientReadRequest_GetKey None = crKey ClientReadRequest_Reset"
  "ClientReadResponse_GetSuccess None = crrSuccess ClientReadResponse_Reset"
  "ClientReadResponse_GetLeaderId None = crrLeaderId ClientReadResponse_Reset"
  "ClientReadResponse_GetError None = crrError ClientReadResponse_Reset"
  "ClientReadResponse_GetValue None = crrValue ClientReadResponse_Reset"
  "PeerStatus_GetId None = psId PeerStatus_Reset"
  "PeerStatus_GetAddress None = psAddress PeerStatus_Reset"
  "PeerStatus_GetMatchIndex None = psMatchIndex PeerStatus_Reset"
  "PeerStatus_GetNextIndex None = psNextIndex PeerStatus_Reset"
  "StatusResponse_GetId None = stId StatusResponse_Reset"
  "StatusResponse_GetRole None = stRole StatusResponse_Reset"
  "StatusResponse_GetTerm None = stTerm StatusResponse_Reset"
  "StatusResponse_GetLeaderId None = stLeaderId StatusResponse_Reset"
  "StatusResponse_GetCommitIndex None = stCommitIndex StatusResponse_Reset"
  "StatusResponse_GetLastApplied None = stLastApplied StatusResponse_Reset"
  "StatusResponse_GetLastLogIndex None = stLastLogIndex StatusResponse_Reset"
  "StatusResponse_GetPeers None = stPeers StatusResponse_Reset"
  by (simp_all add: LogEntry_GetIndex_def
      LogEntry_GetTerm_def
      LogEntry_GetCommand_def
      RequestVoteRequest_GetTerm_def
      RequestVoteRequest_GetCandidateId_def
      RequestVoteRequest_GetLastLogIndex_def
      RequestVoteRequest_GetLastLogTerm_def
      RequestVoteResponse_GetTerm_def
      RequestVoteResponse_GetVoteGranted_def
      AppendEntriesRequest_GetTerm_def
      AppendEntriesRequest_GetLeaderId_def
      AppendEntriesRequest_GetPrevLogIndex_def
      AppendEntriesRequest_GetPrevLogTerm_def
      AppendEntriesRequest_GetEntries_def
      AppendEntriesRequest_GetLeaderCommit_def
      AppendEntriesResponse_GetTerm_def
      AppendEntriesResponse_GetSuccess_def
      AppendEntriesResponse_GetMatchIndex_def
      InstallSnapshotRequest_GetTerm_def
      InstallSnapshotRequest_GetLeaderId_def
      InstallSnapshotRequest_GetLastIncludedIndex_def
      InstallSnapshotRequest_GetLastIncludedTerm_def
      InstallSnapshotRequest_GetData_def
      InstallSnapshotResponse_GetTerm_def
      ClientWriteRequest_GetKey_def
      ClientWriteRequest_GetValue_def
      ClientWriteResponse_GetSuccess_def
      ClientWriteResponse_GetLeaderId_def
      ClientWriteResponse_GetError_def
      ClientWriteResponse_GetIndex_def
      ClientWriteResponse_GetTerm_def
      ClientReadRequest_GetKey_def
      ClientReadResponse_GetSuccess_def
      ClientReadResponse_GetLeaderId_def
      ClientReadResponse_GetError_def
      ClientReadResponse_GetValue_def
      PeerStatus_GetId_def
      PeerStatus_GetAddress_def
      PeerStatus_GetMatchIndex_def
      PeerStatus_GetNextIndex_def
      StatusResponse_GetId_def
      StatusResponse_GetRole_def
      StatusResponse_GetTerm_def
      StatusResponse_GetLeaderId_def
      StatusResponse_GetCommitIndex_def
      StatusResponse_GetLastApplied_def
      StatusResponse_GetLastLogIndex_def
      StatusResponse_GetPeers_def
      AppendEntriesRequest_Reset_def AppendEntriesResponse_Reset_def ClientReadRequest_Reset_def ClientReadResponse_Reset_def ClientWriteRequest_Reset_def ClientWriteResponse_Reset_def InstallSnapshotRequest_Reset_def InstallSnapshotResponse_Reset_def LogEntry_Reset_def PeerStatus_Reset_def RequestVoteRequest_Reset_def RequestVoteResponse_Reset_def StatusResponse_Reset_def)

section \<open>Dial targets\<close>

definition DialTarget :: "bytes \<Rightarrow> bytes" where
  "DialTarget address =
     (if contains address ''://'' then address else ''passthrough:///'' @ address)"

text \<open>Every target names a scheme, so dialling it again is the same target.\<close>

lemma DialTarget_has_scheme: "contains (DialTarget address) ''://''"
proof (cases "contains address ''://''")
  case False
  have "''passthrough:///'' @ address = ''passthrough'' @ ''://'' @ (CHR ''/'' # address)"
    by simp
  then show ?thesis
    using False unfolding DialTarget_def contains_iff by metis
qed (simp add: DialTarget_def)

lemma DialTarget_idem: "DialTarget (DialTarget address) = DialTarget address"
  using DialTarget_has_scheme [of address] by (simp add: DialTarget_def [of "DialTarget address"])

end
