(* ===== verification/Metrics.thy ===== *)
theory Metrics
  imports Go_Json
begin

text \<open>
  \<open>internal/metrics/metrics.go\<close>: the counters and gauges of a node and their Prometheus
  text exposition. The mutex makes every method one step, so each is a function on the
  record. Reading \<open>parts[1]\<close> of a key without a bar would panic: \<open>ServeHTTP\<close> is \<open>None\<close> there.
\<close>

section \<open>State and operations\<close>

record Metrics =
  mNodeID :: bytes
  mRole :: bytes
  mTerm :: u64
  mCommitIndex :: u64
  mLastApplied :: u64
  mLastLogIndex :: u64
  mElections :: u64
  mRpcs :: "(bytes \<times> u64) list"
  mLag :: "(bytes \<times> u64) list"

definition metrics_New :: "bytes \<Rightarrow> Metrics" where
  "metrics_New nodeID =
     \<lparr>mNodeID = nodeID, mRole = ''follower'', mTerm = 0, mCommitIndex = 0, mLastApplied = 0,
      mLastLogIndex = 0, mElections = 0, mRpcs = [], mLag = []\<rparr>"

definition SetState :: "bytes \<Rightarrow> u64 \<Rightarrow> u64 \<Rightarrow> u64 \<Rightarrow> u64 \<Rightarrow> Metrics \<Rightarrow> Metrics" where
  "SetState role term commitIndex lastApplied lastLogIndex m =
     m\<lparr>mRole := role, mTerm := term, mCommitIndex := commitIndex, mLastApplied := lastApplied,
       mLastLogIndex := lastLogIndex\<rparr>"

definition IncElection :: "Metrics \<Rightarrow> Metrics" where
  "IncElection m = m\<lparr>mElections := mElections m + 1\<rparr>"

text \<open>Reading a missing key of a Go map gives the zero value.\<close>

definition map_get :: "(bytes \<times> u64) list \<Rightarrow> bytes \<Rightarrow> u64" where
  "map_get t key = (case map_of t key of None \<Rightarrow> 0 | Some v \<Rightarrow> v)"

definition IncRPC :: "bytes \<Rightarrow> bytes \<Rightarrow> Metrics \<Rightarrow> Metrics" where
  "IncRPC method res m =
     (let key = method @ ''|'' @ res in m\<lparr>mRpcs := upsert key (map_get (mRpcs m) key + 1) (mRpcs m)\<rparr>)"

definition SetReplicationLag :: "bytes \<Rightarrow> u64 \<Rightarrow> Metrics \<Rightarrow> Metrics" where
  "SetReplicationLag peerID lag m = m\<lparr>mLag := upsert peerID lag (mLag m)\<rparr>"

section \<open>Exposition\<close>

definition nl :: char where
  "nl = char_of (10::nat)"

definition escapeLabel :: "bytes \<Rightarrow> bytes" where
  "escapeLabel v =
     replace_byte quote [bslash, quote]
       (replace_byte nl [bslash, CHR ''n'']
         (replace_byte bslash [bslash, bslash] v))"

definition quoted :: "bytes \<Rightarrow> bytes" where
  "quoted v = quote # escapeLabel v @ [quote]"

definition help_lines :: "bytes \<Rightarrow> bytes \<Rightarrow> bytes \<Rightarrow> bytes" where
  "help_lines name help kind =
     ''# HELP '' @ name @ '' '' @ help @ [nl] @ ''# TYPE '' @ name @ '' '' @ kind @ [nl]"

definition sample :: "bytes \<Rightarrow> bytes \<Rightarrow> u64 \<Rightarrow> bytes" where
  "sample name labels v = name @ ''{'' @ labels @ ''} '' @ FormatUint v @ [nl]"

fun rpc_samples :: "bytes \<Rightarrow> (bytes \<times> u64) list \<Rightarrow> bytes list \<Rightarrow> bytes option" where
  "rpc_samples labels rpcs [] = Some []"
| "rpc_samples labels rpcs (key # keys) =
     (case split_first CHR ''|'' key of
        [p0, p1] \<Rightarrow>
          map_option
            (\<lambda>rest. sample ''raft_rpc_total''
               (labels @ '',method='' @ quoted p0 @ '',result='' @ quoted p1) (map_get rpcs key) @ rest)
            (rpc_samples labels rpcs keys)
      | _ \<Rightarrow> None)"

definition lag_samples :: "bytes \<Rightarrow> (bytes \<times> u64) list \<Rightarrow> bytes list \<Rightarrow> bytes" where
  "lag_samples labels lag peers =
     concat (map (\<lambda>peer. sample ''raft_replication_lag_entries''
       (labels @ '',peer_id='' @ quoted peer) (map_get lag peer)) peers)"

definition ServeHTTP :: "Metrics \<Rightarrow> bytes option" where
  "ServeHTTP m =
     (let labels = ''node_id='' @ quoted (mNodeID m);
          leader = (if mRole m = ''leader'' then 1 else 0) in
      map_option
        (\<lambda>rpcs.
          help_lines ''raft_node_up'' ''Node liveness marker.'' ''gauge''
          @ sample ''raft_node_up'' labels 1
          @ help_lines ''raft_is_leader'' ''Whether this node currently believes it is leader.'' ''gauge''
          @ sample ''raft_is_leader'' labels leader
          @ help_lines ''raft_current_term'' ''Current Raft term.'' ''gauge''
          @ sample ''raft_current_term'' labels (mTerm m)
          @ help_lines ''raft_commit_index'' ''Highest committed log index.'' ''gauge''
          @ sample ''raft_commit_index'' labels (mCommitIndex m)
          @ help_lines ''raft_last_applied'' ''Highest state-machine-applied log index.'' ''gauge''
          @ sample ''raft_last_applied'' labels (mLastApplied m)
          @ help_lines ''raft_last_log_index'' ''Highest local log index.'' ''gauge''
          @ sample ''raft_last_log_index'' labels (mLastLogIndex m)
          @ help_lines ''raft_elections_total'' ''Elections started by this node.'' ''counter''
          @ sample ''raft_elections_total'' labels (mElections m)
          @ help_lines ''raft_rpc_total'' ''Consensus RPCs handled by method and result.'' ''counter''
          @ rpcs
          @ help_lines ''raft_replication_lag_entries'' ''Leader-side lag by peer.'' ''gauge''
          @ lag_samples labels (mLag m) (sort (map fst (mLag m))))
        (rpc_samples labels (mRpcs m) (sort (map fst (mRpcs m)))))"

section \<open>Properties\<close>

text \<open>Keys of the RPC counters always carry a bar, so the exposition never panics.\<close>

definition metrics_ok :: "Metrics \<Rightarrow> bool" where
  "metrics_ok m \<longleftrightarrow> (\<forall>key \<in> fst ` set (mRpcs m). CHR ''|'' \<in> set key)"

lemma metrics_ok_ops [simp]:
  "metrics_ok (metrics_New nodeID)"
  "metrics_ok m \<Longrightarrow> metrics_ok (SetState role term ci la lli m)"
  "metrics_ok m \<Longrightarrow> metrics_ok (IncElection m)"
  "metrics_ok m \<Longrightarrow> metrics_ok (IncRPC method res m)"
  "metrics_ok m \<Longrightarrow> metrics_ok (SetReplicationLag peerID lag m)"
  by (simp_all add: metrics_ok_def metrics_New_def SetState_def IncElection_def IncRPC_def
      SetReplicationLag_def Let_def keys_upsert)

lemma rpc_samples_defined:
  "(\<And>key. key \<in> set keys \<Longrightarrow> CHR ''|'' \<in> set key) \<Longrightarrow> \<exists>t. rpc_samples labels rpcs keys = Some t"
  by (induction keys) (auto simp: split_first_eq)

lemma ServeHTTP_defined: "metrics_ok m \<Longrightarrow> \<exists>t. ServeHTTP m = Some t"
  using rpc_samples_defined [of "sort (map fst (mRpcs m))" "''node_id='' @ quoted (mNodeID m)" "mRpcs m"]
  unfolding ServeHTTP_def Let_def metrics_ok_def by fastforce

text \<open>Reading an escaped label back: what a Prometheus scraper does.\<close>

fun unescape_label :: "bytes \<Rightarrow> bytes" where
  "unescape_label [] = []"
| "unescape_label [c] = [c]"
| "unescape_label (c # d # s) =
     (if c = bslash then (if d = CHR ''n'' then nl else d) # unescape_label s
      else c # unescape_label (d # s))"

definition escape_byte :: "char \<Rightarrow> bytes" where
  "escape_byte c =
     (if c = bslash then [bslash, bslash] else if c = nl then [bslash, CHR ''n'']
      else if c = quote then [bslash, quote] else [c])"

lemma nl_neq [simp]: "nl \<noteq> bslash" "bslash \<noteq> nl" "nl \<noteq> quote" "quote \<noteq> nl"
    "nl \<noteq> CHR ''n''" "CHR ''n'' \<noteq> quote" "bslash \<noteq> CHR ''n''" "quote \<noteq> CHR ''n''" "CHR ''n'' \<noteq> bslash" "CHR ''n'' \<noteq> nl"
  by (auto simp: nl_def bslash_def quote_def dest: arg_cong [where f = "of_char :: char \<Rightarrow> nat"])

lemma escapeLabel_bytes: "escapeLabel v = concat (map escape_byte v)"
  unfolding escapeLabel_def replace_byte_def
  by (induction v) (auto simp: escape_byte_def)

lemma unescape_Cons: "c \<noteq> bslash \<Longrightarrow> unescape_label (c # s) = c # unescape_label s"
  by (cases s) auto

lemma unescape_escape_append: "unescape_label (concat (map escape_byte v) @ s) = v @ unescape_label s"
  by (induction v) (auto simp: escape_byte_def unescape_Cons)

lemma unescape_escapeLabel: "unescape_label (escapeLabel v) = v"
  using unescape_escape_append [of v "[]"] by (simp add: escapeLabel_bytes)

lemma escapeLabel_no_newline: "nl \<notin> set (escapeLabel v)"
  by (auto simp: escapeLabel_bytes escape_byte_def split: if_splits)


text \<open>
  A label value survives the exposition: it is written on one line, a quote in it cannot end
  the label early, and a scraper that undoes the escapes reads the value back. The exposition
  itself is defined for every state of the counters.
\<close>

theorem exposition_labels:
  assumes "metrics_ok m"
  shows "unescape_label (escapeLabel v) = v \<and> nl \<notin> set (escapeLabel v)
    \<and> (\<forall>a b. escapeLabel v = a @ quote # b \<longrightarrow> a \<noteq> [] \<and> last a = bslash)
    \<and> (\<exists>t. ServeHTTP m = Some t)"
proof (intro conjI allI impI)
  fix a b
  assume "escapeLabel v = a @ quote # b"
  then have "a \<noteq> [] \<and> last a = bslash"
    unfolding escapeLabel_bytes
  proof (induction v arbitrary: a)
    case (Cons c v)
    then show ?case
      by (cases a rule: list.exhaust; cases "tl a" rule: list.exhaust) (auto simp: escape_byte_def split: if_splits)
  qed simp
  then show "a \<noteq> []" "last a = bslash"
    by simp_all
qed (simp_all add: unescape_escapeLabel escapeLabel_no_newline ServeHTTP_defined [OF assms])

theorem exposition_labels_witness:
  "unescape_label (escapeLabel [quote, nl, bslash]) = [quote, nl, bslash] \<and> (\<exists>t. ServeHTTP (IncRPC ''Read'' ''ok'' (metrics_New ''n1'')) = Some t)"
  using exposition_labels [of "IncRPC ''Read'' ''ok'' (metrics_New ''n1'')" "[quote, nl, bslash]"] by simp

end
