(* ===== verification/Raft_Types.thy ===== *)
theory Raft_Types
  imports Config Storage_Spec Wire Metrics
begin

text \<open>
  \<open>internal/raft/types.go\<close>: roles, peers, options and the commands of the log, with their
  JSON encoding; and the order in which two logs are compared when a vote is asked for.
\<close>

section \<open>Roles, peers, options\<close>

datatype Role = RoleFollower | RoleCandidate | RoleLeader

primrec role_string :: "Role \<Rightarrow> bytes" where
  "role_string RoleFollower = ''follower''"
| "role_string RoleCandidate = ''candidate''"
| "role_string RoleLeader = ''leader''"

record Peer =
  peerID :: bytes
  peerAddress :: bytes

record Options =
  optNodeID :: bytes
  optGRPCAddr :: bytes
  optHTTPAddr :: bytes
  optDataDir :: bytes
  optPeers :: "Peer list"
  optElectionMin :: int
  optElectionMax :: int
  optHeartbeatInterval :: int
  optSnapshotThreshold :: u64

definition OptionsFromConfig :: "Config \<Rightarrow> Options" where
  "OptionsFromConfig cfg =
     \<lparr>optNodeID = cfgNodeID cfg, optGRPCAddr = cfgGRPCAddr cfg, optHTTPAddr = cfgHTTPAddr cfg,
      optDataDir = cfgDataDir cfg,
      optPeers = map (\<lambda>p. \<lparr>peerID = cfgPeerID p, peerAddress = cfgPeerAddress p\<rparr>) (cfgPeers cfg),
      optElectionMin = cfgElectionMin cfg, optElectionMax = cfgElectionMax cfg,
      optHeartbeatInterval = cfgHeartbeatInterval cfg,
      optSnapshotThreshold = cfgSnapshotThreshold cfg\<rparr>"

section \<open>Commands\<close>

record command =
  cmdOp :: bytes
  cmdKey :: bytes
  cmdValue :: bytes

definition encodeSetCommand :: "bytes \<Rightarrow> bytes \<Rightarrow> bytes" where
  "encodeSetCommand key v = marshal_object [(''op'', ''set''), (''key'', key), (''value'', v)]"

definition decodeCommand :: "bytes \<Rightarrow> command result" where
  "decodeCommand raw =
     (case unmarshal_struct [''op'', ''key'', ''value''] raw of
        Inl err \<Rightarrow> Inl err
      | Inr st \<Rightarrow>
          if st ''op'' \<noteq> ''set'' then Inl UnsupportedCommand
          else Inr \<lparr>cmdOp = st ''op'', cmdKey = st ''key'', cmdValue = st ''value''\<rparr>)"

lemma valid_utf8_ascii: "list_all (\<lambda>c. (of_char c :: nat) < 128) s \<Longrightarrow> valid_utf8 s"
  by (induction s) (simp_all add: valid_utf8.simps utf8_len_ascii)

lemma decode_encode_set:
  assumes "valid_utf8 key" and "valid_utf8 v"
  shows "decodeCommand (encodeSetCommand key v) = Inr \<lparr>cmdOp = ''set'', cmdKey = key, cmdValue = v\<rparr>"
proof -
  have "valid_utf8 ''op''" "valid_utf8 ''set''" "valid_utf8 ''key''" "valid_utf8 ''value''"
    by (auto intro!: valid_utf8_ascii)
  then have "valid_pairs [(''op'', ''set''), (''key'', key), (''value'', v)]"
    using assms by (simp add: valid_pairs_def)
  then have "parse_json (encodeSetCommand key v) =
      Some (JObj [(''op'', JStr ''set''), (''key'', JStr key), (''value'', JStr v)])"
    unfolding encodeSetCommand_def by (simp add: parse_json_marshal_object string_members_def)
  then show ?thesis
    by (simp add: decodeCommand_def unmarshal_struct_def match_field_def)
qed

lemma decodeCommand_set: "decodeCommand raw = Inr cmd \<Longrightarrow> cmdOp cmd = ''set''"
  by (auto simp: decodeCommand_def split: sum.splits if_splits)

section \<open>The order of logs\<close>

text \<open>
  The position of the last entry of a log. Two positions are compared by term first, then
  by index: the linear order behind the up-to-date check of \<open>RequestVote\<close>.
\<close>

datatype log_position = LogPosition (posTerm: u64) (posIndex: u64)

instantiation log_position :: linorder
begin

definition less_eq_log_position :: "log_position \<Rightarrow> log_position \<Rightarrow> bool" where
  "less_eq_log_position a b \<longleftrightarrow>
     posTerm a < posTerm b \<or> posTerm a = posTerm b \<and> posIndex a \<le> posIndex b"

definition less_log_position :: "log_position \<Rightarrow> log_position \<Rightarrow> bool" where
  "less_log_position a b \<longleftrightarrow>
     posTerm a < posTerm b \<or> posTerm a = posTerm b \<and> posIndex a < posIndex b"

instance
  by standard
    (auto simp: less_eq_log_position_def less_log_position_def intro: log_position.expand)

end

lemma less_eq_log_position_iff:
  "LogPosition t i \<le> LogPosition t' i' \<longleftrightarrow> t < t' \<or> t = t' \<and> i \<le> i'"
  by (simp add: less_eq_log_position_def)

end
