(* ===== verification/Raft_Node.thy ===== *)
theory Raft_Node
  imports Raft_Types
begin

text \<open>
  \<open>internal/raft/node.go\<close>: the state of a node and the code that runs under its mutex. Each
  critical section is one function on the record \<open>Node\<close>; a function of the source that
  releases the lock around an RPC is split at those points (\<open>startElection\<close>,
  \<open>replicatePeer\<close>). The environment of a node is part of the record: the fault script of its
  database, the readings of the clock and of the random source still to come, and the
  goroutines it has started. Log output changes no state and is left out.
\<close>

section \<open>The node\<close>

datatype goroutine = ReplicateAllOnce | StartElection

record Node =
  nid :: bytes
  grpcAddr :: bytes
  httpAddr :: bytes
  peers :: "Peer list"
  store :: Store
  metrics :: Metrics
  role :: Role
  currentTerm :: u64
  votedFor :: bytes
  leaderID :: bytes
  commitIndex :: u64
  lastApplied :: u64
  nextIndex :: "bytes \<Rightarrow> u64"
  matchIndex :: "bytes \<Rightarrow> u64"
  electionMin :: int
  electionMax :: int
  heartbeatInterval :: int
  snapshotThreshold :: u64
  electionDeadline :: int
  clients :: "bytes list"
  clock :: "int list"
  rands :: "int list"
  spawned :: "goroutine list"

text \<open>
  The maps \<open>nextIndex\<close> and \<open>matchIndex\<close> are only read and written by key, and a missing key
  reads as 0: total functions. \<open>clients\<close> are the ids of the peers with an open connection
  (the key set of the maps \<open>conns\<close>, \<open>clients\<close> and \<open>apiClients\<close>).
\<close>

definition defaultElectionMin :: int where
  "defaultElectionMin = 500 * Millisecond"

definition defaultElectionMax :: int where
  "defaultElectionMax = 900 * Millisecond"

definition defaultHeartbeatInterval :: int where
  "defaultHeartbeatInterval = 100 * Millisecond"

definition appendBatchSize :: int where
  "appendBatchSize = 128"

definition on_store :: "(Store, 'a) action \<Rightarrow> (Node, 'a) action" where
  "on_store m n = (case m (store n) of (r, s') \<Rightarrow> (r, n\<lparr>store := s'\<rparr>))"

definition time_Now :: "Node \<Rightarrow> int \<times> Node" where
  "time_Now n = (case clock n of [] \<Rightarrow> (0, n) | t # ts \<Rightarrow> (t, n\<lparr>clock := ts\<rparr>))"

definition rand_Int63n :: "int \<Rightarrow> Node \<Rightarrow> int \<times> Node" where
  "rand_Int63n k n = (case rands n of [] \<Rightarrow> (0, n) | r # rs \<Rightarrow> (r mod k, n\<lparr>rands := rs\<rparr>))"

definition minUint64 :: "u64 \<Rightarrow> u64 \<Rightarrow> u64" where
  "minUint64 a b = (if a < b then a else b)"

definition maxUint64 :: "u64 \<Rightarrow> u64 \<Rightarrow> u64" where
  "maxUint64 a b = (if a > b then a else b)"

definition wrapInternal :: "error \<Rightarrow> error" where
  "wrapInternal err = InternalRaftError err"

definition newNotLeaderResponse :: "bytes \<Rightarrow> ClientWriteResponse" where
  "newNotLeaderResponse leader =
     \<lparr>cwrSuccess = False, cwrLeaderId = leader, cwrError = ''not leader'', cwrIndex = 0, cwrTerm = 0\<rparr>"

section \<open>Helpers under the lock\<close>

definition resetElectionDeadlineLocked :: "Node \<Rightarrow> Node" where
  "resetElectionDeadlineLocked n =
     (let window = wrap64 (electionMax n - electionMin n) in
      case (if 0 < window then rand_Int63n window n else (0, n)) of (jitter, n1) \<Rightarrow>
      case time_Now n1 of (now, n2) \<Rightarrow>
      n2\<lparr>electionDeadline := now + wrap64 (electionMin n + jitter)\<rparr>)"

definition majorityLocked :: "Node \<Rightarrow> int" where
  "majorityLocked n = (int (length (peers n)) + 1) div 2 + 1"

definition refreshMetricsLocked :: "Node \<Rightarrow> Node" where
  "refreshMetricsLocked n =
     (case on_store LastIndexAndTerm n of (r, n1) \<Rightarrow>
      let lastIndex = (case r of Inl _ \<Rightarrow> 0 | Inr (i, _) \<Rightarrow> i) in
      n1\<lparr>metrics := SetState (role_string (role n1)) (currentTerm n1) (commitIndex n1) (lastApplied n1)
            lastIndex (metrics n1)\<rparr>)"

definition stepDownLocked :: "u64 \<Rightarrow> bytes \<Rightarrow> Node \<Rightarrow> Node" where
  "stepDownLocked term leader n =
     (let n1 = (if term > currentTerm n
                then snd (on_store (SaveTermVote term []) (n\<lparr>currentTerm := term, votedFor := []\<rparr>))
                else n) in
      refreshMetricsLocked (resetElectionDeadlineLocked (n1\<lparr>role := RoleFollower, leaderID := leader\<rparr>)))"

section \<open>Starting a node\<close>

text \<open>
  \<open>New\<close> on the files \<open>T\<close> of the data directory, with the environment the node will see. The
  second component is the state of the files afterwards.
\<close>

definition New :: "Options \<Rightarrow> (bytes \<times> bytes) list \<Rightarrow> tables \<Rightarrow> bool list \<Rightarrow> int list \<Rightarrow> int list
    \<Rightarrow> Node result \<times> tables" where
  "New opts order T script clk rnd =
     (if optNodeID opts = [] then (Inl (OptionRequired ''node id''), T)
      else if optGRPCAddr opts = [] then (Inl (OptionRequired ''gRPC address''), T)
      else if optDataDir opts = [] then (Inl (OptionRequired ''data dir''), T)
      else case Open order T script of
          (Inl err, T') \<Rightarrow> (Inl err, T')
        | (Inr s, T') \<Rightarrow>
            (case CurrentTermVote s of
               (Inl err, s1) \<Rightarrow> (Inl err, db (snd (Close s1)))
             | (Inr (term, voted), s1) \<Rightarrow>
                 (case LastApplied s1 of
                    (Inl err, s2) \<Rightarrow> (Inl err, db (snd (Close s2)))
                  | (Inr applied, s2) \<Rightarrow>
                      let n = \<lparr>nid = optNodeID opts, grpcAddr = optGRPCAddr opts, httpAddr = optHTTPAddr opts,
                          peers = optPeers opts, store = s2, metrics = metrics_New (optNodeID opts),
                          role = RoleFollower, currentTerm = term, votedFor = voted, leaderID = [],
                          commitIndex = applied, lastApplied = applied,
                          nextIndex = (\<lambda>_. 0), matchIndex = (\<lambda>_. 0),
                          electionMin = (if optElectionMin opts = 0 then defaultElectionMin else optElectionMin opts),
                          electionMax = (if optElectionMax opts = 0 then defaultElectionMax else optElectionMax opts),
                          heartbeatInterval = (if optHeartbeatInterval opts = 0 then defaultHeartbeatInterval
                                               else optHeartbeatInterval opts),
                          snapshotThreshold = optSnapshotThreshold opts, electionDeadline = 0,
                          clients = [], clock = clk, rands = rnd, spawned = []\<rparr>;
                          n' = refreshMetricsLocked (resetElectionDeadlineLocked n)
                      in (Inr n', db (store n')))))"

text \<open>The part of \<open>Start\<close> that changes the node: one client per peer, in order.\<close>

definition Start_dial :: "Node \<Rightarrow> Node" where
  "Start_dial n = n\<lparr>clients := fold (\<lambda>p cs. if peerID p \<in> set cs then cs else cs @ [peerID p]) (peers n) (clients n)\<rparr>"

text \<open>One tick of \<open>run\<close>: the next heartbeat time is a local variable of the loop.\<close>

definition run_tick :: "int \<Rightarrow> Node \<Rightarrow> int \<times> Node" where
  "run_tick nextHeartbeat n =
     (case time_Now n of (now, n1) \<Rightarrow>
      let electionDue = (role n1 \<noteq> RoleLeader \<and> electionDeadline n1 < now);
          heartbeatDue = (role n1 = RoleLeader \<and> \<not> now < nextHeartbeat);
          nextHeartbeat' = (if heartbeatDue then now + heartbeatInterval n1 else nextHeartbeat);
          n2 = (if electionDue then n1\<lparr>spawned := spawned n1 @ [StartElection]\<rparr> else n1);
          n3 = (if heartbeatDue then n2\<lparr>spawned := spawned n2 @ [ReplicateAllOnce]\<rparr> else n2)
      in (nextHeartbeat', n3))"

section \<open>Elections\<close>

text \<open>
  An election in progress: what its requests carry and the variables its goroutines share.
\<close>

record Election =
  eCandidate :: bytes
  eTerm :: u64
  eLastLogIndex :: u64
  eLastLogTerm :: u64
  eMajority :: int
  ePeers :: "Peer list"
  eVotes :: int
  eWon :: bool

definition becomeLeader_peer :: "u64 \<Rightarrow> Peer \<Rightarrow> Node \<Rightarrow> Node" where
  "becomeLeader_peer lastIndex p n =
     n\<lparr>nextIndex := (nextIndex n)(peerID p := lastIndex + 1),
       matchIndex := (matchIndex n)(peerID p := 0),
       metrics := SetReplicationLag (peerID p) lastIndex (metrics n)\<rparr>"

definition becomeLeaderLocked :: "Node \<Rightarrow> Node" where
  "becomeLeaderLocked n =
     (case on_store LastIndexAndTerm n of
        (Inl _, n1) \<Rightarrow> n1
      | (Inr (lastIndex, _), n1) \<Rightarrow>
          let n2 = n1\<lparr>role := RoleLeader, leaderID := nid n1, votedFor := nid n1\<rparr>;
              n3 = fold (becomeLeader_peer lastIndex) (peers n2) n2;
              n4 = refreshMetricsLocked (n3\<lparr>matchIndex := (matchIndex n3)(nid n3 := lastIndex)\<rparr>)
          in n4\<lparr>spawned := spawned n4 @ [ReplicateAllOnce]\<rparr>)"

text \<open>The first critical section of \<open>startElection\<close>: \<open>None\<close> where it returns early.\<close>

definition startElection_begin :: "Node \<Rightarrow> Election option \<times> Node" where
  "startElection_begin n =
     (if role n = RoleLeader then (None, n)
      else
        let n1 = n\<lparr>role := RoleCandidate, currentTerm := currentTerm n + 1, votedFor := nid n, leaderID := []\<rparr> in
        case on_store (SaveTermVote (currentTerm n1) (votedFor n1)) n1 of
          (Inl _, n2) \<Rightarrow> (None, resetElectionDeadlineLocked n2)
        | (Inr _, n2) \<Rightarrow>
            (case on_store LastIndexAndTerm n2 of
               (Inl _, n3) \<Rightarrow> (None, resetElectionDeadlineLocked n3)
             | (Inr (lastLogIndex, lastLogTerm), n3) \<Rightarrow>
                 let n4 = refreshMetricsLocked (resetElectionDeadlineLocked n3);
                     n5 = n4\<lparr>metrics := IncElection (metrics n4)\<rparr>
                 in (Some \<lparr>eCandidate = nid n5, eTerm = currentTerm n1, eLastLogIndex = lastLogIndex,
                           eLastLogTerm = lastLogTerm, eMajority = majorityLocked n5, ePeers = peers n5,
                           eVotes = 1, eWon = False\<rparr>, n5)))"

definition election_request :: "Election \<Rightarrow> RequestVoteRequest" where
  "election_request e =
     \<lparr>rvTerm = eTerm e, rvCandidateId = eCandidate e, rvLastLogIndex = eLastLogIndex e,
      rvLastLogTerm = eLastLogTerm e\<rparr>"

text \<open>A goroutine of the election, after its RPC returned a response.\<close>

definition startElection_reply :: "RequestVoteResponse option \<Rightarrow> Election \<Rightarrow> Node \<Rightarrow> Election \<times> Node" where
  "startElection_reply resp e n =
     (if RequestVoteResponse_GetTerm resp > currentTerm n
        then (e, stepDownLocked (RequestVoteResponse_GetTerm resp) [] n)
      else if role n \<noteq> RoleCandidate \<or> currentTerm n \<noteq> eTerm e \<or> \<not> RequestVoteResponse_GetVoteGranted resp
        then (e, n)
      else
        let e1 = e\<lparr>eVotes := eVotes e + 1\<rparr> in
        if eVotes e1 \<ge> eMajority e1 \<and> \<not> eWon e1
          then (e1\<lparr>eWon := True\<rparr>, becomeLeaderLocked n)
        else (e1, n))"

text \<open>The last critical section of \<open>startElection\<close>: a cluster of one node.\<close>

definition startElection_single :: "Election \<Rightarrow> Node \<Rightarrow> Node" where
  "startElection_single e n =
     (if eMajority e = 1 \<and> role n = RoleCandidate \<and> currentTerm n = eTerm e
      then becomeLeaderLocked n else n)"

section \<open>Applying committed entries\<close>

lemma on_storeE:
  assumes "on_store m n = (r, n')"
  obtains s' where "m (store n) = (r, s')" and "n' = n\<lparr>store := s'\<rparr>"
  using assms by (auto simp: on_store_def split: prod.splits)

lemmas on_store_symE = on_storeE [OF sym]

lemma Entry_at_index: "Entry_at i s = (Inr (e, True), s') \<Longrightarrow> entryIndex e = i"
  by (auto simp: Entry_at_def query_def split: prod.splits if_splits option.splits)

text \<open>
  The loop of \<open>applyCommittedLocked\<close>: \<open>True\<close> when it ran to its end, \<open>False\<close> where the
  function returns early. Every iteration raises \<open>lastApplied\<close>.
\<close>

function apply_loop :: "Node \<Rightarrow> bool \<times> Node" where
  "apply_loop n =
     (if lastApplied n < commitIndex n then
        let next = lastApplied n + 1 in
        case on_store (Entry_at next) n of
          (Inl _, n1) \<Rightarrow> (False, n1)
        | (Inr (entry, ok), n1) \<Rightarrow>
            if \<not> ok then
              (case on_store SnapshotIndexTerm n1 of
                 (Inl _, n2) \<Rightarrow> (False, n2)
               | (Inr (snapIndex, _), n2) \<Rightarrow>
                   if next \<le> snapIndex then apply_loop (n2\<lparr>lastApplied := snapIndex\<rparr>)
                   else (False, n2))
            else
              (case decodeCommand (entryCommand entry) of
                 Inl _ \<Rightarrow> (False, n1)
               | Inr cmd \<Rightarrow>
                   (case on_store (ApplySet (entryIndex entry) (cmdKey cmd) (cmdValue cmd)) n1 of
                      (Inl _, n2) \<Rightarrow> (False, n2)
                    | (Inr _, n2) \<Rightarrow> apply_loop (n2\<lparr>lastApplied := entryIndex entry\<rparr>)))
      else (True, n))"
  by pat_completeness auto
termination
  by (relation "measure (\<lambda>n. unat (commitIndex n) - unat (lastApplied n))")
    (auto simp: word_le_nat_alt word_less_nat_alt unat_u64_Suc elim!: on_store_symE dest!: Entry_at_index)

declare apply_loop.simps [simp del]

definition compactIfNeededLocked :: "Node \<Rightarrow> Node" where
  "compactIfNeededLocked n =
     (if snapshotThreshold n = 0 \<or> lastApplied n = 0 then n
      else case on_store SnapshotIndexTerm n of
          (Inl _, n1) \<Rightarrow> n1
        | (Inr (snapIndex, _), n1) \<Rightarrow>
            if lastApplied n1 \<le> snapIndex \<or> lastApplied n1 - snapIndex < snapshotThreshold n1 then n1
            else (case on_store (Term (lastApplied n1)) n1 of
                    (Inl _, n2) \<Rightarrow> n2
                  | (Inr (term, ok), n2) \<Rightarrow>
                      if \<not> ok then n2
                      else snd (on_store (CreateSnapshot (lastApplied n2) term) n2)))"

definition applyCommittedLocked :: "Node \<Rightarrow> Node" where
  "applyCommittedLocked n =
     (case apply_loop n of (finished, n1) \<Rightarrow>
        if finished then refreshMetricsLocked (compactIfNeededLocked n1) else n1)"

section \<open>Advancing the commit index\<close>

definition count_replicas :: "u64 \<Rightarrow> Node \<Rightarrow> int" where
  "count_replicas idx n = 1 + int (length (filter (\<lambda>p. idx \<le> matchIndex n (peerID p)) (peers n)))"

text \<open>
  The loop of \<open>advanceCommitLocked\<close> over the indices \<open>idx, idx + 1, ..., lastIndex\<close>: the
  third argument counts the iterations left. (For \<open>lastIndex = 2 ^ 64 - 1\<close> the Go loop would
  never end, because its counter wraps; log indices are below \<open>2 ^ 63\<close>.)
\<close>

fun advance_loop :: "int \<Rightarrow> u64 \<Rightarrow> nat \<Rightarrow> Node \<Rightarrow> bool \<times> Node" where
  "advance_loop majority idx 0 n = (True, n)"
| "advance_loop majority idx (Suc k) n =
     (case on_store (Term idx) n of
        (Inl _, n1) \<Rightarrow> (False, n1)
      | (Inr (term, ok), n1) \<Rightarrow>
          if \<not> ok \<or> term \<noteq> currentTerm n1 then advance_loop majority (idx + 1) k n1
          else if count_replicas idx n1 \<ge> majority
            then advance_loop majority (idx + 1) k (n1\<lparr>commitIndex := idx\<rparr>)
          else advance_loop majority (idx + 1) k n1)"

definition advanceCommitLocked :: "Node \<Rightarrow> Node" where
  "advanceCommitLocked n =
     (case on_store LastIndexAndTerm n of
        (Inl _, n1) \<Rightarrow> n1
      | (Inr (lastIndex, _), n1) \<Rightarrow>
          let first = commitIndex n1 + 1;
              iterations = (if first \<le> lastIndex then unat (lastIndex - first) + 1 else 0)
          in case advance_loop (majorityLocked n1) first iterations n1 of (finished, n2) \<Rightarrow>
               if finished then applyCommittedLocked n2 else n2)"

section \<open>Replication\<close>

text \<open>What an attempt of \<open>replicatePeer\<close> does after its first critical section.\<close>

datatype Attempt =
    GiveUp
  | Retry
  | SendSnapshot Snapshot InstallSnapshotRequest
  | SendAppend u64 AppendEntriesRequest

definition entry_message :: "Entry \<Rightarrow> LogEntry option" where
  "entry_message e = Some \<lparr>leIndex = entryIndex e, leTerm = entryTerm e, leCommand = entryCommand e\<rparr>"

definition replicatePeer_prepare :: "bytes \<Rightarrow> Node \<Rightarrow> Attempt \<times> Node" where
  "replicatePeer_prepare peer n =
     (if role n \<noteq> RoleLeader then (GiveUp, n)
      else
        let next = (if nextIndex n peer = 0 then 1 else nextIndex n peer);
            n1 = n\<lparr>nextIndex := (nextIndex n)(peer := next)\<rparr> in
        case on_store SnapshotIndexTerm n1 of
          (Inl _, n2) \<Rightarrow> (GiveUp, n2)
        | (Inr (snapIndex, snapTerm), n2) \<Rightarrow>
            if next \<le> snapIndex then
              (case on_store LoadSnapshot n2 of
                 (Inl _, n3) \<Rightarrow> (GiveUp, n3)
               | (Inr snap, n3) \<Rightarrow>
                   (SendSnapshot snap
                      \<lparr>isTerm = currentTerm n, isLeaderId = nid n, isLastIncludedIndex = LastIncludedIndex snap,
                       isLastIncludedTerm = LastIncludedTerm snap, isData = Data snap\<rparr>, n3))
            else
              let prevLogIndex = next - 1 in
              case on_store (Term prevLogIndex) n2 of
                (Inl _, n3) \<Rightarrow> (GiveUp, n3)
              | (Inr (t, ok), n3) \<Rightarrow>
                  let prevLogTerm = (if \<not> ok \<and> prevLogIndex \<le> snapIndex then snapTerm else t);
                      ok' = (ok \<or> prevLogIndex \<le> snapIndex) in
                  if \<not> ok' then (Retry, n3\<lparr>nextIndex := (nextIndex n3)(peer := maxUint64 1 (next - 1))\<rparr>)
                  else (case on_store (EntriesFrom next appendBatchSize) n3 of
                          (Inl _, n4) \<Rightarrow> (GiveUp, n4)
                        | (Inr entries, n4) \<Rightarrow>
                            (SendAppend (if entries = [] then prevLogIndex else entryIndex (last entries))
                               \<lparr>aeTerm = currentTerm n, aeLeaderId = nid n, aePrevLogIndex = prevLogIndex,
                                aePrevLogTerm = prevLogTerm, aeEntries = map entry_message entries,
                                aeLeaderCommit = commitIndex n\<rparr>, n4)))"

text \<open>After an InstallSnapshot response: \<open>True\<close> where \<open>replicatePeer\<close> returns true.\<close>

definition replicatePeer_snapshot_reply ::
    "bytes \<Rightarrow> Snapshot \<Rightarrow> InstallSnapshotResponse option \<Rightarrow> Node \<Rightarrow> bool \<times> Node" where
  "replicatePeer_snapshot_reply peer snap resp n =
     (if InstallSnapshotResponse_GetTerm resp > currentTerm n
        then (False, stepDownLocked (InstallSnapshotResponse_GetTerm resp) [] n)
      else
        let n1 = n\<lparr>matchIndex := (matchIndex n)(peer := LastIncludedIndex snap),
                   nextIndex := (nextIndex n)(peer := LastIncludedIndex snap + 1)\<rparr>
        in (True, refreshMetricsLocked (advanceCommitLocked n1)))"

text \<open>After an AppendEntries response: \<open>Some b\<close> where \<open>replicatePeer\<close> returns \<open>b\<close>, \<open>None\<close> to try again.\<close>

definition replicatePeer_append_reply ::
    "bytes \<Rightarrow> u64 \<Rightarrow> u64 \<Rightarrow> AppendEntriesResponse option \<Rightarrow> Node \<Rightarrow> bool option \<times> Node" where
  "replicatePeer_append_reply peer term lastSent resp n =
     (if AppendEntriesResponse_GetTerm resp > currentTerm n
        then (Some False, stepDownLocked (AppendEntriesResponse_GetTerm resp) [] n)
      else if role n \<noteq> RoleLeader \<or> currentTerm n \<noteq> term then (Some False, n)
      else if AppendEntriesResponse_GetSuccess resp then
        let m = AppendEntriesResponse_GetMatchIndex resp;
            match = (if m < lastSent then lastSent else m);
            n1 = (if match > matchIndex n peer then n\<lparr>matchIndex := (matchIndex n)(peer := match)\<rparr> else n);
            n2 = n1\<lparr>nextIndex := (nextIndex n1)(peer := matchIndex n1 peer + 1)\<rparr>
        in case on_store LastIndexAndTerm n2 of (r, n3) \<Rightarrow>
           let lastIndex = (case r of Inl _ \<Rightarrow> 0 | Inr (i, _) \<Rightarrow> i);
               n4 = (if matchIndex n3 peer \<le> lastIndex
                     then n3\<lparr>metrics := SetReplicationLag peer (lastIndex - matchIndex n3 peer) (metrics n3)\<rparr>
                     else n3)
           in (Some True, refreshMetricsLocked (advanceCommitLocked n4))
      else
        (None, if nextIndex n peer > 1
               then n\<lparr>nextIndex := (nextIndex n)(peer := nextIndex n peer - 1)\<rparr> else n))"

text \<open>
  The whole loop. What happens around the critical sections is a parameter, per attempt:
  whether the context is done, what the RPC returns, and what other goroutines and handlers
  do to the node while the lock is free.
\<close>

record RpcEnv =
  ctxDone :: "nat \<Rightarrow> bool"
  rpcAppend :: "nat \<Rightarrow> AppendEntriesRequest \<Rightarrow> AppendEntriesResponse option result"
  rpcSnapshot :: "nat \<Rightarrow> InstallSnapshotRequest \<Rightarrow> InstallSnapshotResponse option result"
  others :: "nat \<Rightarrow> Node \<Rightarrow> Node"

fun replicatePeer_loop :: "RpcEnv \<Rightarrow> bytes \<Rightarrow> nat \<Rightarrow> nat \<Rightarrow> Node \<Rightarrow> bool \<times> Node" where
  "replicatePeer_loop w peer attempt 0 n = (False, n)"
| "replicatePeer_loop w peer attempt (Suc left) n =
     (if ctxDone w attempt then (False, n)
      else case replicatePeer_prepare peer n of
          (GiveUp, n1) \<Rightarrow> (False, n1)
        | (Retry, n1) \<Rightarrow> replicatePeer_loop w peer (Suc attempt) left n1
        | (SendSnapshot snap req, n1) \<Rightarrow>
            (case rpcSnapshot w attempt req of
               Inl _ \<Rightarrow> (False, others w attempt n1)
             | Inr resp \<Rightarrow> replicatePeer_snapshot_reply peer snap resp (others w attempt n1))
        | (SendAppend lastSent req, n1) \<Rightarrow>
            (case rpcAppend w attempt req of
               Inl _ \<Rightarrow> (False, others w attempt n1)
             | Inr resp \<Rightarrow>
                 (case replicatePeer_append_reply peer (aeTerm req) lastSent resp (others w attempt n1) of
                    (Some b, n2) \<Rightarrow> (b, n2)
                  | (None, n2) \<Rightarrow> replicatePeer_loop w peer (Suc attempt) left n2)))"

definition replicatePeer :: "RpcEnv \<Rightarrow> bytes \<Rightarrow> Node \<Rightarrow> bool \<times> Node" where
  "replicatePeer w peer n = replicatePeer_loop w peer 0 64 n"

text \<open>
  \<open>replicateAllOnce\<close>: the peers to contact (none unless the node leads), and the number it
  returns once every goroutine has finished with the given results.
\<close>

definition replicateAllOnce_begin :: "Node \<Rightarrow> Peer list option" where
  "replicateAllOnce_begin n = (if role n \<noteq> RoleLeader then None else Some (peers n))"

definition replicateAllOnce_result :: "bool list option \<Rightarrow> int" where
  "replicateAllOnce_result results =
     (case results of None \<Rightarrow> 0 | Some bs \<Rightarrow> 1 + int (length (filter (\<lambda>b. b) bs)))"

section \<open>Queries\<close>

definition WaitForLeader_poll :: "Node \<Rightarrow> bytes option" where
  "WaitForLeader_poll n =
     (let l = (if role n = RoleLeader then nid n else leaderID n) in if l \<noteq> [] then Some l else None)"

definition ID :: "Node \<Rightarrow> bytes" where
  "ID n = nid n"

end
