(* ===== verification/Raft_Rpc.thy ===== *)
theory Raft_Rpc
  imports Raft_Node
begin

text \<open>
  \<open>internal/raft/rpc.go\<close>: the handlers of the two gRPC services. \<open>RequestVote\<close>,
  \<open>AppendEntries\<close>, \<open>InstallSnapshot\<close> and \<open>Status\<close> hold the lock throughout and are one function
  each; \<open>Write\<close> and \<open>Read\<close> release it while they replicate and are split there.
\<close>

definition inc_rpc :: "bytes \<Rightarrow> bytes \<Rightarrow> Node \<Rightarrow> Node" where
  "inc_rpc method res n = n\<lparr>metrics := IncRPC method res (metrics n)\<rparr>"

section \<open>RequestVote\<close>

definition RequestVote :: "RequestVoteRequest option \<Rightarrow> (Node, RequestVoteResponse) action" where
  "RequestVote req n =
     (if RequestVoteRequest_GetTerm req < currentTerm n
        then (Inr \<lparr>rvrTerm = currentTerm n, rvrVoteGranted = False\<rparr>, inc_rpc ''RequestVote'' ''stale_term'' n)
      else
        let n1 = (if RequestVoteRequest_GetTerm req > currentTerm n
                  then stepDownLocked (RequestVoteRequest_GetTerm req) [] n else n) in
        case on_store LastIndexAndTerm n1 of
          (Inl err, n2) \<Rightarrow> (Inl (wrapInternal err), inc_rpc ''RequestVote'' ''error'' n2)
        | (Inr (lastLogIndex, lastLogTerm), n2) \<Rightarrow>
            let upToDate = (RequestVoteRequest_GetLastLogTerm req > lastLogTerm \<or>
                  RequestVoteRequest_GetLastLogTerm req = lastLogTerm
                    \<and> RequestVoteRequest_GetLastLogIndex req \<ge> lastLogIndex);
                canVote = (votedFor n2 = [] \<or> votedFor n2 = RequestVoteRequest_GetCandidateId req) in
            if canVote \<and> upToDate then
              let n3 = n2\<lparr>votedFor := RequestVoteRequest_GetCandidateId req\<rparr> in
              case on_store (SaveTermVote (currentTerm n3) (votedFor n3)) n3 of
                (Inl err, n4) \<Rightarrow> (Inl (wrapInternal err), inc_rpc ''RequestVote'' ''error'' n4)
              | (Inr _, n4) \<Rightarrow>
                  let n5 = refreshMetricsLocked (resetElectionDeadlineLocked n4) in
                  (Inr \<lparr>rvrTerm = currentTerm n5, rvrVoteGranted = True\<rparr>, inc_rpc ''RequestVote'' ''granted'' n5)
            else (Inr \<lparr>rvrTerm = currentTerm n2, rvrVoteGranted = False\<rparr>, inc_rpc ''RequestVote'' ''rejected'' n2))"

section \<open>AppendEntries\<close>

text \<open>The first loop: entries already covered by the snapshot are dropped.\<close>

fun collect_incoming :: "u64 \<Rightarrow> LogEntry option list \<Rightarrow> u64 \<Rightarrow> u64 \<times> Entry list" where
  "collect_incoming snapIndex [] matchIdx = (matchIdx, [])"
| "collect_incoming snapIndex (entry # entries) matchIdx =
     (if LogEntry_GetIndex entry \<le> snapIndex then collect_incoming snapIndex entries matchIdx
      else
        let matchIdx' = (if LogEntry_GetIndex entry > matchIdx then LogEntry_GetIndex entry else matchIdx) in
        case collect_incoming snapIndex entries matchIdx' of (m, incoming) \<Rightarrow>
          (m, \<lparr>entryIndex = LogEntry_GetIndex entry, entryTerm = LogEntry_GetTerm entry,
               entryCommand = LogEntry_GetCommand entry\<rparr> # incoming))"

text \<open>The second loop: where the local log ends or differs, the rest has to be appended.\<close>

fun find_conflict :: "Entry list \<Rightarrow> (Node, Entry list) action" where
  "find_conflict [] n = (Inr [], n)"
| "find_conflict (entry # entries) n =
     (case on_store (Term (entryIndex entry)) n of
        (Inl err, n1) \<Rightarrow> (Inl err, n1)
      | (Inr (localTerm, exists), n1) \<Rightarrow>
          if \<not> exists then (Inr (entry # entries), n1)
          else if localTerm \<noteq> entryTerm entry then
            (case on_store (DeleteFrom (entryIndex entry)) n1 of
               (Inl err, n2) \<Rightarrow> (Inl err, n2)
             | (Inr _, n2) \<Rightarrow> (Inr (entry # entries), n2))
          else find_conflict entries n1)"

definition append_error :: "error \<Rightarrow> Node \<Rightarrow> AppendEntriesResponse result \<times> Node" where
  "append_error err n = (Inl (wrapInternal err), inc_rpc ''AppendEntries'' ''error'' n)"

text \<open>A rejection reports the local last index, and 0 when it cannot be read.\<close>

definition append_reject :: "bytes \<Rightarrow> Node \<Rightarrow> AppendEntriesResponse result \<times> Node" where
  "append_reject res n =
     (case on_store LastIndexAndTerm (inc_rpc ''AppendEntries'' res n) of (r, n1) \<Rightarrow>
        (Inr \<lparr>aerTerm = currentTerm n1, aerSuccess = False,
              aerMatchIndex = (case r of Inl _ \<Rightarrow> 0 | Inr (i, _) \<Rightarrow> i)\<rparr>, n1))"

text \<open>The end of the handler, once the log holds the entries: the commit index and the answer.\<close>

definition append_commit :: "AppendEntriesRequest option \<Rightarrow> u64 \<Rightarrow> (Node, AppendEntriesResponse) action" where
  "append_commit req matchIdx n =
     (case on_store LastIndexAndTerm n of
        (Inl err, n1) \<Rightarrow> append_error err n1
      | (Inr (lastIndex, _), n1) \<Rightarrow>
          let n2 = (if AppendEntriesRequest_GetLeaderCommit req > commitIndex n1
                    then applyCommittedLocked
                      (n1\<lparr>commitIndex := minUint64 (AppendEntriesRequest_GetLeaderCommit req) lastIndex\<rparr>)
                    else n1);
              n3 = inc_rpc ''AppendEntries'' ''success'' (refreshMetricsLocked n2)
          in (Inr \<lparr>aerTerm = currentTerm n3, aerSuccess = True, aerMatchIndex = matchIdx\<rparr>, n3))"

text \<open>The middle of the handler: conflicts are resolved and missing entries appended.\<close>

definition append_store :: "Entry list \<Rightarrow> (Node, unit) action" where
  "append_store incoming n =
     (case find_conflict incoming n of
        (Inl err, n1) \<Rightarrow> (Inl err, n1)
      | (Inr toAppend, n1) \<Rightarrow>
          if toAppend = [] then (Inr (), n1) else on_store (AppendEntries toAppend) n1)"

definition AppendEntries_rpc :: "AppendEntriesRequest option \<Rightarrow> (Node, AppendEntriesResponse) action" where
  "AppendEntries_rpc req n =
     (if AppendEntriesRequest_GetTerm req < currentTerm n then append_reject ''stale_term'' n
      else
        let n1 = (if AppendEntriesRequest_GetTerm req > currentTerm n \<or> role n \<noteq> RoleFollower
                  then stepDownLocked (AppendEntriesRequest_GetTerm req) (AppendEntriesRequest_GetLeaderId req) n
                  else n);
            n2 = resetElectionDeadlineLocked (n1\<lparr>leaderID := AppendEntriesRequest_GetLeaderId req\<rparr>) in
        case on_store SnapshotIndexTerm n2 of
          (Inl err, n3) \<Rightarrow> append_error err n3
        | (Inr (snapIndex, _), n3) \<Rightarrow>
            if AppendEntriesRequest_GetPrevLogIndex req < snapIndex then
              let n4 = inc_rpc ''AppendEntries'' ''behind_snapshot'' n3 in
              (Inr \<lparr>aerTerm = currentTerm n4, aerSuccess = False, aerMatchIndex = snapIndex\<rparr>, n4)
            else
              (case on_store (Term (AppendEntriesRequest_GetPrevLogIndex req)) n3 of
                 (Inl err, n4) \<Rightarrow> append_error err n4
               | (Inr (prevTerm, ok), n4) \<Rightarrow>
                   if \<not> ok \<or> prevTerm \<noteq> AppendEntriesRequest_GetPrevLogTerm req
                     then append_reject ''log_mismatch'' n4
                   else
                     (case collect_incoming snapIndex (AppendEntriesRequest_GetEntries req)
                             (AppendEntriesRequest_GetPrevLogIndex req) of (matchIdx, incoming) \<Rightarrow>
                      case append_store incoming n4 of
                        (Inl err, n5) \<Rightarrow> append_error err n5
                      | (Inr _, n5) \<Rightarrow> append_commit req matchIdx n5)))"

section \<open>InstallSnapshot\<close>

definition InstallSnapshot_rpc :: "InstallSnapshotRequest option \<Rightarrow> (Node, InstallSnapshotResponse) action" where
  "InstallSnapshot_rpc req n =
     (if InstallSnapshotRequest_GetTerm req < currentTerm n
        then (Inr \<lparr>isrTerm = currentTerm n\<rparr>, inc_rpc ''InstallSnapshot'' ''stale_term'' n)
      else
        let n1 = (if InstallSnapshotRequest_GetTerm req > currentTerm n \<or> role n \<noteq> RoleFollower
                  then stepDownLocked (InstallSnapshotRequest_GetTerm req) (InstallSnapshotRequest_GetLeaderId req) n
                  else n);
            n2 = resetElectionDeadlineLocked (n1\<lparr>leaderID := InstallSnapshotRequest_GetLeaderId req\<rparr>) in
        case on_store SnapshotIndexTerm n2 of
          (Inl err, n3) \<Rightarrow> (Inl (wrapInternal err), inc_rpc ''InstallSnapshot'' ''error'' n3)
        | (Inr (currentSnapIndex, _), n3) \<Rightarrow>
            if InstallSnapshotRequest_GetLastIncludedIndex req \<le> currentSnapIndex then
              (Inr \<lparr>isrTerm = currentTerm n3\<rparr>, inc_rpc ''InstallSnapshot'' ''ignored'' n3)
            else
              (case on_store (InstallSnapshot
                      \<lparr>LastIncludedIndex = InstallSnapshotRequest_GetLastIncludedIndex req,
                       LastIncludedTerm = InstallSnapshotRequest_GetLastIncludedTerm req,
                       Data = InstallSnapshotRequest_GetData req\<rparr>) n3 of
                 (Inl err, n4) \<Rightarrow> (Inl (wrapInternal err), inc_rpc ''InstallSnapshot'' ''error'' n4)
               | (Inr _, n4) \<Rightarrow>
                   let n5 = n4\<lparr>commitIndex := maxUint64 (commitIndex n4) (InstallSnapshotRequest_GetLastIncludedIndex req),
                               lastApplied := maxUint64 (lastApplied n4) (InstallSnapshotRequest_GetLastIncludedIndex req)\<rparr>;
                       n6 = inc_rpc ''InstallSnapshot'' ''success'' (refreshMetricsLocked n5)
                   in (Inr \<lparr>isrTerm = currentTerm n6\<rparr>, n6)))"

section \<open>Write\<close>

text \<open>
  The first part of \<open>Write\<close>: a final answer, a call forwarded to the leader's client, or the
  index and term of the new entry to wait for.
\<close>

datatype WriteStart =
    WriteReturn "ClientWriteResponse result"
  | WriteForward bytes
  | WriteWait u64 u64

definition Write_begin :: "ClientWriteRequest option \<Rightarrow> Node \<Rightarrow> WriteStart \<times> Node" where
  "Write_begin req n =
     (if ClientWriteRequest_GetKey req = [] then
        (WriteReturn (Inr \<lparr>cwrSuccess = False, cwrLeaderId = [], cwrError = ''key is required'',
                           cwrIndex = 0, cwrTerm = 0\<rparr>), n)
      else if role n \<noteq> RoleLeader then
        (if leaderID n \<in> set (clients n) then WriteForward (leaderID n)
         else WriteReturn (Inr (newNotLeaderResponse (leaderID n))), n)
      else
        let commandBytes = encodeSetCommand (ClientWriteRequest_GetKey req) (ClientWriteRequest_GetValue req) in
        case on_store LastIndexAndTerm n of
          (Inl err, n1) \<Rightarrow> (WriteReturn (Inl (wrapInternal err)), n1)
        | (Inr (lastIndex, _), n1) \<Rightarrow>
            let entry = \<lparr>entryIndex = lastIndex + 1, entryTerm = currentTerm n1, entryCommand = commandBytes\<rparr> in
            case on_store (AppendEntries [entry]) n1 of
              (Inl err, n2) \<Rightarrow> (WriteReturn (Inl (wrapInternal err)), n2)
            | (Inr _, n2) \<Rightarrow>
                let n3 = n2\<lparr>matchIndex := (matchIndex n2)(nid n2 := entryIndex entry)\<rparr>;
                    n4 = (if majorityLocked n3 = 1 then advanceCommitLocked n3 else n3);
                    n5 = refreshMetricsLocked n4
                in (WriteWait (entryIndex entry) (currentTerm n5), n5))"

text \<open>The check after each round of replication: an answer, or \<open>None\<close> to go on waiting.\<close>

definition Write_check :: "u64 \<Rightarrow> u64 \<Rightarrow> Node \<Rightarrow> ClientWriteResponse option" where
  "Write_check index term n =
     (if role n \<noteq> RoleLeader \<or> currentTerm n \<noteq> term then Some (newNotLeaderResponse (leaderID n))
      else if commitIndex n \<ge> index then
        Some \<lparr>cwrSuccess = True, cwrLeaderId = nid n, cwrError = [], cwrIndex = index, cwrTerm = term\<rparr>
      else None)"

text \<open>
  The waiting loop: in each round, \<open>step k\<close> is what replication and everything else do to the
  node until the lock is taken, and \<open>expired k\<close> is the context's error when it is done by the
  end of the round. Whether a majority answered makes no difference: both branches of the
  source wait the same way. The last argument bounds the rounds looked at.
\<close>

fun Write_wait :: "(nat \<Rightarrow> Node \<Rightarrow> Node) \<Rightarrow> (nat \<Rightarrow> bytes option) \<Rightarrow> u64 \<Rightarrow> u64 \<Rightarrow> nat \<Rightarrow> nat \<Rightarrow> Node
    \<Rightarrow> ClientWriteResponse option \<times> Node" where
  "Write_wait step expired index term k 0 n = (None, n)"
| "Write_wait step expired index term k (Suc rounds) n =
     (let n1 = step k n in
      case Write_check index term n1 of
        Some resp \<Rightarrow> (Some resp, n1)
      | None \<Rightarrow>
          (case expired k of
             Some err \<Rightarrow> (Some \<lparr>cwrSuccess = False, cwrLeaderId = nid n1, cwrError = err,
                               cwrIndex = index, cwrTerm = term\<rparr>, n1)
           | None \<Rightarrow> Write_wait step expired index term (Suc k) rounds n1))"

section \<open>Read\<close>

datatype ReadStart =
    ReadReturn ClientReadResponse
  | ReadForward bytes
  | ReadConfirm

definition read_failure :: "bytes \<Rightarrow> bytes \<Rightarrow> ClientReadResponse" where
  "read_failure leader err = \<lparr>crrSuccess = False, crrLeaderId = leader, crrError = err, crrValue = []\<rparr>"

definition Read_begin :: "ClientReadRequest option \<Rightarrow> Node \<Rightarrow> ReadStart" where
  "Read_begin req n =
     (if ClientReadRequest_GetKey req = [] then ReadReturn (read_failure [] ''key is required'')
      else if role n \<noteq> RoleLeader then
        (if leaderID n \<in> set (clients n) then ReadForward (leaderID n)
         else ReadReturn (read_failure (leaderID n) ''not leader''))
      else ReadConfirm)"

text \<open>After the round of replication with the given number of successes.\<close>

definition Read_finish :: "ClientReadRequest option \<Rightarrow> int \<Rightarrow> (Node, ClientReadResponse) action" where
  "Read_finish req successes n =
     (if role n \<noteq> RoleLeader then (Inr (read_failure (leaderID n) ''not leader''), n)
      else if successes < majorityLocked n
        then (Inr (read_failure (nid n) ''could not confirm leader quorum''), n)
      else
        case on_store (Get (ClientReadRequest_GetKey req)) n of
          (Inl err, n1) \<Rightarrow> (Inl (wrapInternal err), n1)
        | (Inr (v, ok), n1) \<Rightarrow>
            if \<not> ok then (Inr (read_failure (nid n1) ''key not found''), n1)
            else (Inr \<lparr>crrSuccess = True, crrLeaderId = nid n1, crrError = [], crrValue = v\<rparr>, n1))"

section \<open>Status\<close>

definition peer_status :: "Node \<Rightarrow> Peer \<Rightarrow> PeerStatus option" where
  "peer_status n p =
     Some \<lparr>psId = peerID p, psAddress = peerAddress p, psMatchIndex = matchIndex n (peerID p),
           psNextIndex = nextIndex n (peerID p)\<rparr>"

definition Status :: "(Node, StatusResponse) action" where
  "Status n =
     (case on_store LastIndexAndTerm n of
        (Inl err, n1) \<Rightarrow> (Inl (wrapInternal err), n1)
      | (Inr (lastIndex, _), n1) \<Rightarrow>
          (Inr \<lparr>stId = nid n1, stRole = role_string (role n1), stTerm = currentTerm n1,
                stLeaderId = (if role n1 = RoleLeader then nid n1 else leaderID n1),
                stCommitIndex = commitIndex n1, stLastApplied = lastApplied n1, stLastLogIndex = lastIndex,
                stPeers = map (peer_status n1) (peers n1)\<rparr>, n1))"

definition MustLeaderID :: "Node \<Rightarrow> bytes \<times> bool" where
  "MustLeaderID n = (if role n = RoleLeader then (nid n, True) else (leaderID n, False))"

end
