(* ===== verification/Raft_View.thy ===== *)
theory Raft_View
  imports Raft_Rpc
begin

text \<open>
  What an election depends on: the \<open>view\<close> of a node is its identity, its peers, its role, its
  term and vote, and the two rows of its database that hold the durable term and vote. Every
  critical section of the node is classified by what it does to the view: most leave it
  alone (\<open>view n' = view n\<close>), some may only step down (\<open>calm\<close>), and three handle votes.
\<close>

section \<open>The durable term and vote\<close>

definition vote_rows :: "tables \<Rightarrow> bytes option \<times> bytes option" where
  "vote_rows T = (map_of (metadata T) ''current_term'', map_of (metadata T) ''voted_for'')"

primrec fill_rows :: "bytes option \<times> bytes option \<Rightarrow> bytes option \<times> bytes option" where
  "fill_rows (t, v) = (Some (case t of None \<Rightarrow> ''0'' | Some x \<Rightarrow> x), Some (case v of None \<Rightarrow> [] | Some x \<Rightarrow> x))"

fun read_rows :: "bytes option \<times> bytes option \<Rightarrow> (u64 \<times> bytes) result" where
  "read_rows (None, v) = Inl ErrNoRows"
| "read_rows (Some t, v) =
     (case ParseUint t of
        Inl err \<Rightarrow> Inl (MetadataInvalid ''current_term'' t err)
      | Inr x \<Rightarrow> (case v of None \<Rightarrow> Inl ErrNoRows | Some y \<Rightarrow> Inr (x, y)))"

text \<open>What a restarted node reads: a missing row is filled with its default first.\<close>

definition durable :: "tables \<Rightarrow> (u64 \<times> bytes) result" where
  "durable T = read_rows (fill_rows (vote_rows T))"

lemma term_vote_rows: "term_vote T = read_rows (vote_rows T)"
  by (auto simp: term_vote_def meta_uint_def vote_rows_def split: option.splits sum.splits)

lemma vote_rows_fill:
  assumes "set order = set defaults"
  shows "vote_rows (fill_defaults order T) = fill_rows (vote_rows T)"
proof -
  have "map_of order = map_of defaults"
    using assms by (rule map_of_permuted_defaults)
  then show ?thesis
    by (auto simp: vote_rows_def map_of_fill_defaults defaults_def split: option.splits)
qed

lemma term_vote_fill: "set order = set defaults \<Longrightarrow> term_vote (fill_defaults order T) = durable T"
  by (simp add: durable_def term_vote_rows vote_rows_fill)

lemma durable_cong: "vote_rows T = vote_rows T' \<Longrightarrow> durable T = durable T'"
  by (simp add: durable_def)

lemma durable_term_vote: "term_vote T = Inr p \<Longrightarrow> durable T = Inr p"
  unfolding durable_def term_vote_rows
  by (cases "vote_rows T") (auto split: option.splits sum.splits elim!: read_rows.elims)

lemma durable_save [simp]: "durable (save_term_vote t v T) = Inr (t, v)"
  by (simp add: durable_term_vote term_vote_save)

lemma durable_empty: "durable empty_tables = Inr (0, [])"
  by (simp add: durable_def vote_rows_def empty_tables_def ParseUint_0)

lemma fill_rows_insert_default: "(k, v) \<in> set defaults \<Longrightarrow> fill_rows (vote_rows (insert_or_ignore_meta k v T)) = fill_rows (vote_rows T)"
  by (auto simp: vote_rows_def insert_or_ignore_meta_def table_simps defaults_def)

lemma durable_insert_default: "(k, v) \<in> set defaults \<Longrightarrow> durable (insert_or_ignore_meta k v T) = durable T"
  by (simp add: durable_def fill_rows_insert_default)

section \<open>Operations of the store that keep the vote\<close>

definition keeps_vote :: "(Store, 'a) action \<Rightarrow> bool" where
  "keeps_vote m \<longleftrightarrow> (\<forall>s r s'. m s = (r, s') \<longrightarrow> vote_rows (db s') = vote_rows (db s))"

named_theorems keeps

lemma keeps_vote_spec:
  assumes "implements m w" and "\<And>T. vote_rows (snd (w T)) = vote_rows T"
  shows "keeps_vote m"
  using assms unfolding keeps_vote_def implements_def by (metis snd_conv)

lemma vote_rows_ops [simp]:
  "vote_rows (upsert_log_row e T) = vote_rows T"
  "vote_rows (delete_log_from i T) = vote_rows T"
  "vote_rows (delete_log_upto i T) = vote_rows T"
  "vote_rows (upsert_kv i k v T) = vote_rows T"
  "vote_rows (upsert_snapshot snap T) = vote_rows T"
  "vote_rows (set_snapshot_meta i t T) = vote_rows T"
  "vote_rows (T\<lparr>kv := x\<rparr>) = vote_rows T"
  "vote_rows (append_entries es T) = vote_rows T"
  "vote_rows (apply_set i k v T) = vote_rows T"
proof -
  show "vote_rows (append_entries es T) = vote_rows T"
    by (induction es arbitrary: T) (auto simp: append_entries_def vote_rows_def)
qed (simp_all add: vote_rows_def set_snapshot_meta_def table_simps apply_set_def)

lemma keeps_vote_methods [keeps]:
  "keeps_vote CurrentTermVote" "keeps_vote LastApplied" "keeps_vote SnapshotIndexTerm" "keeps_vote LastIndexAndTerm"
  "keeps_vote LoadSnapshot" "keeps_vote (Term i)" "keeps_vote (Entry_at i)" "keeps_vote (EntriesFrom i l)"
  "keeps_vote (AppendEntries es)" "keeps_vote (DeleteFrom i)" "keeps_vote (ApplySet i k v)" "keeps_vote (Get k)"
  "keeps_vote (CreateSnapshot i t)" "keeps_vote (InstallSnapshot snap)"
  by (auto simp: create_snapshot_def install_snapshot_def split: sum.splits
      intro!: implements_CurrentTermVote [THEN keeps_vote_spec] implements_LastApplied [THEN keeps_vote_spec]
        implements_SnapshotIndexTerm [THEN keeps_vote_spec] implements_LastIndexAndTerm [THEN keeps_vote_spec]
        implements_LoadSnapshot [THEN keeps_vote_spec] implements_Term [THEN keeps_vote_spec]
        implements_Entry_at [THEN keeps_vote_spec] implements_EntriesFrom [THEN keeps_vote_spec]
        implements_Get [THEN keeps_vote_spec] mutator_specs [THEN keeps_vote_spec])

section \<open>The view of a node\<close>

type_synonym view = "bytes \<times> Peer list \<times> Role \<times> u64 \<times> bytes \<times> (bytes option \<times> bytes option)"

definition view :: "Node \<Rightarrow> view" where
  "view n = (nid n, peers n, role n, currentTerm n, votedFor n, vote_rows (db (store n)))"

lemma view_updates [simp]:
  "view (n\<lparr>metrics := x1\<rparr>) = view n" "view (n\<lparr>leaderID := x2\<rparr>) = view n" "view (n\<lparr>commitIndex := x3\<rparr>) = view n"
  "view (n\<lparr>lastApplied := x3\<rparr>) = view n" "view (n\<lparr>nextIndex := x4\<rparr>) = view n" "view (n\<lparr>matchIndex := x4\<rparr>) = view n"
  "view (n\<lparr>electionDeadline := x5\<rparr>) = view n" "view (n\<lparr>clients := x6\<rparr>) = view n" "view (n\<lparr>clock := x7\<rparr>) = view n"
  "view (n\<lparr>rands := x7\<rparr>) = view n" "view (n\<lparr>spawned := x8\<rparr>) = view n"
  by (simp_all add: view_def)

lemma view_on_store:
  assumes "on_store m n = (r, n')" and "keeps_vote m"
  shows "view n' = view n"
  using assms by (auto simp: view_def keeps_vote_def elim!: on_storeE)

lemmas view_store = keeps_vote_methods [THEN view_on_store [rotated]]

lemma view_time_Now [simp]: "view (snd (time_Now n)) = view n"
  by (auto simp: time_Now_def split: list.splits)

lemma view_rand [simp]: "view (snd (rand_Int63n k n)) = view n"
  by (auto simp: rand_Int63n_def split: list.splits)

lemma view_reset [simp]: "view (resetElectionDeadlineLocked n) = view n"
  by (auto simp: resetElectionDeadlineLocked_def Let_def split_beta)

lemma view_refresh [simp]: "view (refreshMetricsLocked n) = view n"
  by (auto simp: refreshMetricsLocked_def Let_def split: prod.splits dest: view_store)

lemma view_inc_rpc [simp]: "view (inc_rpc m r n) = view n"
  by (simp add: inc_rpc_def)

text \<open>
  An invariant of the loop of \<open>applyCommittedLocked\<close> is one that its calls to the store and its
  assignments keep.
\<close>

lemma apply_loop_invariant:
  assumes run: "apply_loop n = (b, n')" and init: "P n"
    and entry: "\<And>n i r n1. P n \<Longrightarrow> on_store (Entry_at i) n = (r, n1) \<Longrightarrow> P n1"
    and snap: "\<And>n r n1. P n \<Longrightarrow> on_store SnapshotIndexTerm n = (r, n1) \<Longrightarrow> P n1"
    and app: "\<And>n i k v r n1. P n \<Longrightarrow> on_store (ApplySet i k v) n = (r, n1) \<Longrightarrow> P n1"
    and upd: "\<And>n i. P n \<Longrightarrow> P (n\<lparr>lastApplied := i\<rparr>)"
  shows "P n'"
  using run init
proof (induction n arbitrary: b n' rule: apply_loop.induct)
  case (1 n)
  show ?case
  proof (cases "lastApplied n < commitIndex n")
    case False
    with "1.prems" show ?thesis
      by (simp add: apply_loop.simps [of n])
  next
    case True
    obtain r n1 where e: "on_store (Entry_at (lastApplied n + 1)) n = (r, n1)"
      by force
    then have n1: "P n1"
      using entry "1.prems"(2) by blast
    show ?thesis
    proof (cases r)
      case (Inl err)
      with "1.prems" True e n1 show ?thesis
        by (simp add: apply_loop.simps [of n])
    next
      case (Inr p)
      obtain x ok where p: "p = (x, ok)"
        by force
      show ?thesis
      proof (cases ok)
        case True': True
        show ?thesis
        proof (cases "decodeCommand (entryCommand x)")
          case (Inl err)
          with "1.prems" True True' e n1 \<open>r = Inr p\<close> p show ?thesis
            by (simp add: apply_loop.simps [of n])
        next
          case (Inr cmd)
          obtain q n2 where a: "on_store (ApplySet (entryIndex x) (cmdKey cmd) (cmdValue cmd)) n1 = (q, n2)"
            by force
          then have "P n2"
            using app n1 by blast
          with "1.prems" True True' e \<open>r = Inr p\<close> p Inr a show ?thesis
            by (cases q) (auto simp: apply_loop.simps [of n] intro: upd "1.IH"(2) [OF True refl e [symmetric]])
        qed
      next
        case False
        obtain q n2 where a: "on_store SnapshotIndexTerm n1 = (q, n2)"
          by force
        then have "P n2"
          using snap n1 by blast
        show ?thesis
        proof (cases q)
          case (Inl err)
          with "1.prems" True False e \<open>r = Inr p\<close> p a \<open>P n2\<close> show ?thesis
            by (simp add: apply_loop.simps [of n])
        next
          case (Inr sp)
          obtain i t where sp: "sp = (i, t)"
            by force
          from "1.prems" True False e \<open>r = Inr p\<close> p a Inr sp
          have "if lastApplied n + 1 \<le> i then apply_loop (n2\<lparr>lastApplied := i\<rparr>) = (b, n') else n' = n2"
            by (auto simp: apply_loop.simps [of n])
          then show ?thesis
            using "1.IH"(1) [OF True refl e [symmetric] \<open>r = Inr p\<close> p [symmetric] False a [symmetric] Inr sp [symmetric]]
              \<open>P n2\<close> upd by (auto split: if_splits)
        qed
      qed
    qed
  qed
qed

lemma view_apply_loop: "apply_loop n = (b, n') \<Longrightarrow> view n' = view n"
  by (rule apply_loop_invariant [where P = "\<lambda>m. view m = view n"]) (auto dest!: view_store)


lemma view_snd_store: "keeps_vote m \<Longrightarrow> view (snd (on_store m n)) = view n"
  by (metis prod.collapse view_on_store)

lemma view_compact [simp]: "view (compactIfNeededLocked n) = view n"
  by (auto simp: compactIfNeededLocked_def view_snd_store keeps split: prod.splits sum.splits if_splits
      dest!: view_store)

lemma view_applyCommitted [simp]: "view (applyCommittedLocked n) = view n"
  by (auto simp: applyCommittedLocked_def split: prod.splits dest: view_apply_loop)

lemma view_advance_loop_snd: "view (snd (advance_loop k i left n)) = view n"
proof (induction left arbitrary: i n)
  case (Suc left)
  obtain r n1 where t: "on_store (Term i) n = (r, n1)"
    by force
  then have "view n1 = view n"
    by (auto dest: view_store)
  then show ?case
    by (cases r) (auto simp: t Suc.IH)
qed simp

lemma view_advance_loop: "advance_loop k i left n = (b, n') \<Longrightarrow> view n' = view n"
  by (metis snd_conv view_advance_loop_snd)

lemma view_advanceCommit [simp]: "view (advanceCommitLocked n) = view n"
  by (auto simp: advanceCommitLocked_def Let_def split: prod.splits sum.splits if_splits
      dest!: view_store view_advance_loop)

lemma view_prepare: "replicatePeer_prepare p n = (a, n') \<Longrightarrow> view n' = view n"
  by (auto simp: replicatePeer_prepare_def Let_def split: prod.splits sum.splits if_splits dest!: view_store)

lemma view_Write_begin: "Write_begin req n = (w, n') \<Longrightarrow> view n' = view n"
  by (auto simp: Write_begin_def Let_def split: prod.splits sum.splits if_splits dest!: view_store)

lemma view_Read_finish: "Read_finish req k n = (r, n') \<Longrightarrow> view n' = view n"
  by (auto simp: Read_finish_def split: prod.splits sum.splits if_splits dest!: view_store)

lemma view_Status: "Status n = (r, n') \<Longrightarrow> view n' = view n"
  by (auto simp: Status_def split: prod.splits sum.splits dest!: view_store)

lemma view_run_tick [simp]: "view (snd (run_tick h n)) = view n"
proof -
  obtain t n1 where "time_Now n = (t, n1)"
    by force
  moreover from this have "view n1 = view n"
    by (metis snd_conv view_time_Now)
  ultimately show ?thesis
    by (simp add: run_tick_def Let_def)
qed

lemma view_Start_dial [simp]: "view (Start_dial n) = view n"
  by (simp add: Start_dial_def)

lemma view_append_reject: "append_reject res n = (r, n') \<Longrightarrow> view n' = view n"
  by (auto simp: append_reject_def split: prod.splits dest!: view_store)

lemma view_append_error: "append_error e n = (r, n') \<Longrightarrow> view n' = view n"
  by (auto simp: append_error_def)

lemma view_find_conflict_snd: "view (snd (find_conflict es n)) = view n"
proof (induction es arbitrary: n)
  case (Cons e es)
  obtain r n1 where t: "on_store (Term (entryIndex e)) n = (r, n1)"
    by force
  then have "view n1 = view n"
    by (auto dest: view_store)
  then show ?case
    by (cases r) (auto simp: t Cons.IH split: prod.splits sum.splits dest: view_store)
qed simp

lemma view_find_conflict: "find_conflict es n = (r, n') \<Longrightarrow> view n' = view n"
  by (metis snd_conv view_find_conflict_snd)

lemma view_append_store: "append_store es n = (r, n') \<Longrightarrow> view n' = view n"
  by (auto simp: append_store_def split: prod.splits sum.splits if_splits dest!: view_store view_find_conflict)

lemma view_append_commit: "append_commit req m n = (r, n') \<Longrightarrow> view n' = view n"
  by (auto simp: append_commit_def Let_def split: prod.splits sum.splits if_splits
      dest!: view_store view_append_error)

lemmas view_append = view_append_reject view_append_error view_append_store view_append_commit

section \<open>Operations that may only step down\<close>

text \<open>
  \<open>calm n n'\<close>: no vote is cast and no leadership gained between the two states. Either the view
  is the same except that the role may have gone back to follower, or the term has risen,
  the node follows and has voted for nobody, and the durable rows are the old ones or
  those of a term in between with no vote.
\<close>

definition calm :: "Node \<Rightarrow> Node \<Rightarrow> bool" where
  "calm n n' \<longleftrightarrow> nid n' = nid n \<and> peers n' = peers n
     \<and> (let D = vote_rows (db (store n)); D' = vote_rows (db (store n')) in
        currentTerm n' = currentTerm n \<and> votedFor n' = votedFor n \<and> D' = D
          \<and> (role n' = role n \<or> role n' = RoleFollower)
      \<or> currentTerm n < currentTerm n' \<and> votedFor n' = [] \<and> role n' = RoleFollower
          \<and> (D' = D \<or> D' = vote_rows (save_term_vote (currentTerm n') [] (db (store n)))))"

lemma vote_rows_save: "vote_rows (save_term_vote t v T) = (Some (FormatUint t), Some v)"
  by (simp add: vote_rows_def save_term_vote_def table_simps)

lemma calm_view: "view n' = view n \<Longrightarrow> calm n n'"
  by (auto simp: calm_def view_def Let_def)

lemma calm_then_view: "calm n n' \<Longrightarrow> view n'' = view n' \<Longrightarrow> calm n n''"
  unfolding calm_def view_def Let_def by simp

lemma view_then_calm: "view n' = view n \<Longrightarrow> calm n' n'' \<Longrightarrow> calm n n''"
  unfolding calm_def view_def Let_def by (simp add: vote_rows_save)

lemma calm_stepDown: "calm n (stepDownLocked t l n)"
proof -
  obtain r m where s: "on_store (SaveTermVote t []) (n\<lparr>currentTerm := t, votedFor := []\<rparr>) = (r, m)"
    by force
  then obtain s' where m: "m = n\<lparr>currentTerm := t, votedFor := [], store := s'\<rparr>" and r: "SaveTermVote t [] (store n) = (r, s')"
    by (auto elim!: on_storeE)
  have "vote_rows (db s') = vote_rows (db (store n)) \<or> vote_rows (db s') = vote_rows (save_term_vote t [] (db (store n)))"
    using r SaveTermVote.on_error SaveTermVote.on_success by (cases r) fastforce+
  then have "calm n (if currentTerm n < t then m\<lparr>role := RoleFollower, leaderID := l\<rparr> else n\<lparr>role := RoleFollower, leaderID := l\<rparr>)"
    by (auto simp: calm_def m Let_def)
  then show ?thesis
    by (rule calm_then_view) (simp add: stepDownLocked_def Let_def s)
qed


lemma view_currentTerm: "view n = view m \<Longrightarrow> currentTerm n = currentTerm m"
  by (simp add: view_def)

lemma view_role: "view n = view m \<Longrightarrow> role n = role m"
  by (simp add: view_def)

lemma view_votedFor: "view n = view m \<Longrightarrow> votedFor n = votedFor m"
  by (simp add: view_def)

lemma stepDown_fields [simp]:
  "role (stepDownLocked t l n) = RoleFollower"
  "currentTerm (stepDownLocked t l n) = max t (currentTerm n)"
  "votedFor (stepDownLocked t l n) = (if currentTerm n < t then [] else votedFor n)"
proof -
  obtain r m where s: "on_store (SaveTermVote t []) (n\<lparr>currentTerm := t, votedFor := []\<rparr>) = (r, m)"
    by force
  then obtain s' where "m = n\<lparr>currentTerm := t, votedFor := [], store := s'\<rparr>"
    by (auto elim!: on_storeE)
  with s have "view (stepDownLocked t l n) =
      view (if currentTerm n < t then n\<lparr>currentTerm := t, votedFor := [], store := s', role := RoleFollower\<rparr>
            else n\<lparr>role := RoleFollower\<rparr>)"
    by (simp add: stepDownLocked_def Let_def)
  then show "role (stepDownLocked t l n) = RoleFollower"
    "currentTerm (stepDownLocked t l n) = max t (currentTerm n)"
    "votedFor (stepDownLocked t l n) = (if currentTerm n < t then [] else votedFor n)"
    by (auto simp: view_def max_def split: if_splits)
qed

lemma calm_refl [simp]: "calm n n"
  by (simp add: calm_view)

lemma calm_snapshot_reply:
  assumes "replicatePeer_snapshot_reply p snap resp n = (b, n')"
  shows "calm n n'"
  using assms
  by (auto simp: replicatePeer_snapshot_reply_def Let_def intro!: calm_stepDown intro: calm_view split: if_splits)

lemma calm_append_reply:
  assumes "replicatePeer_append_reply p t sent resp n = (b, n')"
  shows "calm n n'"
  using assms
  by (auto simp: replicatePeer_append_reply_def Let_def intro!: calm_stepDown intro: calm_view
      split: if_splits prod.splits dest!: view_store)

text \<open>The two handlers that follow a leader: what happens after stepping down keeps the view.\<close>

lemma calm_if_stepDown: "calm n (if b then stepDownLocked t l n else n)"
  by (simp add: calm_stepDown)

lemma calm_AppendEntries_rpc:
  assumes "AppendEntries_rpc req n = (r, n')"
  shows "calm n n'"
proof (cases "AppendEntriesRequest_GetTerm req < currentTerm n")
  case True
  with assms show ?thesis
    by (auto simp: AppendEntries_rpc_def intro!: calm_view dest: view_append)
next
  case False
  define n1 where "n1 = (if AppendEntriesRequest_GetTerm req > currentTerm n \<or> role n \<noteq> RoleFollower
      then stepDownLocked (AppendEntriesRequest_GetTerm req) (AppendEntriesRequest_GetLeaderId req) n else n)"
  have "view n' = view n1"
    using assms False unfolding AppendEntries_rpc_def n1_def [symmetric] Let_def
    by (auto split: prod.splits sum.splits if_splits dest!: view_store view_append)
  moreover have "calm n n1"
    unfolding n1_def by (rule calm_if_stepDown)
  ultimately show ?thesis
    by (simp add: calm_then_view)
qed

lemma calm_InstallSnapshot_rpc:
  assumes "InstallSnapshot_rpc req n = (r, n')"
  shows "calm n n'"
proof (cases "InstallSnapshotRequest_GetTerm req < currentTerm n")
  case True
  with assms show ?thesis
    by (auto simp: InstallSnapshot_rpc_def intro!: calm_view)
next
  case False
  define n1 where "n1 = (if InstallSnapshotRequest_GetTerm req > currentTerm n \<or> role n \<noteq> RoleFollower
      then stepDownLocked (InstallSnapshotRequest_GetTerm req) (InstallSnapshotRequest_GetLeaderId req) n else n)"
  have "view n' = view n1"
    using assms False unfolding InstallSnapshot_rpc_def n1_def [symmetric] Let_def
    by (auto split: prod.splits sum.splits if_splits dest!: view_store)
  moreover have "calm n n1"
    unfolding n1_def by (rule calm_if_stepDown)
  ultimately show ?thesis
    by (simp add: calm_then_view)
qed

section \<open>Operations that handle votes\<close>

text \<open>Becoming leader changes the role and the vote, and nothing else of the view.\<close>

lemma view_becomeLeader_peers: "view (fold (becomeLeader_peer i) ps n) = view n"
  by (induction ps arbitrary: n) (auto simp: becomeLeader_peer_def)

lemma view_becomeLeader:
  "view (becomeLeaderLocked n) = view n \<or> view (becomeLeaderLocked n) = view (n\<lparr>role := RoleLeader, votedFor := nid n\<rparr>)"
proof -
  obtain r n1 where s: "on_store LastIndexAndTerm n = (r, n1)"
    by force
  then have v: "view n1 = view n"
    by (auto dest: view_store)
  show ?thesis
  proof (cases r)
    case (Inl e)
    with s v show ?thesis
      by (simp add: becomeLeaderLocked_def)
  next
    case (Inr p)
    have "view (becomeLeaderLocked n) = view (n1\<lparr>role := RoleLeader, leaderID := nid n1, votedFor := nid n1\<rparr>)"
      by (cases p) (simp add: becomeLeaderLocked_def s Inr Let_def view_becomeLeader_peers)
    with v show ?thesis
      by (auto simp: view_def)
  qed
qed

text \<open>
  Starting an election: a leader does nothing; otherwise the node is a candidate of the next
  term with its own vote, and an election only starts when that vote is durable.
\<close>

lemma startElection_begin_view:
  assumes "startElection_begin n = (r, n')" and "role n \<noteq> RoleLeader"
  shows "nid n' = nid n \<and> peers n' = peers n \<and> role n' = RoleCandidate \<and> currentTerm n' = currentTerm n + 1
    \<and> votedFor n' = nid n
    \<and> (vote_rows (db (store n')) = vote_rows (save_term_vote (currentTerm n + 1) (nid n) (db (store n)))
       \<or> r = None \<and> vote_rows (db (store n')) = vote_rows (db (store n)))"
proof -
  let ?n1 = "n\<lparr>role := RoleCandidate, currentTerm := currentTerm n + 1, votedFor := nid n, leaderID := []\<rparr>"
  obtain q n2 where s: "on_store (SaveTermVote (currentTerm n + 1) (nid n)) ?n1 = (q, n2)"
    by force
  then obtain s2 where n2: "n2 = ?n1\<lparr>store := s2\<rparr>" and m: "SaveTermVote (currentTerm n + 1) (nid n) (store n) = (q, s2)"
    by (auto elim!: on_storeE)
  have view2: "view n' = view n2"
    using assms s by (auto simp: startElection_begin_def Let_def split: prod.splits sum.splits dest!: view_store)
  show ?thesis
  proof (cases q)
    case (Inl e)
    with assms s have "r = None"
      by (auto simp: startElection_begin_def Let_def)
    with view2 SaveTermVote.on_error [OF m [unfolded Inl]] show ?thesis
      by (simp add: view_def n2)
  next
    case (Inr u)
    with view2 SaveTermVote.on_success [OF m [unfolded Inr]] show ?thesis
      by (simp add: view_def n2)
  qed
qed

lemma startElection_begin_leader: "role n = RoleLeader \<Longrightarrow> startElection_begin n = (None, n)"
  by (simp add: startElection_begin_def)

lemma startElection_begin_election:
  assumes "startElection_begin n = (Some e, n')"
  shows "role n \<noteq> RoleLeader \<and> eCandidate e = nid n \<and> eTerm e = currentTerm n + 1
    \<and> eMajority e = majorityLocked n \<and> ePeers e = peers n \<and> eVotes e = 1 \<and> \<not> eWon e"
proof -
  have "role n \<noteq> RoleLeader"
    using assms by (auto simp: startElection_begin_def)
  moreover have "eCandidate e = nid n' \<and> eTerm e = currentTerm n + 1 \<and> eMajority e = majorityLocked n'
      \<and> ePeers e = peers n' \<and> eVotes e = 1 \<and> \<not> eWon e"
    using assms by (auto simp: startElection_begin_def Let_def majorityLocked_def split: if_splits prod.splits sum.splits)
  ultimately show ?thesis
    using startElection_begin_view [OF assms] by (simp add: majorityLocked_def)
qed


text \<open>
  \<open>RequestVote\<close> with \<open>m\<close> the node after a possible step down. A vote is granted only when it is
  durable; when saving it failed, the node remembers it in memory but reports an error.
\<close>

definition vote_base :: "RequestVoteRequest option \<Rightarrow> Node \<Rightarrow> Node" where
  "vote_base req n =
     (if RequestVoteRequest_GetTerm req > currentTerm n then stepDownLocked (RequestVoteRequest_GetTerm req) [] n else n)"

lemma calm_vote_base: "calm n (vote_base req n)"
  unfolding vote_base_def by (rule calm_if_stepDown)

definition up_to_date :: "RequestVoteRequest option \<Rightarrow> u64 \<times> u64 \<Rightarrow> bool" where
  "up_to_date req pos \<longleftrightarrow>
     LogPosition (snd pos) (fst pos) \<le> LogPosition (RequestVoteRequest_GetLastLogTerm req) (RequestVoteRequest_GetLastLogIndex req)"

definition may_vote :: "RequestVoteRequest option \<Rightarrow> Node \<Rightarrow> bool" where
  "may_vote req n \<longleftrightarrow> votedFor n = [] \<or> votedFor n = RequestVoteRequest_GetCandidateId req"

definition grant_vote :: "bytes \<Rightarrow> (Node, RequestVoteResponse) action" where
  "grant_vote c n =
     (case on_store (SaveTermVote (currentTerm n) c) (n\<lparr>votedFor := c\<rparr>) of
        (Inl err, n1) \<Rightarrow> (Inl (wrapInternal err), inc_rpc ''RequestVote'' ''error'' n1)
      | (Inr _, n1) \<Rightarrow>
          let n2 = refreshMetricsLocked (resetElectionDeadlineLocked n1) in
          (Inr \<lparr>rvrTerm = currentTerm n2, rvrVoteGranted = True\<rparr>, inc_rpc ''RequestVote'' ''granted'' n2))"

lemma RequestVote_cases:
  assumes "\<not> RequestVoteRequest_GetTerm req < currentTerm n" and "on_store LastIndexAndTerm (vote_base req n) = (q, m)"
  shows "RequestVote req n =
    (case q of
       Inl err \<Rightarrow> (Inl (wrapInternal err), inc_rpc ''RequestVote'' ''error'' m)
     | Inr pos \<Rightarrow>
         if may_vote req m \<and> up_to_date req pos then grant_vote (RequestVoteRequest_GetCandidateId req) m
         else (Inr \<lparr>rvrTerm = currentTerm m, rvrVoteGranted = False\<rparr>, inc_rpc ''RequestVote'' ''rejected'' m))"
  using assms unfolding vote_base_def
  by (auto simp: RequestVote_def Let_def may_vote_def up_to_date_def less_eq_log_position_iff grant_vote_def
      split: sum.splits prod.splits)

definition granted :: "RequestVoteResponse result \<Rightarrow> bool" where
  "granted r \<longleftrightarrow> (case r of Inl _ \<Rightarrow> False | Inr x \<Rightarrow> rvrVoteGranted x)"

lemma grant_vote_view:
  assumes "grant_vote c n = (r, n')"
  shows "view n' = (nid n, peers n, role n, currentTerm n, c,
      if granted r then vote_rows (save_term_vote (currentTerm n) c (db (store n))) else vote_rows (db (store n)))"
proof -
  obtain z m where s: "on_store (SaveTermVote (currentTerm n) c) (n\<lparr>votedFor := c\<rparr>) = (z, m)"
    by force
  then obtain s' where m: "m = n\<lparr>votedFor := c, store := s'\<rparr>" and save: "SaveTermVote (currentTerm n) c (store n) = (z, s')"
    by (auto elim!: on_storeE)
  have n': "view n' = view m" and g: "granted r \<longleftrightarrow> (\<exists>u. z = Inr u)"
    using assms s by (auto simp: grant_vote_def granted_def Let_def split: sum.splits)
  show ?thesis
  proof (cases z)
    case (Inl e)
    with n' g SaveTermVote.on_error [OF save [unfolded Inl]] show ?thesis
      by (simp add: m view_def)
  next
    case (Inr u)
    then have "db s' = save_term_vote (currentTerm n) c (db (store n))"
      using SaveTermVote.on_success [of "currentTerm n" c "store n" u s'] save by simp
    with n' g Inr show ?thesis
      by (simp add: m view_def)
  qed
qed

lemma RequestVote_view:
  assumes "RequestVote req n = (r, n')"
  shows "\<not> granted r \<and> calm n n'
    \<or> (\<exists>m. calm n m \<and> currentTerm m = RequestVoteRequest_GetTerm req \<and> may_vote req m
        \<and> view n' = (nid m, peers m, role m, currentTerm m, RequestVoteRequest_GetCandidateId req,
            if granted r then vote_rows (save_term_vote (currentTerm m) (RequestVoteRequest_GetCandidateId req) (db (store m)))
            else vote_rows (db (store m))))"
proof (cases "RequestVoteRequest_GetTerm req < currentTerm n")
  case True
  with assms show ?thesis
    by (auto simp: RequestVote_def granted_def intro!: calm_view)
next
  case False
  obtain q m where s: "on_store LastIndexAndTerm (vote_base req n) = (q, m)"
    by force
  then have v: "view m = view (vote_base req n)"
    by (auto dest: view_store)
  then have calm: "calm n m"
    using calm_vote_base [of n req] by (simp add: calm_then_view)
  have t: "currentTerm m = RequestVoteRequest_GetTerm req"
    using v False by (auto simp: view_def vote_base_def split: if_splits)
  show ?thesis
  proof (cases "\<exists>pos. q = Inr pos \<and> may_vote req m \<and> up_to_date req pos")
    case True
    then have "grant_vote (RequestVoteRequest_GetCandidateId req) m = (r, n')"
      using assms by (auto simp: RequestVote_cases [OF False s])
    with grant_vote_view calm t True show ?thesis
      by blast
  next
    case False': False
    then have "\<not> granted r \<and> view n' = view m"
      using assms by (auto simp: RequestVote_cases [OF False s] granted_def split: sum.splits if_splits)
    with calm show ?thesis
      by (blast intro: calm_then_view)
  qed
qed

section \<open>Votes are not forgotten\<close>

text \<open>
  A node and its database agree on the vote: the durable term is at most the term in memory,
  and a durable vote of the same term is the one in memory. A candidate or leader has voted
  for itself.
\<close>

definition vote_ok :: "Node \<Rightarrow> bool" where
  "vote_ok n \<longleftrightarrow> nid n \<noteq> [] \<and> (role n \<noteq> RoleFollower \<longrightarrow> votedFor n = nid n)
     \<and> (\<exists>t v. durable (db (store n)) = Inr (t, v) \<and> t \<le> currentTerm n
          \<and> (t = currentTerm n \<and> v \<noteq> [] \<longrightarrow> votedFor n = v))"

text \<open>The files still rule out any vote in \<open>t\<close> for another candidate than \<open>c\<close>.\<close>

definition remembers :: "tables \<Rightarrow> u64 \<Rightarrow> bytes \<Rightarrow> bool" where
  "remembers T t c \<longleftrightarrow> (\<exists>pt pv. durable T = Inr (pt, pv) \<and> (t < pt \<or> t = pt \<and> pv = c))"

lemma durable_rows_save: "vote_rows T' = vote_rows (save_term_vote t v T) \<Longrightarrow> durable T' = Inr (t, v)"
  by (metis durable_cong durable_save)

lemma vote_ok_cong: "view n' = view n \<Longrightarrow> vote_ok n' = vote_ok n"
  using durable_cong [of "db (store n')" "db (store n)"] by (simp add: vote_ok_def view_def)

lemma remembers_cong: "vote_rows T' = vote_rows T \<Longrightarrow> remembers T' t c = remembers T t c"
  using durable_cong [of T' T] by (simp add: remembers_def)

lemma calm_vote_ok:
  assumes "calm n n'" and "vote_ok n"
  shows "vote_ok n'" and "remembers (db (store n)) t c \<Longrightarrow> remembers (db (store n')) t c"
proof -
  have D: "durable (db (store n')) = durable (db (store n))
      \<or> currentTerm n < currentTerm n' \<and> durable (db (store n')) = Inr (currentTerm n', [])"
    using assms(1) by (auto simp: calm_def Let_def intro: durable_cong durable_rows_save)
  then show "vote_ok n'"
    using assms by (auto simp: calm_def vote_ok_def Let_def)
  show "remembers (db (store n)) t c \<Longrightarrow> remembers (db (store n')) t c"
    using D assms(2) by (auto simp: remembers_def vote_ok_def)
qed

text \<open>Two kinds of operations write a new vote: starting an election and answering a request.\<close>

lemma new_vote_ok:
  assumes ok: "vote_ok n" and t: "currentTerm n < currentTerm n' \<or> currentTerm n = currentTerm n' \<and> (votedFor n = [] \<or> votedFor n = votedFor n')"
    and D: "durable (db (store n')) = durable (db (store n)) \<or> durable (db (store n')) = Inr (currentTerm n', votedFor n')"
    and n': "nid n' = nid n" "role n' \<noteq> RoleFollower \<Longrightarrow> votedFor n' = nid n'"
  shows "vote_ok n'" and "c \<noteq> [] \<Longrightarrow> remembers (db (store n)) u c \<Longrightarrow> remembers (db (store n')) u c"
proof -
  from ok obtain pt pv where pt: "durable (db (store n)) = Inr (pt, pv)" "pt \<le> currentTerm n"
    and pv: "pt = currentTerm n \<Longrightarrow> pv \<noteq> [] \<Longrightarrow> votedFor n = pv"
    by (auto simp: vote_ok_def)
  have keep: "pt < currentTerm n' \<or> pt = currentTerm n' \<and> (pv = [] \<or> pv = votedFor n')"
    using t pt(2) pv by (cases "pt = currentTerm n") auto
  have "nid n' \<noteq> []"
    using ok n' by (simp add: vote_ok_def)
  from D show "vote_ok n'"
  proof
    assume "durable (db (store n')) = durable (db (store n))"
    with pt keep n' \<open>nid n' \<noteq> []\<close> show ?thesis
      by (auto simp: vote_ok_def)
  next
    assume "durable (db (store n')) = Inr (currentTerm n', votedFor n')"
    with n' \<open>nid n' \<noteq> []\<close> show ?thesis
      by (auto simp: vote_ok_def)
  qed
  assume "c \<noteq> []" and "remembers (db (store n)) u c"
  then have "u < pt \<or> u = pt \<and> pv = c"
    by (auto simp: remembers_def pt(1))
  with keep \<open>c \<noteq> []\<close> have "u < currentTerm n' \<or> u = currentTerm n' \<and> votedFor n' = c"
    by auto
  with D \<open>remembers (db (store n)) u c\<close> show "remembers (db (store n')) u c"
    by (auto simp: remembers_def)
qed

lemma begin_vote_ok:
  assumes "startElection_begin n = (r, n')" and "vote_ok n" and "currentTerm n \<noteq> - 1"
  shows "vote_ok n'" and "c \<noteq> [] \<Longrightarrow> remembers (db (store n)) t c \<Longrightarrow> remembers (db (store n')) t c"
proof -
  have less: "currentTerm n < currentTerm n + 1"
    using assms(3) by (simp add: u64_less_Suc word_order.not_eq_extremum)
  have "vote_ok n' \<and> (c \<noteq> [] \<longrightarrow> remembers (db (store n)) t c \<longrightarrow> remembers (db (store n')) t c)"
  proof (cases "role n = RoleLeader")
    case True
    then show ?thesis
      using assms(1,2) by (simp add: startElection_begin_leader)
  next
    case False
    note v = startElection_begin_view [OF assms(1) False]
    then have "durable (db (store n')) = durable (db (store n)) \<or> durable (db (store n')) = Inr (currentTerm n', votedFor n')"
      by (auto intro: durable_cong durable_rows_save)
    with v less show ?thesis
      using new_vote_ok [OF assms(2), of n'] by auto
  qed
  then show "vote_ok n'" "c \<noteq> [] \<Longrightarrow> remembers (db (store n)) t c \<Longrightarrow> remembers (db (store n')) t c"
    by auto
qed

lemma begin_durable:
  assumes "startElection_begin n = (Some e, n')"
  shows "durable (db (store n')) = Inr (eTerm e, eCandidate e)"
proof -
  note e = startElection_begin_election [OF assms]
  with startElection_begin_view [OF assms] show ?thesis
    by (auto dest: durable_rows_save)
qed

lemma RequestVote_vote_ok:
  assumes "RequestVote req n = (r, n')" and "vote_ok n" and cand: "RequestVoteRequest_GetCandidateId req \<noteq> []"
  shows "vote_ok n'" and "c \<noteq> [] \<Longrightarrow> remembers (db (store n)) t c \<Longrightarrow> remembers (db (store n')) t c"
    and "granted r \<Longrightarrow> durable (db (store n')) = Inr (RequestVoteRequest_GetTerm req, RequestVoteRequest_GetCandidateId req)"
proof -
  let ?c = "RequestVoteRequest_GetCandidateId req"
  from RequestVote_view [OF assms(1)]
  have "vote_ok n' \<and> (c \<noteq> [] \<longrightarrow> remembers (db (store n)) t c \<longrightarrow> remembers (db (store n')) t c)
    \<and> (granted r \<longrightarrow> durable (db (store n')) = Inr (RequestVoteRequest_GetTerm req, ?c))"
  proof (elim disjE conjE exE)
    assume "\<not> granted r" "calm n n'"
    then show ?thesis
      using calm_vote_ok assms(2) by blast
  next
    fix m
    assume calm: "calm n m" and t: "currentTerm m = RequestVoteRequest_GetTerm req" and may: "may_vote req m"
      and v: "view n' = (nid m, peers m, role m, currentTerm m, ?c,
          if granted r then vote_rows (save_term_vote (currentTerm m) ?c (db (store m))) else vote_rows (db (store m)))"
    note m = calm_vote_ok [OF calm assms(2)]
    from v have D: "durable (db (store n')) = (if granted r then Inr (currentTerm m, ?c) else durable (db (store m)))"
      by (auto simp: view_def split: if_splits intro: durable_cong durable_rows_save)
    have "role n' \<noteq> RoleFollower \<longrightarrow> votedFor n' = nid n'"
      using v may m(1) by (auto simp: view_def may_vote_def vote_ok_def)
    with v may D have "vote_ok n'" "c \<noteq> [] \<longrightarrow> remembers (db (store m)) t c \<longrightarrow> remembers (db (store n')) t c"
      using new_vote_ok [OF m(1), of n'] by (auto simp: view_def may_vote_def split: if_splits)
    with m(2) D t show ?thesis
      by auto
  qed
  then show "vote_ok n'" "c \<noteq> [] \<Longrightarrow> remembers (db (store n)) t c \<Longrightarrow> remembers (db (store n')) t c"
    "granted r \<Longrightarrow> durable (db (store n')) = Inr (RequestVoteRequest_GetTerm req, ?c)"
    by auto
qed


section \<open>Counting votes\<close>

definition leads :: "Node \<Rightarrow> Node \<Rightarrow> bool" where
  "leads n n' \<longleftrightarrow> role n = RoleCandidate \<and> view n' = view (n\<lparr>role := RoleLeader, votedFor := nid n\<rparr>)"

lemma becomeLeader_leads: "role n = RoleCandidate \<Longrightarrow> view (becomeLeaderLocked n) = view n \<or> leads n (becomeLeaderLocked n)"
  using view_becomeLeader [of n] by (simp add: leads_def)

lemma leads_vote_ok:
  assumes "leads n n'" and "vote_ok n"
  shows "vote_ok n'" and "remembers (db (store n')) t c = remembers (db (store n)) t c"
proof -
  have "view n' = view (n\<lparr>role := RoleLeader\<rparr>)"
    using assms by (simp add: leads_def vote_ok_def view_def)
  moreover have "vote_ok (n\<lparr>role := RoleLeader\<rparr>)"
    using assms by (auto simp: leads_def vote_ok_def)
  ultimately show "vote_ok n'"
    using vote_ok_cong by blast
  show "remembers (db (store n')) t c = remembers (db (store n)) t c"
    using assms(1) by (intro remembers_cong) (simp add: leads_def view_def)
qed

lemma startElection_reply_cases:
  assumes "startElection_reply resp e n = (e', n')"
  shows "eCandidate e' = eCandidate e \<and> eTerm e' = eTerm e \<and> eMajority e' = eMajority e \<and> ePeers e' = ePeers e
    \<and> eVotes e' = eVotes e + (if role n = RoleCandidate \<and> currentTerm n = eTerm e
          \<and> RequestVoteResponse_GetVoteGranted resp \<and> RequestVoteResponse_GetTerm resp \<le> currentTerm n then 1 else 0)
    \<and> (calm n n' \<or> leads n n' \<and> currentTerm n = eTerm e \<and> eMajority e \<le> eVotes e')"
  using assms becomeLeader_leads [of n]
  by (auto simp: startElection_reply_def Let_def calm_stepDown not_less intro: calm_view split: if_splits)

lemma startElection_single_cases:
  "calm n (startElection_single e n)
     \<or> leads n (startElection_single e n) \<and> currentTerm n = eTerm e \<and> eMajority e = 1"
  using becomeLeader_leads [of n] by (auto simp: startElection_single_def intro: calm_view)

section \<open>Restarting\<close>

lemma exec_invariant:
  assumes "exec f s = (r, s')" and "\<And>T. Q (f T) = Q T"
  shows "Q (db s') = Q (db s)"
  using assms by (auto simp: exec_def split: prod.splits if_splits dest: db_call_cases)

lemma exec_all_invariant:
  assumes "exec_all fs s = (r, s')" and "\<And>f T. f \<in> set fs \<Longrightarrow> Q (f T) = Q T"
  shows "Q (db s') = Q (db s)"
  using assms
proof (induction fs arbitrary: s)
  case (Cons f fs)
  have f: "Q (db t) = Q (db s)" if "exec f s = (q, t)" for q t
    by (rule exec_invariant [OF that]) (use Cons.prems(2) in simp)
  from Cons.prems(1) have "and_then (exec f) (\<lambda>_. exec_all fs) s = (r, s')"
    by simp
  then show ?case
  proof (cases rule: and_then_cases)
    case (err e)
    with f show ?thesis by blast
  next
    case (ok x t)
    have "Q (db s') = Q (db t)"
      using Cons.IH [OF ok(2)] Cons.prems(2) by simp
    with f [OF ok(1)] show ?thesis by simp
  qed
qed (simp add: ret_def)

lemma init_durable:
  assumes "init order s = (r, s')" and "set order = set defaults"
  shows "durable (db s') = durable (db s)"
proof -
  have d: "durable ((case p of (key, v) \<Rightarrow> insert_or_ignore_meta key v) T) = durable T" if "p \<in> set order" for p T
    using that assms(2) by (auto split: prod.splits intro!: durable_insert_default)
  have pragmas: "durable (db t) = durable (db s)" if "exec_all (replicate 6 (\<lambda>T. T)) s = (q, t)" for q t
    by (rule exec_all_invariant [OF that]) simp
  have rows: "durable (db t') = durable (db t)"
    if "exec_all (map (\<lambda>(key, v). insert_or_ignore_meta key v) order) t = (q, t')" for q t t'
    by (rule exec_all_invariant [OF that]) (use d in auto)
  from assms(1) show ?thesis
    unfolding init_def
  proof (cases rule: and_then_cases)
    case (err e)
    with pragmas show ?thesis by blast
  next
    case (ok x t)
    with pragmas [OF ok(1)] rows [OF ok(2)] show ?thesis by simp
  qed
qed

lemma Open_durable:
  assumes "Open order T script = (r, T')" and "set order = set defaults"
  shows "durable T' = durable T"
proof -
  let ?s = "\<lparr>db = T, faults = script, is_open = True\<rparr>"
  obtain q t where q: "and_then (exec (\<lambda>T. T)) (\<lambda>_. exec (\<lambda>T. T)) ?s = (q, t)"
    by force
  then have "db t = T"
    using exec_invariant [where Q = "\<lambda>T. T" and f = "\<lambda>T. T"] by (elim and_then_cases) fastforce+
  with q assms show ?thesis
    by (auto simp: Open_def Let_def split: sum.splits prod.splits dest: init_durable)
qed


lemma New_running:
  assumes "New opts order T script clk rnd = (Inr n, T')" and "set order = set defaults"
  shows "nid n = optNodeID opts \<and> nid n \<noteq> [] \<and> peers n = optPeers opts \<and> role n = RoleFollower
    \<and> durable T = Inr (currentTerm n, votedFor n) \<and> durable (db (store n)) = durable T \<and> T' = db (store n)"
proof -
  obtain s T1 where o: "Open order T script = (Inr s, T1)"
    using assms(1) by (auto simp: New_def split: if_splits prod.splits sum.splits)
  then have T: "db s = fill_defaults order T"
    by (simp add: Open_success)
  obtain t v s1 a s2 where c: "CurrentTermVote s = (Inr (t, v), s1)" and l: "LastApplied s1 = (Inr a, s2)"
    using assms(1) o by (auto simp: New_def split: if_splits prod.splits sum.splits)
  have tv: "durable T = Inr (t, v)" and s1: "db s1 = db s"
    using CurrentTermVote.on_success [OF c] by (auto simp: T term_vote_fill [OF assms(2)])
  have s2: "db s2 = db s"
    using LastApplied.on_success [OF l] s1 by simp
  obtain n0 where n: "n = refreshMetricsLocked (resetElectionDeadlineLocked n0)" "T' = db (store n)"
    and n0: "nid n0 = optNodeID opts" "nid n0 \<noteq> []" "peers n0 = optPeers opts" "role n0 = RoleFollower"
      "currentTerm n0 = t" "votedFor n0 = v" "store n0 = s2"
    using assms(1) by (auto simp: New_def o c l Let_def split: if_splits)
  have v: "view n = view n0"
    by (simp add: n)
  then have "durable (db (store n)) = durable (db s2)"
    using n0 by (intro durable_cong) (simp add: view_def)
  also have "\<dots> = durable T"
    using Open_durable [OF o assms(2)] Open_success [OF o] s2 by simp
  finally show ?thesis
    using v n0 tv n(2) by (simp add: view_def)
qed

lemma New_failed:
  assumes "New opts order T script clk rnd = (Inl e, T')" and "set order = set defaults"
  shows "durable T' = durable T"
  using assms Open_durable [of order T script]
  by (auto simp: New_def Let_def db_Close split: if_splits prod.splits sum.splits
      dest!: CurrentTermVote.on_error CurrentTermVote.on_success LastApplied.on_error Open_success)

end
