(* ===== verification/Raft_Live.thy ===== *)
theory Raft_Live
  imports Raft_View
begin

text \<open>
  What the critical sections do when the database reports no error: they return, votes are
  granted exactly when they should be, and elections are won.
\<close>

definition node_ok :: "Node \<Rightarrow> bool" where
  "node_ok n \<longleftrightarrow> healthy (store n) \<and> wf_tables (db (store n))"

lemma last_pos_ok: "wf_tables T \<Longrightarrow> \<exists>i t. last_pos T = Inr (i, t)"
  using snap_pos_ok [of T] by (auto simp: last_pos_def wf_tables_def)

text \<open>A method that implements a specification, run on a node whose database is well.\<close>

lemma on_store_ok:
  assumes "implements m w" and "healthy (store n)"
  shows "\<exists>s'. on_store m n = (fst (w (db (store n))), n\<lparr>store := s'\<rparr>) \<and> db s' = snd (w (db (store n))) \<and> healthy s'"
proof -
  obtain r s' where r: "m (store n) = (r, s')"
    by force
  with assms have "(r, db s') = w (db (store n))" "healthy s'"
    unfolding implements_def by blast+
  then show ?thesis
    by (intro exI [of _ s']) (auto simp: on_store_def r dest: sym)
qed

lemma on_store_read:
  assumes "implements m (\<lambda>T. (q T, T))" and "node_ok n"
  shows "\<exists>s'. on_store m n = (q (db (store n)), n\<lparr>store := s'\<rparr>) \<and> db s' = db (store n) \<and> healthy s'"
  using on_store_ok [OF assms(1)] assms(2) by (simp add: node_ok_def)

lemma on_store_LastIndexAndTerm:
  assumes "node_ok n"
  obtains i t s' where "on_store LastIndexAndTerm n = (Inr (i, t), n\<lparr>store := s'\<rparr>)"
    and "last_pos (db (store n)) = Inr (i, t)" and "db s' = db (store n)" and "healthy s'"
  using on_store_read [OF implements_LastIndexAndTerm assms] last_pos_ok [of "db (store n)"] assms
  by (auto simp: node_ok_def)

lemma store_time_Now [simp]: "store (snd (time_Now n)) = store n"
  by (auto simp: time_Now_def split: list.splits)

lemma store_rand [simp]: "store (snd (rand_Int63n k n)) = store n"
  by (auto simp: rand_Int63n_def split: list.splits)

lemma store_reset [simp]: "store (resetElectionDeadlineLocked n) = store n"
  by (auto simp: resetElectionDeadlineLocked_def Let_def split_beta)

lemma refresh_store:
  "db (store (refreshMetricsLocked n)) = db (store n)"
  "healthy (store n) \<Longrightarrow> healthy (store (refreshMetricsLocked n))"
proof -
  obtain r s' where r: "LastIndexAndTerm (store n) = (r, s')"
    by force
  then have st: "store (refreshMetricsLocked n) = s'"
    by (simp add: refreshMetricsLocked_def on_store_def Let_def)
  show "db (store (refreshMetricsLocked n)) = db (store n)"
  proof (cases r)
    case (Inl e)
    then show ?thesis
      unfolding st using r LastIndexAndTerm.on_error by simp
  next
    case (Inr p)
    then show ?thesis
      unfolding st using r LastIndexAndTerm.on_success [of "store n" p s'] by simp
  qed
  show "healthy (store n) \<Longrightarrow> healthy (store (refreshMetricsLocked n))"
    unfolding st using LastIndexAndTerm.when_healthy [of "store n"] r by auto
qed

lemma node_ok_updates [simp]:
  "node_ok (n\<lparr>metrics := x1\<rparr>) = node_ok n" "node_ok (n\<lparr>leaderID := x2\<rparr>) = node_ok n"
  "node_ok (n\<lparr>role := x3\<rparr>) = node_ok n" "node_ok (n\<lparr>currentTerm := x4\<rparr>) = node_ok n"
  "node_ok (n\<lparr>votedFor := x2\<rparr>) = node_ok n" "node_ok (n\<lparr>spawned := x5\<rparr>) = node_ok n"
  "node_ok (n\<lparr>matchIndex := x6\<rparr>) = node_ok n" "node_ok (n\<lparr>nextIndex := x6\<rparr>) = node_ok n"
  "node_ok (n\<lparr>commitIndex := x4\<rparr>) = node_ok n" "node_ok (n\<lparr>lastApplied := x4\<rparr>) = node_ok n"
  "node_ok (resetElectionDeadlineLocked n) = node_ok n"
  by (simp_all add: node_ok_def)

lemma node_ok_refresh: "node_ok n \<Longrightarrow> node_ok (refreshMetricsLocked n)"
  by (simp add: node_ok_def refresh_store)

lemma node_ok_inc_rpc [simp]: "node_ok (inc_rpc m r n) = node_ok n"
  by (simp add: inc_rpc_def)

lemma on_store_SaveTermVote:
  assumes "node_ok n"
  obtains s' where "on_store (SaveTermVote t v) n = (Inr (), n\<lparr>store := s'\<rparr>)"
    and "db s' = save_term_vote t v (db (store n))" and "healthy s'" and "wf_tables (db s')"
  using on_store_ok [OF implements_SaveTermVote, of n t v] assms by (auto simp: node_ok_def)

lemma last_pos_save [simp]: "last_pos (save_term_vote t v T) = last_pos T"
proof -
  have "snap_pos (save_term_vote t v T) = snap_pos T"
    by (simp add: snap_pos_def save_term_vote_def meta_uint_other split: sum.splits)
  then show ?thesis
    by (simp add: last_pos_def save_term_vote_def)
qed

section \<open>Voting\<close>

lemma stepDown_store:
  assumes "node_ok n"
  shows "node_ok (stepDownLocked t l n)" and "last_pos (db (store (stepDownLocked t l n))) = last_pos (db (store n))"
proof -
  obtain s' where s: "on_store (SaveTermVote t []) (n\<lparr>currentTerm := t, votedFor := []\<rparr>) = (Inr (), n\<lparr>currentTerm := t, votedFor := [], store := s'\<rparr>)"
    "db s' = save_term_vote t [] (db (store n))" "healthy s'" "wf_tables (db s')"
    using on_store_SaveTermVote [of "n\<lparr>currentTerm := t, votedFor := []\<rparr>" t "[]"] assms by auto
  have "db (store (stepDownLocked t l n)) = (if currentTerm n < t then db s' else db (store n))"
    and "healthy (store (stepDownLocked t l n))"
    using assms s(3) by (auto simp: stepDownLocked_def Let_def s(1) refresh_store node_ok_def)
  then show "node_ok (stepDownLocked t l n)" "last_pos (db (store (stepDownLocked t l n))) = last_pos (db (store n))"
    using assms s by (auto simp: node_ok_def)
qed

lemma vote_base_ok:
  assumes "node_ok n"
  shows "node_ok (vote_base req n)" and "last_pos (db (store (vote_base req n))) = last_pos (db (store n))"
  using assms stepDown_store by (auto simp: vote_base_def)

lemma grant_vote_ok:
  assumes "node_ok n"
  shows "\<exists>n'. grant_vote c n = (Inr \<lparr>rvrTerm = currentTerm n, rvrVoteGranted = True\<rparr>, n') \<and> node_ok n'"
proof -
  have "node_ok (n\<lparr>votedFor := c\<rparr>)"
    using assms by simp
  then obtain s' where s: "on_store (SaveTermVote (currentTerm n) c) (n\<lparr>votedFor := c\<rparr>) = (Inr (), n\<lparr>votedFor := c, store := s'\<rparr>)"
    and s': "healthy s'" "wf_tables (db s')"
    by (rule on_store_SaveTermVote)
  let ?n = "refreshMetricsLocked (resetElectionDeadlineLocked (n\<lparr>votedFor := c, store := s'\<rparr>))"
  have "currentTerm ?n = currentTerm (n\<lparr>votedFor := c, store := s'\<rparr>)"
    by (rule view_currentTerm) simp
  moreover have "node_ok ?n"
    using s' by (intro node_ok_refresh) (simp add: node_ok_def)
  ultimately show ?thesis
    by (simp add: grant_vote_def s Let_def del: Node.update_convs)
qed

text \<open>
  C11: with a working database a vote is granted exactly when the request is not of an older
  term, the node has not given its vote of that term to somebody else, and the candidate's
  log is at least as up to date as its own (the last terms are compared first, then the
  last indices); and every request gets an answer.
\<close>

theorem RequestVote_grants_iff:
  assumes "node_ok n"
  shows "\<exists>x n' i t. RequestVote req n = (Inr x, n') \<and> node_ok n' \<and> last_pos (db (store n)) = Inr (i, t)
    \<and> rvrTerm x = currentTerm n' \<and> currentTerm n' = max (RequestVoteRequest_GetTerm req) (currentTerm n)
    \<and> (rvrVoteGranted x \<longleftrightarrow>
        RequestVoteRequest_GetTerm req \<ge> currentTerm n
        \<and> (RequestVoteRequest_GetTerm req > currentTerm n \<or> votedFor n = [] \<or> votedFor n = RequestVoteRequest_GetCandidateId req)
        \<and> LogPosition t i \<le> LogPosition (RequestVoteRequest_GetLastLogTerm req) (RequestVoteRequest_GetLastLogIndex req))"
proof (cases "RequestVoteRequest_GetTerm req < currentTerm n")
  case True
  obtain i t where "last_pos (db (store n)) = Inr (i, t)"
    using last_pos_ok [of "db (store n)"] assms by (auto simp: node_ok_def)
  with True assms show ?thesis
    by (auto simp: RequestVote_def inc_rpc_def max_def)
next
  case False
  let ?b = "vote_base req n"
  obtain i t s' where s: "on_store LastIndexAndTerm ?b = (Inr (i, t), ?b\<lparr>store := s'\<rparr>)"
    and pos: "last_pos (db (store n)) = Inr (i, t)" and s': "db s' = db (store ?b)" "healthy s'"
    using on_store_LastIndexAndTerm [OF vote_base_ok(1) [OF assms]] vote_base_ok(2) [OF assms, of req] by metis
  let ?m = "?b\<lparr>store := s'\<rparr>"
  have ok: "node_ok ?m"
    using vote_base_ok(1) [OF assms, of req] s' by (simp add: node_ok_def)
  have m: "currentTerm ?m = max (RequestVoteRequest_GetTerm req) (currentTerm n)"
    "may_vote req ?m \<longleftrightarrow> RequestVoteRequest_GetTerm req > currentTerm n \<or> may_vote req n"
    using False by (auto simp: vote_base_def may_vote_def max_def)
  obtain g where g: "grant_vote (RequestVoteRequest_GetCandidateId req) ?m = (Inr \<lparr>rvrTerm = currentTerm ?m, rvrVoteGranted = True\<rparr>, g)" "node_ok g"
    using grant_vote_ok [OF ok] by blast
  then have "currentTerm g = currentTerm ?m"
    using grant_vote_view [OF g(1)] by (simp add: view_def)
  with False pos g ok m show ?thesis
    by (auto simp: RequestVote_cases [OF False s] up_to_date_def may_vote_def inc_rpc_def)
qed


section \<open>Winning an election\<close>

lemma store_becomeLeader_peers [simp]: "store (fold (becomeLeader_peer i) ps n) = store n"
  by (induction ps arbitrary: n) (auto simp: becomeLeader_peer_def)

lemma becomeLeader_ok:
  assumes "node_ok n"
  shows "role (becomeLeaderLocked n) = RoleLeader \<and> currentTerm (becomeLeaderLocked n) = currentTerm n
    \<and> node_ok (becomeLeaderLocked n)"
proof -
  obtain i t s' where s: "on_store LastIndexAndTerm n = (Inr (i, t), n\<lparr>store := s'\<rparr>)" "db s' = db (store n)" "healthy s'"
    using on_store_LastIndexAndTerm [OF assms] by metis
  define m where "m = n\<lparr>store := s', role := RoleLeader, leaderID := nid n, votedFor := nid n\<rparr>"
  define k where "k = fold (becomeLeader_peer i) (peers n) m"
  have run: "becomeLeaderLocked n =
      (let n4 = refreshMetricsLocked (k\<lparr>matchIndex := (matchIndex k)(nid k := i)\<rparr>) in n4\<lparr>spawned := spawned n4 @ [ReplicateAllOnce]\<rparr>)"
    by (simp add: becomeLeaderLocked_def s m_def k_def Let_def)
  have "view (becomeLeaderLocked n) = view m"
    by (simp add: run Let_def k_def view_becomeLeader_peers)
  then have "role (becomeLeaderLocked n) = RoleLeader \<and> currentTerm (becomeLeaderLocked n) = currentTerm n"
    by (simp add: view_def m_def)
  moreover have "node_ok m"
    using assms s by (simp add: node_ok_def m_def)
  then have "node_ok (becomeLeaderLocked n)"
    by (simp add: run Let_def k_def node_ok_def refresh_store)
  ultimately show ?thesis
    by simp
qed

lemma begin_ok:
  assumes "node_ok n" and "role n \<noteq> RoleLeader"
  shows "\<exists>e n'. startElection_begin n = (Some e, n') \<and> node_ok n'"
proof -
  define m where "m = n\<lparr>role := RoleCandidate, currentTerm := currentTerm n + 1, votedFor := nid n, leaderID := []\<rparr>"
  have "node_ok m"
    using assms(1) by (simp add: m_def)
  then obtain s1 where s1: "on_store (SaveTermVote (currentTerm m) (votedFor m)) m = (Inr (), m\<lparr>store := s1\<rparr>)"
    and ok1: "healthy s1" "wf_tables (db s1)"
    by (rule on_store_SaveTermVote)
  then have "node_ok (m\<lparr>store := s1\<rparr>)"
    by (simp add: node_ok_def)
  then obtain i t s2 where s2: "on_store LastIndexAndTerm (m\<lparr>store := s1\<rparr>) = (Inr (i, t), m\<lparr>store := s1\<rparr>\<lparr>store := s2\<rparr>)"
    and ok2: "db s2 = db (store (m\<lparr>store := s1\<rparr>))" "healthy s2"
    by (rule on_store_LastIndexAndTerm)
  have "node_ok (m\<lparr>store := s2\<rparr>)"
    using ok1 ok2 by (simp add: node_ok_def)
  with assms(2) s1 s2 show ?thesis
    by (simp add: startElection_begin_def m_def [symmetric] Let_def node_ok_refresh)
qed

text \<open>The answers of the peers, taken one after the other.\<close>

definition take_replies :: "RequestVoteResponse list \<Rightarrow> Election \<times> Node \<Rightarrow> Election \<times> Node" where
  "take_replies rs = fold (\<lambda>r (e, n). startElection_reply (Some r) e n) rs"

lemma take_replies_leader:
  assumes "role n = RoleLeader" and "\<forall>r \<in> set rs. rvrTerm r \<le> currentTerm n"
  shows "take_replies rs (e, n) = (e, n)"
  using assms by (induction rs) (auto simp: take_replies_def startElection_reply_def)

lemma take_replies_wins:
  assumes "node_ok n" and "role n = RoleCandidate" and "eTerm e = currentTerm n" and "\<not> eWon e"
    and "\<forall>r \<in> set rs. rvrTerm r \<le> currentTerm n"
    and "eVotes e < eMajority e" and "eMajority e \<le> eVotes e + int (length (filter rvrVoteGranted rs))"
  shows "role (snd (take_replies rs (e, n))) = RoleLeader"
  using assms
proof (induction rs arbitrary: e n)
  case (Cons r rs)
  show ?case
  proof (cases "rvrVoteGranted r")
    case False
    then have "startElection_reply (Some r) e n = (e, n)"
      using Cons.prems by (auto simp: startElection_reply_def)
    then show ?thesis
      using Cons False by (simp add: take_replies_def)
  next
    case True
    show ?thesis
    proof (cases "eVotes e + 1 < eMajority e")
      case less: True
      then have "startElection_reply (Some r) e n = (e\<lparr>eVotes := eVotes e + 1\<rparr>, n)"
        using Cons.prems True by (auto simp: startElection_reply_def)
      moreover have "role (snd (take_replies rs (e\<lparr>eVotes := eVotes e + 1\<rparr>, n))) = RoleLeader"
        using Cons.prems True less by (intro Cons.IH) auto
      ultimately show ?thesis
        by (simp add: take_replies_def)
    next
      case won: False
      then have "startElection_reply (Some r) e n = (e\<lparr>eVotes := eVotes e + 1, eWon := True\<rparr>, becomeLeaderLocked n)"
        using Cons.prems True by (auto simp: startElection_reply_def)
      then show ?thesis
        using Cons.prems becomeLeader_ok [of n] take_replies_leader [of "becomeLeaderLocked n" rs]
        by (simp add: take_replies_def)
    qed
  qed
qed simp

text \<open>
  C12: with a working database an election can be won: a node that is not leader starts one for the
  next term, and once a majority (its own vote included) has granted its vote and nobody
  has answered with a higher term, the node is leader; a node without peers at once.
\<close>

theorem election_won:
  assumes "node_ok n" and "role n \<noteq> RoleLeader"
    and "\<forall>r \<in> set rs. rvrTerm r \<le> currentTerm n + 1"
    and "majorityLocked n \<le> 1 + int (length (filter rvrVoteGranted rs))"
  shows "\<exists>e n1. startElection_begin n = (Some e, n1) \<and> eTerm e = currentTerm n + 1
    \<and> role (snd (take_replies rs (e, startElection_single e n1))) = RoleLeader"
proof -
  obtain e n1 where run: "startElection_begin n = (Some e, n1)" and ok: "node_ok n1"
    using begin_ok [OF assms(1,2)] by blast
  note e = startElection_begin_election [OF run]
  have n1: "role n1 = RoleCandidate" "currentTerm n1 = currentTerm n + 1"
    using startElection_begin_view [OF run assms(2)] by auto
  have "role (snd (take_replies rs (e, startElection_single e n1))) = RoleLeader"
  proof (cases "eMajority e = 1")
    case True
    then show ?thesis
      using e n1 becomeLeader_ok [OF ok] assms(3) take_replies_leader [of "becomeLeaderLocked n1" rs e]
      by (simp add: startElection_single_def)
  next
    case False
    moreover have "1 \<le> eMajority e"
      using e by (simp add: majorityLocked_def)
    ultimately show ?thesis
      using e n1 ok assms(3,4) by (intro take_replies_wins) (auto simp: startElection_single_def)
  qed
  with run e show ?thesis
    by blast
qed

section \<open>Starting\<close>

lemma wf_reopened:
  assumes "wf_tables T \<or> T = empty_tables" and "set order = set defaults"
  shows "wf_tables (fill_defaults order T)"
  using assms fill_defaults_ok [of T order] wf_fill_defaults_empty by (auto simp: wf_tables_meta)

lemma term_vote_ok: "wf_tables T \<Longrightarrow> \<exists>t v. term_vote T = Inr (t, v)"
  using meta_uint_ok [of T "''current_term''"]
  by (fastforce simp: term_vote_def wf_tables_def meta_ok_def numeric_keys_def split: sum.splits option.splits)

lemma New_ok:
  assumes "wf_tables T \<or> T = empty_tables" and "set order = set defaults"
    and "optNodeID opts \<noteq> []" and "optGRPCAddr opts \<noteq> []" and "optDataDir opts \<noteq> []"
  shows "\<exists>n T'. New opts order T [] clk rnd = (Inr n, T') \<and> node_ok n"
proof -
  obtain s where o: "Open order T [] = (Inr s, db s)" and h: "healthy s"
    using Open_healthy by blast
  have wf: "wf_tables (db s)"
    using Open_success [OF o] wf_reopened [OF assms(1,2)] by simp
  obtain t v s1 where c: "CurrentTermVote s = (Inr (t, v), s1)" and h1: "healthy s1" "db s1 = db s"
    using CurrentTermVote.when_healthy [OF h] term_vote_ok [OF wf] by auto
  obtain a where "meta_uint (db s) ''last_applied'' = Inr a"
    using meta_uint_ok [OF wf_tables_meta [OF wf], of "''last_applied''"] by (auto simp: numeric_keys_def)
  then obtain s2 where l: "LastApplied s1 = (Inr a, s2)" and h2: "healthy s2" "db s2 = db s"
    using LastApplied.when_healthy [OF h1(1)] h1(2) by auto
  have "\<exists>n0 n T'. New opts order T [] clk rnd = (Inr n, T') \<and> n = refreshMetricsLocked (resetElectionDeadlineLocked n0) \<and> store n0 = s2"
    using assms(3-5) by (auto simp: New_def o c l Let_def)
  then show ?thesis
    using h2 wf by (auto simp: node_ok_def refresh_store)
qed

text \<open>A node after its first start, for examples.\<close>

definition fresh_node :: "bytes \<Rightarrow> Peer list \<Rightarrow> Node" where
  "fresh_node i ps =
     \<lparr>nid = i, grpcAddr = '':7000'', httpAddr = '':8000'', peers = ps, store = fresh_store, metrics = metrics_New i,
      role = RoleFollower, currentTerm = 0, votedFor = [], leaderID = [], commitIndex = 0, lastApplied = 0,
      nextIndex = (\<lambda>_. 0), matchIndex = (\<lambda>_. 0), electionMin = defaultElectionMin, electionMax = defaultElectionMax,
      heartbeatInterval = defaultHeartbeatInterval, snapshotThreshold = 0, electionDeadline = 0, clients = [],
      clock = [], rands = [], spawned = []\<rparr>"

definition three_peers :: "Peer list" where
  "three_peers = [\<lparr>peerID = ''n2'', peerAddress = ''h2:7000''\<rparr>, \<lparr>peerID = ''n3'', peerAddress = ''h3:7000''\<rparr>]"

lemma node_ok_fresh: "node_ok (fresh_node i ps)"
  by (simp add: node_ok_def fresh_node_def healthy_fresh wf_fresh)

theorem election_won_witness:
  "\<exists>e n1. startElection_begin (fresh_node ''n1'' three_peers) = (Some e, n1) \<and> eTerm e = 1
     \<and> role (snd (take_replies [\<lparr>rvrTerm = 1, rvrVoteGranted = True\<rparr>] (e, startElection_single e n1))) = RoleLeader"
  using election_won [OF node_ok_fresh [of "''n1''" three_peers], of "[\<lparr>rvrTerm = 1, rvrVoteGranted = True\<rparr>]"]
  by (simp add: fresh_node_def majorityLocked_def three_peers_def)

theorem RequestVote_grants_iff_witness:
  "\<exists>x n'. RequestVote (Some \<lparr>rvTerm = 1, rvCandidateId = ''n2'', rvLastLogIndex = 0, rvLastLogTerm = 0\<rparr>)
      (fresh_node ''n1'' three_peers) = (Inr x, n') \<and> rvrVoteGranted x"
proof -
  have "last_pos (db fresh_store) = Inr (0, 0)"
    by (simp add: last_pos_def snap_pos_fresh) (simp add: fresh_store_def empty_tables_def)
  then show ?thesis
    using RequestVote_grants_iff [OF node_ok_fresh [of "''n1''" three_peers],
        of "Some \<lparr>rvTerm = 1, rvCandidateId = ''n2'', rvLastLogIndex = 0, rvLastLogTerm = 0\<rparr>"]
    by (auto simp: fresh_node_def)
qed

end
