(* ===== verification/Raft_Log.thy ===== *)
theory Raft_Log
  imports Raft_Live
begin

text \<open>
  What the AppendEntries handler does to the log: it refines the conflict resolution of
  \<open>replicated_log\<close>, also when it steps down before and applies, commits and compacts after.
\<close>

section \<open>Conflict resolution\<close>

lemma term_pos_log:
  assumes "snap_pos T = Inr (si, st)" and "si < i"
  shows "term_pos i T = (case log_entry T i of None \<Rightarrow> Inr (0, False) | Some (t, _) \<Rightarrow> Inr (t, True))"
proof -
  have "i \<noteq> 0" "i \<noteq> si" "\<not> i < si"
    using assms(2) by auto
  with assms(1) show ?thesis
    by (simp add: term_pos_def log_term_log_entry split: option.splits)
qed

lemma snap_pos_delete_from [simp]: "snap_pos (delete_log_from k T) = snap_pos T"
  by (rule snap_pos_cong) simp

text \<open>Calls to the database change no other field of the node.\<close>

definition store_only :: "Node \<Rightarrow> Node \<Rightarrow> bool" where
  "store_only n n' \<longleftrightarrow> (\<exists>s. n' = n\<lparr>store := s\<rparr>)"

lemma store_only_refl [simp]: "store_only n n"
  by (auto simp: store_only_def intro: exI [of _ "store n"])

lemma store_only_trans: "store_only n n' \<Longrightarrow> store_only n' n'' \<Longrightarrow> store_only n n''"
  by (auto simp: store_only_def)

lemma store_only_on_store: "on_store m n = (r, n') \<Longrightarrow> store_only n n'"
  by (auto simp: store_only_def elim!: on_storeE)

lemma store_only_find_conflict: "find_conflict es n = (r, n') \<Longrightarrow> store_only n n'"
proof (induction es arbitrary: n)
  case (Cons e es)
  obtain q n1 where t: "on_store (Term (entryIndex e)) n = (q, n1)"
    by force
  note n1 = store_only_on_store [OF t]
  show ?case
  proof (cases q)
    case (Inl err)
    with Cons.prems t n1 show ?thesis
      by simp
  next
    case (Inr p)
    obtain tm ok where p: "p = (tm, ok)"
      by force
    from Cons.prems t Inr p have "n' = n1 \<or> find_conflict es n1 = (r, n') \<or> (\<exists>q. on_store (DeleteFrom (entryIndex e)) n1 = (q, n'))"
      by (auto split: if_splits prod.splits sum.splits)
    with Cons.IH n1 store_only_on_store store_only_trans show ?thesis
      by metis
  qed
qed simp

text \<open>
  The second loop of the handler and the append after it are the conflict resolution of the
  abstract log, entry by entry.
\<close>

lemma find_conflict_reconcile:
  assumes "find_conflict es n = (Inr toAppend, n')" and "snap_pos (db (store n)) = Inr (si, st)"
    and "\<And>e. e \<in> set es \<Longrightarrow> si < entryIndex e"
  shows "append_entries toAppend (db (store n')) = reconcile log_entry append_entries delete_log_from es (db (store n))"
  using assms
proof (induction es arbitrary: n)
  case (Cons e es)
  obtain r n1 where t: "on_store (Term (entryIndex e)) n = (r, n1)"
    by force
  with Cons.prems(1) obtain tm ok where r: "r = Inr (tm, ok)"
    by (cases r) auto
  from t r have spec: "term_pos (entryIndex e) (db (store n)) = Inr (tm, ok)" and db1: "db (store n1) = db (store n)"
    by (auto elim!: on_storeE dest!: Term.on_success)
  have look: "log_entry (db (store n)) (entryIndex e) = None \<and> \<not> ok
      \<or> (\<exists>c. log_entry (db (store n)) (entryIndex e) = Some (tm, c)) \<and> ok"
    using spec term_pos_log [OF Cons.prems(2), of "entryIndex e"] Cons.prems(3)
    by (auto split: option.splits)
  show ?case
  proof (cases "ok \<and> tm = entryTerm e")
    case True
    then have "find_conflict es n1 = (Inr toAppend, n')"
      using Cons.prems(1) t r by simp
    with Cons.IH [OF this] Cons.prems db1 look True show ?thesis
      by auto
  next
    case False
    show ?thesis
    proof (cases ok)
      case True
      obtain q n2 where d: "on_store (DeleteFrom (entryIndex e)) n1 = (q, n2)"
        by force
      with Cons.prems(1) t r True False have "n' = n2" "toAppend = e # es" "q = Inr ()"
        by (auto split: sum.splits)
      moreover from d this(3) have "db (store n2) = delete_log_from (entryIndex e) (db (store n1))"
        by (auto elim!: on_storeE dest!: DeleteFrom.on_success)
      ultimately show ?thesis
        using look True False db1 by auto
    next
      case no: False
      then have "n' = n1" "toAppend = e # es"
        using Cons.prems(1) t r by auto
      with look no db1 show ?thesis
        by simp
    qed
  qed
qed (simp add: append_entries_def)

lemma append_store_reconcile:
  assumes "append_store es n = (Inr (), n')" and "snap_pos (db (store n)) = Inr (si, st)"
    and "\<And>e. e \<in> set es \<Longrightarrow> si < entryIndex e"
  shows "db (store n') = reconcile log_entry append_entries delete_log_from es (db (store n))"
proof -
  obtain toAppend n1 where f: "find_conflict es n = (Inr toAppend, n1)"
    using assms(1) by (auto simp: append_store_def split: prod.splits sum.splits)
  then have *: "if toAppend = [] then n' = n1 else on_store (AppendEntries toAppend) n1 = (Inr (), n')"
    using assms(1) by (auto simp: append_store_def)
  have "db (store n') = append_entries toAppend (db (store n1))"
  proof (cases "toAppend = []")
    case True
    with * show ?thesis
      by (simp add: append_entries_def)
  next
    case False
    with * show ?thesis
      by (auto elim!: on_storeE dest!: AppendEntries.on_success)
  qed
  with find_conflict_reconcile [OF f assms(2,3)] show ?thesis
    by simp
qed

lemma store_only_append_store:
  assumes "append_store es n = (r, n')"
  shows "store_only n n'"
proof -
  obtain q n1 where f: "find_conflict es n = (q, n1)"
    by force
  with assms have "n' = n1 \<or> (\<exists>to. on_store (AppendEntries to) n1 = (r, n'))"
    by (auto simp: append_store_def split: sum.splits if_splits)
  with store_only_find_conflict [OF f] show ?thesis
    using store_only_on_store store_only_trans by metis
qed


section \<open>Applying and compacting\<close>

lemma int64_of_pos: "0 < int64_of k \<Longrightarrow> k < 2 ^ 63"
proof (rule ccontr)
  assume pos: "0 < int64_of k" and "\<not> k < 2 ^ 63"
  then have "2 ^ 63 \<le> uint k"
    by (simp add: word_less_def)
  then have "uint k div 2 ^ 63 = 1"
    using uint_lt2p [of k] by simp
  then have "int64_of k = uint k - 2 ^ 64"
    using uint_lt2p [of k]
    by (simp add: int64_of_def sint_uint signed_take_bit_eq_take_bit_minus take_bit_eq_mod bit_iff_odd)
  then show False
    using pos uint_lt2p [of k] by simp
qed

lemma log_entry_delete_upto:
  assumes "log_ok T"
  shows "log_entry (delete_log_upto k T) i = log_entry T i \<or> i \<le> k \<and> log_entry (delete_log_upto k T) i = None"
proof (cases "ok_index i \<and> int64_of i \<le> int64_of k")
  case True
  then have "0 < int64_of k"
    using int64_of_ok [of i] by linarith
  then have "k < 2 ^ 63"
    by (rule int64_of_pos)
  with True have "i \<le> k"
    using int64_of_le_iff [of i k] by (simp add: ok_index_def)
  with True show ?thesis
    by (simp add: log_entry_def delete_log_upto_def table_simps)
next
  case False
  then show ?thesis
    using log_entry_ok [OF assms, of i]
    by (cases "log_entry T i") (auto simp: log_entry_def delete_log_upto_def table_simps)
qed

text \<open>What the snapshot covers is no longer in the log; everything else is as it was.\<close>

definition compacts :: "tables \<Rightarrow> tables \<Rightarrow> bool" where
  "compacts T T' \<longleftrightarrow> wf_tables T' \<and>
     (log_entries T' = log_entries T \<and> snap_pos T' = snap_pos T
      \<or> (\<exists>k t. log_entries T' = log_entries (delete_log_upto k T) \<and> snap_pos T' = Inr (k, t)))"

lemma compacts_refl: "wf_tables T \<Longrightarrow> compacts T T"
  by (simp add: compacts_def)

lemma compacts_log_entry:
  assumes "compacts T T'" and "wf_tables T"
  shows "log_entry T' i = log_entry T i \<or> log_entry T' i = None \<and> (\<exists>k t. snap_pos T' = Inr (k, t) \<and> i \<le> k)"
proof -
  have eq: "log_entry T1 i = log_entry T2 i" if "log_entries T1 = log_entries T2" for T1 T2
    using that by (simp add: log_entry_def)
  from assms(1) consider "log_entries T' = log_entries T"
    | k t where "log_entries T' = log_entries (delete_log_upto k T)" "snap_pos T' = Inr (k, t)"
    by (auto simp: compacts_def)
  then show ?thesis
  proof cases
    case 1
    from eq [OF 1] show ?thesis
      by simp
  next
    case 2
    from eq [OF 2(1)] 2(2) log_entry_delete_upto [OF wf_tables_log [OF assms(2)], of k i] show ?thesis
      by metis
  qed
qed

definition same_log :: "tables \<Rightarrow> tables \<Rightarrow> bool" where
  "same_log T T' \<longleftrightarrow> wf_tables T' \<and> log_entries T' = log_entries T \<and> snap_pos T' = snap_pos T"

lemma same_log_compacts: "same_log T T' \<Longrightarrow> compacts T' T'' \<Longrightarrow> compacts T T''"
  by (auto simp: same_log_def compacts_def delete_log_upto_def)

lemma compacts_same_log: "compacts T T' \<Longrightarrow> same_log T' T'' \<Longrightarrow> compacts T T''"
  by (auto simp: same_log_def compacts_def)

lemma same_log_refl: "wf_tables T \<Longrightarrow> same_log T T"
  by (simp add: same_log_def)

lemma same_log_reads:
  assumes "same_log T T'"
  shows "log_entry T' = log_entry T" and "log_term T' = log_term T" and "term_pos i T' = term_pos i T"
    and "last_pos T' = last_pos T"
proof -
  show le: "log_entry T' = log_entry T"
    using assms by (simp add: same_log_def log_entry_def fun_eq_iff)
  show lt: "log_term T' = log_term T"
    using assms by (simp add: same_log_def log_term_def fun_eq_iff)
  show "term_pos i T' = term_pos i T" "last_pos T' = last_pos T"
    using assms lt by (auto simp: same_log_def term_pos_def last_pos_def split: sum.splits)
qed

lemma snap_pos_apply_set [simp]: "snap_pos (apply_set i k v T) = snap_pos T"
  by (simp add: snap_pos_def apply_set_def meta_uint_other meta_uint_cong [of "upsert_kv i k v T" T] split: sum.splits)

lemma log_entries_apply_set [simp]: "log_entries (apply_set i k v T) = log_entries T"
  by (simp add: apply_set_def)

text \<open>A method run on the database of a node, with the two possible outcomes.\<close>

lemma on_store_db:
  assumes "on_store m n = (r, n')" and "implements m w"
  shows "(r, db (store n')) = w (db (store n)) \<or> (\<exists>e. r = Inl e) \<and> db (store n') = db (store n)"
proof -
  obtain s' where "m (store n) = (r, s')" "n' = n\<lparr>store := s'\<rparr>"
    using assms(1) by (elim on_storeE)
  with assms(2) show ?thesis
    unfolding implements_def by simp
qed

lemma on_store_read_db:
  assumes "on_store m n = (r, n')" and "implements m (\<lambda>T. (q T, T))"
  shows "db (store n') = db (store n)"
  using on_store_db [OF assms] by auto

lemmas reads_db = on_store_read_db [OF _ implements_LastIndexAndTerm] on_store_read_db [OF _ implements_SnapshotIndexTerm]
  on_store_read_db [OF _ implements_Term] on_store_read_db [OF _ implements_Entry_at]
  on_store_read_db [OF _ implements_EntriesFrom] on_store_read_db [OF _ implements_Get]
  on_store_read_db [OF _ implements_LoadSnapshot]

lemma apply_loop_same_log:
  assumes "apply_loop n = (b, n')" and "wf_tables (db (store n))"
  shows "same_log (db (store n)) (db (store n'))"
proof (rule apply_loop_invariant [OF assms(1), where P = "\<lambda>m. same_log (db (store n)) (db (store m))"])
  show "same_log (db (store n)) (db (store n))"
    using assms(2) by (rule same_log_refl)
  fix m i k v r m1
  assume m: "same_log (db (store n)) (db (store m))" and "on_store (ApplySet i k v) m = (r, m1)"
  from on_store_db [OF this(2) implements_ApplySet] m
  show "same_log (db (store n)) (db (store m1))"
    by (auto simp: same_log_def log_entries_apply_set)
qed (auto dest!: reads_db)


lemma create_snapshot_compacts:
  assumes "wf_tables T"
  shows "compacts T (create_snapshot i t T)"
proof -
  have "snap_pos (create_snapshot i t T) = Inr (i, t)"
    by (simp add: create_snapshot_def snap_pos_set)
  moreover have "log_entries (create_snapshot i t T) = log_entries (delete_log_upto i T)"
    by (simp add: create_snapshot_def set_snapshot_meta_def delete_log_upto_def)
  ultimately show ?thesis
    using assms unfolding compacts_def by (metis wf_create_snapshot)
qed

lemma CreateSnapshot_compacts:
  assumes "wf_tables (db (store m))"
  shows "compacts (db (store m)) (db (store (snd (on_store (CreateSnapshot i t) m))))"
proof -
  obtain r m' where c: "on_store (CreateSnapshot i t) m = (r, m')"
    by force
  from on_store_db [OF c implements_CreateSnapshot] assms show ?thesis
    by (auto simp: c create_snapshot_compacts compacts_refl)
qed

lemma compactIfNeeded_compacts:
  assumes "wf_tables (db (store n))"
  shows "compacts (db (store n)) (db (store (compactIfNeededLocked n)))"
proof -
  have "(\<exists>m i t. db (store m) = db (store n) \<and> compactIfNeededLocked n = snd (on_store (CreateSnapshot i t) m))
      \<or> db (store (compactIfNeededLocked n)) = db (store n)"
    by (auto simp: compactIfNeededLocked_def split: prod.splits sum.splits if_splits dest!: reads_db) blast
  then show ?thesis
    using CreateSnapshot_compacts compacts_refl assms by metis
qed

lemma applyCommitted_compacts:
  assumes "wf_tables (db (store n))"
  shows "compacts (db (store n)) (db (store (applyCommittedLocked n)))"
proof -
  obtain b n1 where a: "apply_loop n = (b, n1)"
    by force
  note same = apply_loop_same_log [OF a assms]
  then have "compacts (db (store n1)) (db (store (compactIfNeededLocked n1)))"
    by (intro compactIfNeeded_compacts) (simp add: same_log_def)
  with same have "compacts (db (store n)) (db (store (compactIfNeededLocked n1)))"
    by (rule same_log_compacts)
  moreover have "compacts (db (store n)) (db (store n1))"
    using same by (simp add: same_log_def compacts_def)
  ultimately show ?thesis
    by (simp add: applyCommittedLocked_def a refresh_store)
qed

lemma stepDown_same_log:
  assumes "wf_tables (db (store n))"
  shows "same_log (db (store n)) (db (store (stepDownLocked t l n)))"
proof -
  obtain r m where s: "on_store (SaveTermVote t []) (n\<lparr>currentTerm := t, votedFor := []\<rparr>) = (r, m)"
    by force
  have "snap_pos (save_term_vote t [] T) = snap_pos T" for T
    by (simp add: snap_pos_def save_term_vote_def meta_uint_other split: sum.splits)
  with on_store_db [OF s implements_SaveTermVote] assms
  have "same_log (db (store n)) (db (store m))"
    by (auto simp: same_log_def save_term_vote_def wf_save_term_vote [unfolded save_term_vote_def])
  with assms show ?thesis
    by (simp add: stepDownLocked_def Let_def s refresh_store same_log_refl)
qed


section \<open>The AppendEntries handler\<close>

definition message_entry :: "LogEntry option \<Rightarrow> Entry" where
  "message_entry m =
     \<lparr>entryIndex = LogEntry_GetIndex m, entryTerm = LogEntry_GetTerm m, entryCommand = LogEntry_GetCommand m\<rparr>"

definition request_entries :: "AppendEntriesRequest option \<Rightarrow> Entry list" where
  "request_entries req = map message_entry (AppendEntriesRequest_GetEntries req)"

lemma collect_incoming_consecutive:
  "consecutive p (map message_entry ms) \<Longrightarrow> si \<le> p \<Longrightarrow>
     collect_incoming si ms p = (if ms = [] then p else entryIndex (last (map message_entry ms)), map message_entry ms)"
proof (induction ms arbitrary: p)
  case (Cons m ms)
  have i: "LogEntry_GetIndex m = p + 1" and p: "p < p + 1"
    using Cons.prems ok_index_Suc [of p] by (auto simp: message_entry_def)
  have "si \<le> p + 1" "\<not> p + 1 \<le> si"
    using Cons.prems(2) p by auto
  moreover from this have "collect_incoming si ms (p + 1) =
      (if ms = [] then p + 1 else entryIndex (last (map message_entry ms)), map message_entry ms)"
    using Cons.prems by (intro Cons.IH) (auto simp: message_entry_def)
  ultimately show ?case
    using p by (simp add: i message_entry_def)
qed simp

lemma append_commit_ok:
  assumes "append_commit req m n = (Inr resp, n')" and "wf_tables (db (store n))"
  shows "aerSuccess resp \<and> aerMatchIndex resp = m \<and> aerTerm resp = currentTerm n' \<and> compacts (db (store n)) (db (store n'))"
proof -
  obtain r n1 where l: "on_store LastIndexAndTerm n = (r, n1)"
    by force
  then have db1: "db (store n1) = db (store n)"
    by (auto dest: reads_db)
  from assms(1) l obtain i t where r: "r = Inr (i, t)"
    by (cases r) (auto simp: append_commit_def append_error_def)
  have "compacts (db (store n)) (db (store (applyCommittedLocked (n1\<lparr>commitIndex := c\<rparr>))))" for c
    using applyCommitted_compacts [of "n1\<lparr>commitIndex := c\<rparr>"] assms(2) db1 by simp
  with assms l r db1 compacts_refl show ?thesis
    by (auto simp: append_commit_def Let_def inc_rpc_def refresh_store split: if_splits)
qed

lemma append_reject_fails: "append_reject res n = (r, n') \<Longrightarrow> \<exists>x. r = Inr x \<and> \<not> aerSuccess x"
  by (auto simp: append_reject_def split: prod.splits)

text \<open>A successful run, taken apart.\<close>

lemma AppendEntries_rpc_run:
  assumes "AppendEntries_rpc req n = (Inr resp, n')" and "aerSuccess resp" and "wf_tables (db (store n))"
  obtains m m' si st incoming matchIdx where "currentTerm n \<le> AppendEntriesRequest_GetTerm req"
    and "same_log (db (store n)) (db (store m))" and "snap_pos (db (store m)) = Inr (si, st)"
    and "si \<le> AppendEntriesRequest_GetPrevLogIndex req"
    and "term_pos (AppendEntriesRequest_GetPrevLogIndex req) (db (store m)) = Inr (AppendEntriesRequest_GetPrevLogTerm req, True)"
    and "collect_incoming si (AppendEntriesRequest_GetEntries req) (AppendEntriesRequest_GetPrevLogIndex req) = (matchIdx, incoming)"
    and "append_store incoming m = (Inr (), m')" and "append_commit req matchIdx m' = (Inr resp, n')"
proof -
  have le: "\<not> AppendEntriesRequest_GetTerm req < currentTerm n"
    using assms(1,2) by (auto simp: AppendEntries_rpc_def dest!: append_reject_fails split: if_splits)
  define n1 where "n1 = (if AppendEntriesRequest_GetTerm req > currentTerm n \<or> role n \<noteq> RoleFollower
      then stepDownLocked (AppendEntriesRequest_GetTerm req) (AppendEntriesRequest_GetLeaderId req) n else n)"
  define n2 where "n2 = resetElectionDeadlineLocked (n1\<lparr>leaderID := AppendEntriesRequest_GetLeaderId req\<rparr>)"
  have same: "same_log (db (store n)) (db (store n2))"
    using assms(3) by (simp add: n2_def n1_def stepDown_same_log same_log_refl)
  obtain r n3 where sp: "on_store SnapshotIndexTerm n2 = (r, n3)"
    by force
  note run = assms(1) [unfolded AppendEntries_rpc_def n1_def [symmetric] Let_def n2_def [symmetric] sp]
  from run le obtain si st where r: "r = Inr (si, st)"
    by (cases r) (auto simp: append_error_def)
  from sp r have snap: "snap_pos (db (store n2)) = Inr (si, st)" "db (store n3) = db (store n2)"
    by (auto elim!: on_storeE dest!: SnapshotIndexTerm.on_success)
  obtain q n4 where tm: "on_store (Term (AppendEntriesRequest_GetPrevLogIndex req)) n3 = (q, n4)"
    by force
  have prev: "\<not> AppendEntriesRequest_GetPrevLogIndex req < si"
    using run le assms(2) by (auto simp: r split: if_splits)
  from run le prev have q: "q = Inr (AppendEntriesRequest_GetPrevLogTerm req, True)"
    using assms(2) by (auto simp: r tm append_error_def split: sum.splits if_splits prod.splits dest!: append_reject_fails)
  from tm q have tp: "term_pos (AppendEntriesRequest_GetPrevLogIndex req) (db (store n3)) = Inr (AppendEntriesRequest_GetPrevLogTerm req, True)"
    "db (store n4) = db (store n3)"
    by (auto elim!: on_storeE dest!: Term.on_success)
  obtain matchIdx incoming where c: "collect_incoming si (AppendEntriesRequest_GetEntries req)
      (AppendEntriesRequest_GetPrevLogIndex req) = (matchIdx, incoming)"
    by force
  obtain u n5 where a: "append_store incoming n4 = (u, n5)"
    by force
  from run le prev have "u = Inr ()" "append_commit req matchIdx n5 = (Inr resp, n')"
    by (auto simp: r tm q c a append_error_def split: sum.splits)
  with le same snap tp prev c a show ?thesis
    by (intro that [of n4 si st matchIdx incoming n5]) (auto simp: not_less)
qed


lemma AppendEntries_rpc_entries:
  assumes "AppendEntries_rpc req n = (Inr resp, n')" and "aerSuccess resp" and "wf_tables (db (store n))"
    and "consecutive (AppendEntriesRequest_GetPrevLogIndex req) (request_entries req)"
  shows "wf_tables (db (store n')) \<and> (\<exists>L.
      compacts L (db (store n')) \<and> wf_tables L
      \<and> (\<forall>e \<in> set (request_entries req). map_option fst (log_entry L (entryIndex e)) = Some (entryTerm e))
      \<and> (\<forall>i \<le> AppendEntriesRequest_GetPrevLogIndex req. log_entry L i = log_entry (db (store n)) i)
      \<and> (\<forall>i. i \<notin> entryIndex ` set (request_entries req) \<longrightarrow>
            log_entry L i = log_entry (db (store n)) i \<or> log_entry L i = None)
      \<and> term_pos (AppendEntriesRequest_GetPrevLogIndex req) (db (store n)) = Inr (AppendEntriesRequest_GetPrevLogTerm req, True)
      \<and> aerMatchIndex resp = (if request_entries req = [] then AppendEntriesRequest_GetPrevLogIndex req
          else entryIndex (last (request_entries req))))"
proof -
  let ?p = "AppendEntriesRequest_GetPrevLogIndex req"
  obtain m m' si st incoming matchIdx where same: "same_log (db (store n)) (db (store m))"
    and sp: "snap_pos (db (store m)) = Inr (si, st)" "si \<le> ?p"
    and tp: "term_pos ?p (db (store m)) = Inr (AppendEntriesRequest_GetPrevLogTerm req, True)"
    and c: "collect_incoming si (AppendEntriesRequest_GetEntries req) ?p = (matchIdx, incoming)"
    and a: "append_store incoming m = (Inr (), m')" and ac: "append_commit req matchIdx m' = (Inr resp, n')"
    by (rule AppendEntries_rpc_run [OF assms(1-3)])
  have inc: "incoming = request_entries req"
    and mi: "matchIdx = (if request_entries req = [] then ?p else entryIndex (last (request_entries req)))"
    using c collect_incoming_consecutive [of ?p "AppendEntriesRequest_GetEntries req" si] assms(4) sp(2)
    by (auto simp: request_entries_def)
  have wf: "wf_tables (db (store m))"
    using same by (simp add: same_log_def)
  have log_m: "log_entry (db (store m)) = log_entry (db (store n))" "term_pos ?p (db (store m)) = term_pos ?p (db (store n))"
    using same_log_reads [OF same] by auto
  let ?L = "reconcile log_entry append_entries delete_log_from (request_entries req) (db (store m))"
  have L: "db (store m') = ?L"
    by (rule append_store_reconcile [OF a [unfolded inc] sp(1)])
      (use consecutive_bounds [OF assms(4)] sp(2) in force)
  have "wf_tables ?L"
    by (rule sql_log.linv_reconcile [OF wf assms(4)])
  with append_commit_ok [OF ac] L have "compacts ?L (db (store n'))" "aerMatchIndex resp = matchIdx" "wf_tables (db (store n'))"
    by (auto simp: compacts_def)
  moreover have "map_option fst (log_entry ?L (entryIndex e)) = Some (entryTerm e)" if "e \<in> set (request_entries req)" for e
    by (rule sql_log.reconcile_terms [OF wf assms(4) that])
  moreover have "log_entry ?L i = log_entry (db (store n)) i" if "i \<le> ?p" for i
    using sql_log.reconcile_prefix [OF wf assms(4) that] log_m by simp
  moreover have "log_entry ?L i = log_entry (db (store n)) i \<or> log_entry ?L i = None"
    if "i \<notin> entryIndex ` set (request_entries req)" for i
  proof -
    have "entryIndex e \<noteq> i" if "e \<in> set (request_entries req)" for e
      using that \<open>i \<notin> entryIndex ` set (request_entries req)\<close> by blast
    from sql_log.reconcile_beyond [OF wf assms(4) this] log_m show ?thesis
      by simp
  qed
  ultimately show ?thesis
    using \<open>wf_tables ?L\<close> tp log_m mi by (intro conjI exI [of _ ?L]) auto
qed



text \<open>With a working database the handler accepts exactly the requests that fit the log.\<close>

lemma term_pos_ok: "snap_pos T = Inr p \<Longrightarrow> \<exists>t ok. term_pos i T = Inr (t, ok)"
  by (cases p) (auto simp: term_pos_def split: option.splits)

lemma find_conflict_ok:
  assumes "healthy (store n)" and "snap_pos (db (store n)) = Inr p"
  shows "\<exists>to n'. find_conflict es n = (Inr to, n') \<and> healthy (store n')"
  using assms
proof (induction es arbitrary: n)
  case (Cons e es)
  obtain t ok where tp: "term_pos (entryIndex e) (db (store n)) = Inr (t, ok)"
    using term_pos_ok [OF Cons.prems(2)] by blast
  obtain s1 where s1: "on_store (Term (entryIndex e)) n = (Inr (t, ok), n\<lparr>store := s1\<rparr>)"
    and h1: "db s1 = db (store n)" "healthy s1"
    using on_store_ok [OF implements_Term Cons.prems(1), of "entryIndex e"] tp by auto
  obtain s2 where "on_store (DeleteFrom (entryIndex e)) (n\<lparr>store := s1\<rparr>) = (Inr (), n\<lparr>store := s2\<rparr>)" "healthy s2"
    using on_store_ok [OF implements_DeleteFrom, of "n\<lparr>store := s1\<rparr>" "entryIndex e"] h1 by auto
  moreover have "\<exists>to n'. find_conflict es (n\<lparr>store := s1\<rparr>) = (Inr to, n') \<and> healthy (store n')"
    using Cons.prems h1 by (intro Cons.IH) auto
  ultimately show ?case
    using s1 h1 by (auto split: if_splits)
qed simp

lemma append_store_ok:
  assumes "healthy (store n)" and "snap_pos (db (store n)) = Inr p"
  shows "\<exists>n'. append_store es n = (Inr (), n') \<and> healthy (store n')"
proof -
  obtain to n1 where f: "find_conflict es n = (Inr to, n1)" and h: "healthy (store n1)"
    using find_conflict_ok [OF assms] by blast
  with on_store_ok [OF implements_AppendEntries h, of to] show ?thesis
    by (auto simp: append_store_def)
qed

lemma append_commit_returns:
  assumes "node_ok n"
  shows "\<exists>resp n'. append_commit req m n = (Inr resp, n')"
proof -
  obtain i t s' where "on_store LastIndexAndTerm n = (Inr (i, t), n\<lparr>store := s'\<rparr>)"
    by (rule on_store_LastIndexAndTerm [OF assms])
  then show ?thesis
    by (simp add: append_commit_def Let_def)
qed


lemma AppendEntries_rpc_answers:
  assumes "node_ok n" and "snap_pos (db (store n)) = Inr (si, st)"
    and "consecutive (AppendEntriesRequest_GetPrevLogIndex req) (request_entries req)"
  shows "\<exists>resp n'. AppendEntries_rpc req n = (Inr resp, n')
    \<and> (aerSuccess resp \<longleftrightarrow> currentTerm n \<le> AppendEntriesRequest_GetTerm req
        \<and> si \<le> AppendEntriesRequest_GetPrevLogIndex req
        \<and> term_pos (AppendEntriesRequest_GetPrevLogIndex req) (db (store n)) = Inr (AppendEntriesRequest_GetPrevLogTerm req, True))"
proof (cases "AppendEntriesRequest_GetTerm req < currentTerm n")
  case True
  obtain r n' where "append_reject ''stale_term'' n = (r, n')"
    by force
  with append_reject_fails [OF this] True show ?thesis
    by (auto simp: AppendEntries_rpc_def)
next
  case False
  let ?p = "AppendEntriesRequest_GetPrevLogIndex req"
  define n1 where "n1 = (if AppendEntriesRequest_GetTerm req > currentTerm n \<or> role n \<noteq> RoleFollower
      then stepDownLocked (AppendEntriesRequest_GetTerm req) (AppendEntriesRequest_GetLeaderId req) n else n)"
  define n2 where "n2 = resetElectionDeadlineLocked (n1\<lparr>leaderID := AppendEntriesRequest_GetLeaderId req\<rparr>)"
  have same: "same_log (db (store n)) (db (store n2))" and ok2: "node_ok n2"
    using assms(1) stepDown_store(1) by (auto simp: n2_def n1_def stepDown_same_log same_log_refl node_ok_def)
  then have sp: "snap_pos (db (store n2)) = Inr (si, st)"
    using assms(2) by (simp add: same_log_def)
  obtain s3 where s3: "on_store SnapshotIndexTerm n2 = (Inr (si, st), n2\<lparr>store := s3\<rparr>)" "db s3 = db (store n2)" "healthy s3"
    using on_store_read [OF implements_SnapshotIndexTerm ok2] sp by auto
  obtain t ok where tp: "term_pos ?p (db (store n2)) = Inr (t, ok)"
    using term_pos_ok [OF sp] by blast
  obtain s4 where s4: "on_store (Term ?p) (n2\<lparr>store := s3\<rparr>) = (Inr (t, ok), n2\<lparr>store := s4\<rparr>)" "db s4 = db (store n2)" "healthy s4"
    using on_store_ok [OF implements_Term, of "n2\<lparr>store := s3\<rparr>" ?p] s3 tp by auto
  have tn: "term_pos ?p (db (store n)) = Inr (t, ok)"
    using tp same_log_reads(3) [OF same] by simp
  note run = AppendEntries_rpc_def [of req n, unfolded n1_def [symmetric] Let_def n2_def [symmetric] s3(1)]
  show ?thesis
  proof (cases "si \<le> ?p \<and> ok \<and> t = AppendEntriesRequest_GetPrevLogTerm req")
    case no: False
    obtain r n' where "append_reject ''log_mismatch'' (n2\<lparr>store := s4\<rparr>) = (r, n')"
      by force
    with append_reject_fails [OF this] no False tn show ?thesis
      by (auto simp: run s4 not_less)
  next
    case True
    let ?es = "request_entries req"
    have c: "collect_incoming si (AppendEntriesRequest_GetEntries req) ?p =
        (if ?es = [] then ?p else entryIndex (last ?es), ?es)"
      using collect_incoming_consecutive [of ?p "AppendEntriesRequest_GetEntries req" si] assms(3) True
      by (auto simp: request_entries_def)
    obtain n5 where a: "append_store ?es (n2\<lparr>store := s4\<rparr>) = (Inr (), n5)" and h5: "healthy (store n5)"
      using append_store_ok [of "n2\<lparr>store := s4\<rparr>" "(si, st)" ?es] s4 sp by auto
    have "db (store n5) = reconcile log_entry append_entries delete_log_from ?es (db (store n2))"
      using append_store_reconcile [OF a, of si st] s4 sp consecutive_bounds [OF assms(3)] True by force
    then have "node_ok n5"
      using ok2 h5 sql_log.linv_reconcile [OF _ assms(3)] by (simp add: node_ok_def)
    then obtain resp n' where "append_commit req (if ?es = [] then ?p else entryIndex (last ?es)) n5 = (Inr resp, n')"
      using append_commit_returns by blast
    with append_commit_ok [OF this] \<open>node_ok n5\<close> False True tn show ?thesis
      by (auto simp: run s4 c a node_ok_def)
  qed
qed


text \<open>
  C26: with a working database and consecutive entries, AppendEntries always answers, and accepts
  exactly when the term is not older, the previous index is not below the snapshot, and the
  log has an entry of the named term there (index 0 and the snapshot's last entry count).
\<close>

theorem AppendEntries_rpc_accepts_iff:
  assumes "node_ok n" and "snap_pos (db (store n)) = Inr (si, st)"
    and "consecutive (AppendEntriesRequest_GetPrevLogIndex req) (request_entries req)"
  shows "\<exists>resp n'. AppendEntries_rpc req n = (Inr resp, n')
    \<and> (aerSuccess resp \<longleftrightarrow> currentTerm n \<le> AppendEntriesRequest_GetTerm req
        \<and> si \<le> AppendEntriesRequest_GetPrevLogIndex req
        \<and> term_pos (AppendEntriesRequest_GetPrevLogIndex req) (db (store n)) = Inr (AppendEntriesRequest_GetPrevLogTerm req, True))"
  using assms by (rule AppendEntries_rpc_answers)

text \<open>A first request to a fresh node.\<close>

definition first_request :: AppendEntriesRequest where
  "first_request =
     \<lparr>aeTerm = 1, aeLeaderId = ''n2'', aePrevLogIndex = 0, aePrevLogTerm = 0,
      aeEntries = [Some \<lparr>leIndex = 1, leTerm = 1, leCommand = ''x''\<rparr>], aeLeaderCommit = 0\<rparr>"

lemma first_request_entries:
  "aePrevLogIndex first_request = 0" "aePrevLogTerm first_request = 0" "aeTerm first_request = 1"
  "AppendEntriesRequest_GetPrevLogIndex (Some first_request) = 0" "AppendEntriesRequest_GetPrevLogTerm (Some first_request) = 0"
  "AppendEntriesRequest_GetTerm (Some first_request) = 1"
  "request_entries (Some first_request) = [\<lparr>entryIndex = 1, entryTerm = 1, entryCommand = ''x''\<rparr>]"
  "consecutive 0 (request_entries (Some first_request))"
  by (simp_all add: first_request_def request_entries_def message_entry_def ok_index_def)

lemma ok_index_1: "ok_index 1"
  by (simp add: ok_index_def)

lemma fresh_node_db: "db (store (fresh_node i ps)) = db fresh_store"
  by (simp add: fresh_node_def)

lemma fresh_node_reads:
  "snap_pos (db (store (fresh_node i ps))) = Inr (0, 0)" "currentTerm (fresh_node i ps) = 0"
  "wf_tables (db (store (fresh_node i ps)))"
  by (simp_all add: fresh_node_db snap_pos_fresh wf_fresh) (simp add: fresh_node_def)

theorem AppendEntries_rpc_accepts_iff_witness:
  "\<exists>resp n'. AppendEntries_rpc (Some first_request) (fresh_node ''n1'' three_peers) = (Inr resp, n') \<and> aerSuccess resp"
  using AppendEntries_rpc_accepts_iff [OF node_ok_fresh fresh_node_reads(1), of "Some first_request" "''n1''" three_peers]
  by (auto simp: first_request_entries fresh_node_reads term_pos_def ok_index_1)


end
