(* ===== verification/Raft_Commit.thy ===== *)
theory Raft_Commit
  imports Raft_Log
begin

text \<open>
  Applying and committing: the loop of \<open>applyCommittedLocked\<close> replays the log in order and stops
  at a prefix when something fails; \<open>advanceCommitLocked\<close> commits what a majority holds in the
  leader's own term; and what \<open>Write\<close> and \<open>Read\<close> promise to a client.
\<close>

section \<open>Replaying the log\<close>

text \<open>The specification: one committed entry after the other is applied to the tables.\<close>

definition apply_index :: "u64 \<Rightarrow> tables \<Rightarrow> tables" where
  "apply_index i T =
     (case log_entry T i of
        None \<Rightarrow> T
      | Some (_, c) \<Rightarrow> (case decodeCommand c of Inl _ \<Rightarrow> T | Inr cmd \<Rightarrow> apply_set i (cmdKey cmd) (cmdValue cmd) T))"

primrec replay :: "nat \<Rightarrow> u64 \<Rightarrow> tables \<Rightarrow> tables" where
  "replay 0 i T = T"
| "replay (Suc k) i T = replay k (i + 1) (apply_index (i + 1) T)"

definition applicable :: "u64 \<Rightarrow> tables \<Rightarrow> bool" where
  "applicable i T \<longleftrightarrow> (\<exists>t c cmd. log_entry T i = Some (t, c) \<and> decodeCommand c = Inr cmd)"

lemma same_log_apply_index: "wf_tables T \<Longrightarrow> same_log T (apply_index i T)"
  by (auto simp: apply_index_def same_log_def split: option.splits sum.splits)

lemma applicable_apply_index: "wf_tables T \<Longrightarrow> applicable j (apply_index i T) = applicable j T"
  using same_log_reads(1) [OF same_log_apply_index, of T i] by (simp add: applicable_def)

text \<open>One iteration of the loop, by what the store answers.\<close>

lemma apply_loop_done: "\<not> lastApplied n < commitIndex n \<Longrightarrow> apply_loop n = (True, n)"
  by (simp add: apply_loop.simps [of n])

lemma entry_pos_log: "entry_pos i T = (case log_entry T i of
    None \<Rightarrow> (\<lparr>entryIndex = 0, entryTerm = 0, entryCommand = []\<rparr>, False)
  | Some (t, c) \<Rightarrow> (\<lparr>entryIndex = i, entryTerm = t, entryCommand = c\<rparr>, True))"
  by (auto simp: entry_pos_def log_entry_def split: option.splits)

lemma on_store_healthy:
  assumes "on_store m n = (r, n')" and "implements m w" and "healthy (store n)"
  shows "(r, db (store n')) = w (db (store n)) \<and> healthy (store n')"
proof -
  obtain s' where "m (store n) = (r, s')" "n' = n\<lparr>store := s'\<rparr>"
    using assms(1) by (elim on_storeE)
  with assms(2,3) show ?thesis
    unfolding implements_def by simp
qed

text \<open>The methods on a store without failures, as equations to compute with.\<close>

lemma healthy_on_store:
  assumes "implements m w" and "healthy (store n)"
  shows "on_store m n = (fst (w (db (store n))), n\<lparr>store := (store n)\<lparr>db := snd (w (db (store n)))\<rparr>\<rparr>)"
proof -
  obtain r n' where run: "on_store m n = (r, n')"
    by force
  then obtain s where s: "n' = n\<lparr>store := s\<rparr>"
    by (elim on_storeE)
  have "(r, db s) = w (db (store n))" "healthy s"
    using on_store_healthy [OF run assms] s by auto
  moreover from this assms(2) have "s = (store n)\<lparr>db := db s\<rparr>"
    by (simp add: healthy_def)
  ultimately show ?thesis
    using run s by (metis fst_conv snd_conv)
qed

lemma healthy_runs:
  assumes "healthy (store n)"
  shows "on_store LastIndexAndTerm n = (last_pos (db (store n)), n)"
    and "on_store SnapshotIndexTerm n = (snap_pos (db (store n)), n)"
    and "on_store (Term i) n = (term_pos i (db (store n)), n)"
    and "on_store (Entry_at i) n = (Inr (entry_pos i (db (store n))), n)"
    and "on_store (EntriesFrom i l) n = (entries_from i l (db (store n)), n)"
    and "on_store (SaveTermVote t v) n = (Inr (), n\<lparr>store := (store n)\<lparr>db := save_term_vote t v (db (store n))\<rparr>\<rparr>)"
    and "on_store (AppendEntries es) n = (Inr (), n\<lparr>store := (store n)\<lparr>db := append_entries es (db (store n))\<rparr>\<rparr>)"
    and "on_store (ApplySet i k x) n = (Inr (), n\<lparr>store := (store n)\<lparr>db := apply_set i k x (db (store n))\<rparr>\<rparr>)"
  using healthy_on_store [OF implements_LastIndexAndTerm assms] healthy_on_store [OF implements_SnapshotIndexTerm assms]
    healthy_on_store [OF implements_Term assms] healthy_on_store [OF implements_Entry_at assms]
    healthy_on_store [OF implements_EntriesFrom assms] healthy_on_store [OF implements_SaveTermVote assms]
    healthy_on_store [OF implements_AppendEntries assms] healthy_on_store [OF implements_ApplySet assms]
  by simp_all

lemma healthy_db [simp]: "healthy (s\<lparr>db := T\<rparr>) = healthy s"
  by (simp add: healthy_def)

text \<open>
  Each iteration applies exactly the next entry, or it ends the loop and leaves the tables and
  the applied index as they are.
\<close>

lemma apply_loop_step:
  assumes "lastApplied n < commitIndex n" and "snap_pos (db (store n)) = Inr (si, st)" and "si \<le> lastApplied n"
  shows "(\<exists>n'. apply_loop n = (False, n') \<and> store_only n n' \<and> db (store n') = db (store n)
        \<and> (healthy (store n) \<longrightarrow> \<not> applicable (lastApplied n + 1) (db (store n))))
    \<or> (\<exists>m. apply_loop n = apply_loop (m\<lparr>lastApplied := lastApplied n + 1\<rparr>) \<and> store_only n m
        \<and> (healthy (store n) \<longrightarrow> healthy (store m))
        \<and> db (store m) = apply_index (lastApplied n + 1) (db (store n)) \<and> applicable (lastApplied n + 1) (db (store n)))"
proof -
  let ?i = "lastApplied n + 1"
  obtain r n1 where e: "on_store (Entry_at ?i) n = (r, n1)"
    by force
  note n1 = store_only_on_store [OF e] reads_db(4) [OF e]
  have h1: "r = Inr (entry_pos ?i (db (store n))) \<and> healthy (store n1)" if "healthy (store n)"
    using on_store_healthy [OF e implements_Entry_at that] by simp
  note run = apply_loop.simps [of n, unfolded Let_def e if_P [OF assms(1)]]
  show ?thesis
  proof (cases r)
    case (Inl err)
    with n1 run h1 show ?thesis
      by auto
  next
    case (Inr p)
    then have p: "p = entry_pos ?i (db (store n))"
      using on_store_db [OF e implements_Entry_at] by auto
    show ?thesis
    proof (cases "log_entry (db (store n)) ?i")
      case None
      obtain q n2 where s: "on_store SnapshotIndexTerm n1 = (q, n2)"
        by force
      note n2 = store_only_on_store [OF s] reads_db(2) [OF s]
      have "q = Inr (si, st) \<or> (\<exists>err. q = Inl err)"
        using on_store_db [OF s implements_SnapshotIndexTerm] assms(2) n1 by auto
      moreover have "\<not> ?i \<le> si"
        using assms(1,3) u64_less_Suc [OF assms(1)] by auto
      ultimately have "apply_loop n = (False, n2)"
        using run Inr p None s by (auto simp: entry_pos_log)
      moreover have "\<not> applicable ?i (db (store n))"
        using None by (simp add: applicable_def)
      ultimately show ?thesis
        using n1 n2 store_only_trans by auto
    next
      case (Some x)
      obtain t c where x: "x = (t, c)"
        by force
      show ?thesis
      proof (cases "decodeCommand c")
        case (Inl err)
        with run Inr p Some x n1 show ?thesis
          by (auto simp: entry_pos_log applicable_def)
      next
        case dec: (Inr cmd)
        obtain q n2 where a: "on_store (ApplySet ?i (cmdKey cmd) (cmdValue cmd)) n1 = (q, n2)"
          by force
        note n2 = store_only_on_store [OF a] on_store_db [OF a implements_ApplySet]
        have h2: "(\<exists>u. q = Inr u) \<and> healthy (store n2)" if "healthy (store n)"
          using on_store_healthy [OF a implements_ApplySet] h1 [OF that] by simp
        have "apply_loop n = (case q of Inl _ \<Rightarrow> (False, n2) | Inr _ \<Rightarrow> apply_loop (n2\<lparr>lastApplied := ?i\<rparr>))"
          using run Inr p Some x dec a by (simp add: entry_pos_log split: sum.splits)
        moreover have "apply_index ?i (db (store n)) = apply_set ?i (cmdKey cmd) (cmdValue cmd) (db (store n))"
          "applicable ?i (db (store n))"
          using Some x dec by (auto simp: apply_index_def applicable_def)
        ultimately show ?thesis
          using n1 n2 h2 store_only_trans [OF n1(1) n2(1)] by (cases q) auto
      qed
    qed
  qed
qed


lemma unat_add_small: "unat (i :: u64) + k < 2 ^ 64 \<Longrightarrow> unat (i + of_nat k) = unat i + k"
  by (simp add: unat_word_ariths unat_of_nat mod_add_right_eq)

lemma apply_loop_replays:
  assumes "apply_loop n = (b, n')" and "lastApplied n \<le> commitIndex n"
    and "snap_pos (db (store n)) = Inr (si, st)" and "si \<le> lastApplied n" and "wf_tables (db (store n))"
  shows "\<exists>k. unat (lastApplied n') = unat (lastApplied n) + k \<and> lastApplied n' \<le> commitIndex n
    \<and> commitIndex n' = commitIndex n \<and> db (store n') = replay k (lastApplied n) (db (store n))
    \<and> (b \<longleftrightarrow> lastApplied n' = commitIndex n)
    \<and> (\<forall>j. lastApplied n < j \<and> j \<le> lastApplied n' \<longrightarrow> applicable j (db (store n)))
    \<and> (healthy (store n) \<and> (\<forall>j. lastApplied n < j \<and> j \<le> commitIndex n \<longrightarrow> applicable j (db (store n))) \<longrightarrow> b)"
  using assms
proof (induction "unat (commitIndex n) - unat (lastApplied n)" arbitrary: n rule: less_induct)
  case less
  show ?case
  proof (cases "lastApplied n < commitIndex n")
    case False
    with less.prems show ?thesis
      by (intro exI [of _ 0]) (auto simp: apply_loop_done)
  next
    case True
    let ?i = "lastApplied n + 1"
    have i: "unat ?i = Suc (unat (lastApplied n))" "?i \<le> commitIndex n" "lastApplied n < ?i"
      using True unat_u64_Suc [OF True] u64_Suc_le [OF True] u64_less_Suc [OF True] by auto
    from apply_loop_step [OF True less.prems(3,4)] show ?thesis
    proof (elim disjE exE conjE)
      fix m
      assume "apply_loop n = (False, m)" "store_only n m" "db (store m) = db (store n)"
        "healthy (store n) \<longrightarrow> \<not> applicable ?i (db (store n))"
      with less.prems True i show ?thesis
        by (intro exI [of _ 0]) (auto simp: store_only_def)
    next
      fix m
      assume run: "apply_loop n = apply_loop (m\<lparr>lastApplied := ?i\<rparr>)" and "store_only n m"
        and h: "healthy (store n) \<longrightarrow> healthy (store m)" and db: "db (store m) = apply_index ?i (db (store n))" and app: "applicable ?i (db (store n))"
      let ?m = "m\<lparr>lastApplied := ?i\<rparr>"
      have ci: "commitIndex ?m = commitIndex n"
        using \<open>store_only n m\<close> by (auto simp: store_only_def)
      note same = same_log_apply_index [OF less.prems(5), of ?i]
      have "\<exists>k. unat (lastApplied n') = unat (lastApplied ?m) + k \<and> lastApplied n' \<le> commitIndex ?m
          \<and> commitIndex n' = commitIndex ?m \<and> db (store n') = replay k (lastApplied ?m) (db (store ?m))
          \<and> (b \<longleftrightarrow> lastApplied n' = commitIndex ?m)
          \<and> (\<forall>j. lastApplied ?m < j \<and> j \<le> lastApplied n' \<longrightarrow> applicable j (db (store ?m)))
          \<and> (healthy (store ?m) \<and> (\<forall>j. lastApplied ?m < j \<and> j \<le> commitIndex ?m \<longrightarrow> applicable j (db (store ?m))) \<longrightarrow> b)"
      proof (rule less.hyps)
        show "unat (commitIndex ?m) - unat (lastApplied ?m) < unat (commitIndex n) - unat (lastApplied n)"
          using i(1) ci True by (simp add: word_less_nat_alt)
        show "apply_loop ?m = (b, n')"
          using run less.prems(1) by simp
        show "si \<le> lastApplied ?m"
          using less.prems(4) i(3) by simp
      qed (use i(2) ci db same less.prems(3) in \<open>auto simp: same_log_def\<close>)
      then obtain k where k: "unat (lastApplied n') = unat ?i + k" "lastApplied n' \<le> commitIndex n"
          "commitIndex n' = commitIndex n" "db (store n') = replay k ?i (apply_index ?i (db (store n)))"
          "b \<longleftrightarrow> lastApplied n' = commitIndex n"
          and live: "healthy (store m) \<Longrightarrow> (\<And>j. ?i < j \<Longrightarrow> j \<le> commitIndex n \<Longrightarrow> applicable j (db (store n))) \<Longrightarrow> b"
          and rest: "\<And>j. ?i < j \<Longrightarrow> j \<le> lastApplied n' \<Longrightarrow> applicable j (db (store n))"
        using ci db by (auto simp: applicable_apply_index [OF less.prems(5)])
      have "applicable j (db (store n))" if "lastApplied n < j" "j \<le> lastApplied n'" for j
        using rest [of j] app u64_Suc_le [OF that(1)] that(2) by (cases "j = ?i") auto
      moreover have "b" if "healthy (store n)" "\<forall>j. lastApplied n < j \<and> j \<le> commitIndex n \<longrightarrow> applicable j (db (store n))"
        using live h that i(3) by (meson less_trans)
      ultimately show ?thesis
        using k i(1) by (intro exI [of _ "Suc k"]) auto
    qed
  qed
qed


text \<open>Metrics and compaction around the loop.\<close>

lemma refresh_fields [simp]:
  "lastApplied (refreshMetricsLocked n) = lastApplied n" "commitIndex (refreshMetricsLocked n) = commitIndex n"
  "matchIndex (refreshMetricsLocked n) = matchIndex n" "nextIndex (refreshMetricsLocked n) = nextIndex n"
  "peers (refreshMetricsLocked n) = peers n" "currentTerm (refreshMetricsLocked n) = currentTerm n"
  "role (refreshMetricsLocked n) = role n" "nid (refreshMetricsLocked n) = nid n" "leaderID (refreshMetricsLocked n) = leaderID n"
  by (auto simp: refreshMetricsLocked_def on_store_def Let_def split: prod.splits)

lemma store_only_snd: "store_only n (snd (on_store m n))"
  by (metis prod.collapse store_only_on_store)

lemma compactIfNeeded_cases:
  "store_only n (compactIfNeededLocked n)
   \<and> (db (store (compactIfNeededLocked n)) = db (store n)
      \<or> (\<exists>t. db (store (compactIfNeededLocked n)) = create_snapshot (lastApplied n) t (db (store n))))"
proof (cases "snapshotThreshold n = 0 \<or> lastApplied n = 0")
  case True
  then show ?thesis
    by (simp add: compactIfNeededLocked_def)
next
  case False
  obtain r n1 where s: "on_store SnapshotIndexTerm n = (r, n1)"
    by force
  note n1 = store_only_on_store [OF s] reads_db(2) [OF s]
  then have la: "lastApplied n1 = lastApplied n"
    by (auto simp: store_only_def)
  obtain q n2 where t: "on_store (Term (lastApplied n1)) n1 = (q, n2)"
    by force
  note n2 = store_only_on_store [OF t] reads_db(3) [OF t]
  then have la2: "lastApplied n2 = lastApplied n"
    using la by (auto simp: store_only_def)
  have final: "compactIfNeededLocked n \<in> {n1, n2} \<union> range (\<lambda>t. snd (on_store (CreateSnapshot (lastApplied n2) t) n2))"
    using False s t by (auto simp: compactIfNeededLocked_def split: sum.splits prod.splits if_splits)
  have snap: "db (store (snd (on_store (CreateSnapshot (lastApplied n2) t) n2))) \<in> {db (store n), create_snapshot (lastApplied n) t (db (store n))}" for t
  proof -
    obtain x m where c: "on_store (CreateSnapshot (lastApplied n2) t) n2 = (x, m)"
      by force
    from on_store_db [OF c implements_CreateSnapshot] show ?thesis
      unfolding c using n1 n2 la2 by auto
  qed
  have frame: "store_only n n2" "\<And>t. store_only n (snd (on_store (CreateSnapshot (lastApplied n2) t) n2))"
    using n1 n2 store_only_trans store_only_snd by blast+
  from final consider "compactIfNeededLocked n = n1" | "compactIfNeededLocked n = n2"
    | x where "compactIfNeededLocked n = snd (on_store (CreateSnapshot (lastApplied n2) x) n2)"
    by auto
  then show ?thesis
    using n1 n2 frame snap by cases auto
qed

lemma applied_replay:
  assumes "wf_tables T" and "\<And>j. i < j \<Longrightarrow> j \<le> l \<Longrightarrow> applicable j T" and "unat l = unat i + k"
    and "meta_uint T ''last_applied'' = Inr i"
  shows "meta_uint (replay k i T) ''last_applied'' = Inr l"
  using assms
proof (induction k arbitrary: i T)
  case 0
  then have "i = l"
    by (simp add: word_unat_eq_iff)
  with 0 show ?case
    by simp
next
  case (Suc k)
  have less: "i < l"
    using Suc.prems(3) by (simp add: word_less_nat_alt)
  note i = unat_u64_Suc [OF less] u64_less_Suc [OF less] u64_Suc_le [OF less]
  have "applicable (i + 1) T"
    using Suc.prems(2) i by blast
  then have "meta_uint (apply_index (i + 1) T) ''last_applied'' = Inr (i + 1)"
    by (auto simp: applicable_def apply_index_def applied_apply_set)
  moreover have "applicable j (apply_index (i + 1) T)" if "i + 1 < j" "j \<le> l" for j
    using Suc.prems(2) [of j] i(2) that by (simp add: applicable_apply_index [OF Suc.prems(1)])
  moreover have "wf_tables (apply_index (i + 1) T)"
    using same_log_apply_index [OF Suc.prems(1)] by (simp add: same_log_def)
  ultimately show ?case
    using Suc.IH [of "apply_index (i + 1) T" "i + 1"] Suc.prems(3) i(1) by simp
qed

lemma applyCommitted_run:
  assumes "lastApplied n \<le> commitIndex n" and "wf_tables (db (store n))"
    and "snap_pos (db (store n)) = Inr (si, st)" and "si \<le> lastApplied n"
    and "meta_uint (db (store n)) ''last_applied'' = Inr (lastApplied n)"
  shows "\<exists>k. let n' = applyCommittedLocked n in
    unat (lastApplied n') = unat (lastApplied n) + k \<and> lastApplied n' \<le> commitIndex n \<and> commitIndex n' = commitIndex n
    \<and> kv (db (store n')) = kv (replay k (lastApplied n) (db (store n)))
    \<and> meta_uint (db (store n')) ''last_applied'' = Inr (lastApplied n')
    \<and> (healthy (store n) \<and> (\<forall>j. lastApplied n < j \<and> j \<le> commitIndex n \<longrightarrow> applicable j (db (store n)))
        \<longrightarrow> lastApplied n' = commitIndex n)"
proof -
  obtain b m where a: "apply_loop n = (b, m)"
    by force
  from apply_loop_replays [OF a assms(1,3,4,2)] obtain k where k: "unat (lastApplied m) = unat (lastApplied n) + k"
      "lastApplied m \<le> commitIndex n" "commitIndex m = commitIndex n" "db (store m) = replay k (lastApplied n) (db (store n))"
      "b \<longleftrightarrow> lastApplied m = commitIndex n" "\<And>j. lastApplied n < j \<Longrightarrow> j \<le> lastApplied m \<Longrightarrow> applicable j (db (store n))"
      "healthy (store n) \<and> (\<forall>j. lastApplied n < j \<and> j \<le> commitIndex n \<longrightarrow> applicable j (db (store n))) \<longrightarrow> b"
    by blast
  have m: "meta_uint (db (store m)) ''last_applied'' = Inr (lastApplied m)"
    using applied_replay [OF assms(2) k(6,1) assms(5)] k(4) by simp
  let ?c = "compactIfNeededLocked m"
  have c: "lastApplied ?c = lastApplied m" "commitIndex ?c = commitIndex m" "kv (db (store ?c)) = kv (db (store m))"
    "meta_uint (db (store ?c)) ''last_applied'' = Inr (lastApplied m)"
    using compactIfNeeded_cases [of m] m
    by (auto simp: store_only_def create_snapshot_def applied_set_snapshot)
      (auto simp: set_snapshot_meta_def)
  show ?thesis
    by (rule exI [of _ k]) (use k m c in \<open>auto simp: applyCommittedLocked_def a Let_def refresh_store\<close>)
qed


text \<open>
  C21: \<open>applyCommittedLocked\<close> replays the log: the entries after the applied index are applied one by
  one, in order, each once, up to an index that never exceeds the commit index; the index in
  memory and the durable one agree afterwards, also when the database failed in between; and
  if it does not fail and every committed entry decodes, everything committed is applied.
\<close>

theorem applyCommitted_replays:
  assumes "lastApplied n \<le> commitIndex n" and "wf_tables (db (store n))"
    and "snap_pos (db (store n)) = Inr (si, st)" and "si \<le> lastApplied n"
    and "meta_uint (db (store n)) ''last_applied'' = Inr (lastApplied n)"
  shows "\<exists>k. let n' = applyCommittedLocked n in
    unat (lastApplied n') = unat (lastApplied n) + k \<and> lastApplied n' \<le> commitIndex n \<and> commitIndex n' = commitIndex n
    \<and> kv (db (store n')) = kv (replay k (lastApplied n) (db (store n)))
    \<and> meta_uint (db (store n')) ''last_applied'' = Inr (lastApplied n')
    \<and> (healthy (store n) \<and> (\<forall>j. lastApplied n < j \<and> j \<le> commitIndex n \<longrightarrow> applicable j (db (store n)))
        \<longrightarrow> lastApplied n' = commitIndex n)"
  using assms by (rule applyCommitted_run)

text \<open>A node that holds one committed write that is not applied yet.\<close>

lemma one_committed:
  "\<exists>s. healthy s \<and> wf_tables (db s) \<and> snap_pos (db s) = Inr (0, 0) \<and> meta_uint (db s) ''last_applied'' = Inr 0
     \<and> last_pos (db s) = Inr (1, 1)
     \<and> log_entry (db s) 1 = Some (1, encodeSetCommand ''k'' ''v'')
     \<and> (\<forall>j. 0 < j \<and> j \<le> 1 \<longrightarrow> applicable j (db s))"
proof -
  let ?e = "\<lparr>entryIndex = 1, entryTerm = 1, entryCommand = encodeSetCommand ''k'' ''v''\<rparr>"
  obtain s where s: "AppendEntries [?e] fresh_store = (Inr (), s)" "healthy s" and T: "db s = append_entries [?e] (db fresh_store)"
    using AppendEntries.when_healthy [OF healthy_fresh, of "[?e]"] by auto
  have wf: "wf_tables (db s)"
    unfolding T by (rule wf_append_entries) (simp_all add: wf_fresh ok_index_1)
  have meta: "metadata (db s) = metadata (db fresh_store)"
    unfolding T by (simp add: append_entries_def)
  have snap: "snap_pos (db s) = Inr (0, 0)" and la: "meta_uint (db s) ''last_applied'' = Inr 0"
    using snap_pos_cong [OF meta] meta_uint_cong [OF meta] by (simp_all add: snap_pos_fresh meta_fresh numeric_keys_def)
  have lp: "last_pos (db s) = Inr (1, 1)"
    unfolding T by (simp add: append_entries_def last_pos_def upsert_log_row_def fresh_store_def empty_tables_def)
  have l1: "log_entry (db s) 1 = Some (1, encodeSetCommand ''k'' ''v'')"
    unfolding T by (simp add: log_entry_append)
  have "decodeCommand (encodeSetCommand ''k'' ''v'') = Inr \<lparr>cmdOp = ''set'', cmdKey = ''k'', cmdValue = ''v''\<rparr>"
    by (rule decode_encode_set) code_simp+
  with l1 have "applicable 1 (db s)"
    by (simp add: applicable_def)
  moreover have "j = 1" if "0 < j" "j \<le> 1" for j :: u64
    using that by (simp add: word_less_nat_alt word_le_nat_alt word_unat_eq_iff)
  ultimately show ?thesis
    using s(2) wf snap la lp l1 by (intro exI [of _ s]) auto
qed

theorem applyCommitted_replays_witness:
  "\<exists>s. lastApplied (applyCommittedLocked ((fresh_node ''n1'' three_peers)\<lparr>store := s, commitIndex := 1\<rparr>)) = 1"
proof -
  obtain s where s: "healthy s" "wf_tables (db s)" "snap_pos (db s) = Inr (0, 0)" "meta_uint (db s) ''last_applied'' = Inr 0"
    "\<forall>j. 0 < j \<and> j \<le> 1 \<longrightarrow> applicable j (db s)"
    using one_committed by blast
  let ?n = "(fresh_node ''n1'' three_peers)\<lparr>store := s, commitIndex := 1\<rparr>"
  have n: "lastApplied ?n = 0" "commitIndex ?n = 1" "store ?n = s"
    by (simp_all add: fresh_node_def)
  have "lastApplied (applyCommittedLocked ?n) = 1"
    using applyCommitted_replays [of ?n 0 0] s n by (auto simp: Let_def)
  then show ?thesis
    by blast
qed

section \<open>Advancing the commit index\<close>

text \<open>What may be committed: an entry of the leader's own term that a majority is known to hold.\<close>

definition committable :: "u64 \<Rightarrow> Node \<Rightarrow> bool" where
  "committable i n \<longleftrightarrow> term_pos i (db (store n)) = Inr (currentTerm n, True) \<and> majorityLocked n \<le> count_replicas i n"

definition commit_only :: "Node \<Rightarrow> Node \<Rightarrow> bool" where
  "commit_only n n' \<longleftrightarrow> (\<exists>s c. n' = n\<lparr>store := s, commitIndex := c\<rparr> \<and> db s = db (store n) \<and> (healthy (store n) \<longrightarrow> healthy s))"

lemma commit_onlyI:
  "n' = n\<lparr>store := s, commitIndex := c\<rparr> \<Longrightarrow> db s = db (store n) \<Longrightarrow> (healthy (store n) \<Longrightarrow> healthy s) \<Longrightarrow> commit_only n n'"
  unfolding commit_only_def by blast

lemma commit_only_refl [simp]: "commit_only n n"
  by (rule commit_onlyI [where s = "store n" and c = "commitIndex n"]) simp_all

lemma commit_only_trans:
  assumes "commit_only n n'" and "commit_only n' n''"
  shows "commit_only n n''"
proof -
  from assms obtain s c s' c' where "n' = n\<lparr>store := s, commitIndex := c\<rparr>" "db s = db (store n)"
    "healthy (store n) \<longrightarrow> healthy s" "n'' = n'\<lparr>store := s', commitIndex := c'\<rparr>" "db s' = db (store n')"
    "healthy (store n') \<longrightarrow> healthy s'"
    unfolding commit_only_def by blast
  then show ?thesis
    by (intro commit_onlyI [where s = s' and c = c']) auto
qed

lemma commit_only_update [simp]: "commit_only n (n\<lparr>commitIndex := c\<rparr>)"
  by (rule commit_onlyI [where s = "store n" and c = c]) simp_all

lemma commit_only_read:
  assumes "on_store m n = (r, n')" and "implements m (\<lambda>T. (q T, T))"
  shows "commit_only n n'" and "commitIndex n' = commitIndex n"
proof -
  obtain s where n': "n' = n\<lparr>store := s\<rparr>"
    using store_only_on_store [OF assms(1)] by (auto simp: store_only_def)
  show "commit_only n n'"
    by (rule commit_onlyI [where s = s and c = "commitIndex n"])
      (use n' on_store_read_db [OF assms] on_store_healthy [OF assms] in auto)
  show "commitIndex n' = commitIndex n"
    by (simp add: n')
qed

lemma commit_only_same:
  assumes "commit_only n n'"
  shows "committable i n' = committable i n" "majorityLocked n' = majorityLocked n" "currentTerm n' = currentTerm n"
    "count_replicas i n' = count_replicas i n" "db (store n') = db (store n)"
  using assms by (auto simp: commit_only_def committable_def majorityLocked_def count_replicas_def)

lemma advance_loop_commits:
  assumes "advance_loop (majorityLocked n) i k n = (b, n')" and "unat i + k < 2 ^ 64" and "commitIndex n < i"
  shows "commit_only n n' \<and> commitIndex n \<le> commitIndex n'
    \<and> (commitIndex n' = commitIndex n
       \<or> committable (commitIndex n') n \<and> i \<le> commitIndex n' \<and> unat (commitIndex n') < unat i + k)
    \<and> (healthy (store n) \<and> (\<exists>p. snap_pos (db (store n)) = Inr p) \<longrightarrow>
        b \<and> (\<forall>j. i \<le> j \<and> unat j < unat i + k \<and> committable j n \<longrightarrow> j \<le> commitIndex n'))"
  using assms
proof (induction k arbitrary: i n)
  case (Suc k)
  obtain r n1 where t: "on_store (Term i) n = (r, n1)"
    by force
  note n1 = commit_only_read [OF t implements_Term] 
  note same1 = commit_only_same [OF n1(1)]
  have i: "unat (i + 1) = Suc (unat i)" "i < i + 1"
    using Suc.prems(2) unat_add_small [of i 1] by (auto simp: word_less_nat_alt)
  have spec: "r = term_pos i (db (store n)) \<or> (\<exists>e. r = Inl e)"
    using on_store_db [OF t implements_Term] by auto
  have live: "r = term_pos i (db (store n)) \<and> (\<exists>x ok. r = Inr (x, ok))" if "healthy (store n)" "\<exists>p. snap_pos (db (store n)) = Inr p"
    using on_store_healthy [OF t implements_Term that(1)] term_pos_ok that(2) by fastforce
  show ?case
  proof (cases r)
    case (Inl e)
    with Suc.prems t n1 live show ?thesis
      by auto
  next
    case (Inr p)
    obtain tm ok where p: "p = (tm, ok)"
      by force
    have tp: "term_pos i (db (store n)) = Inr (tm, ok)"
      using spec Inr p by auto
    define m where "m = (if committable i n then n1\<lparr>commitIndex := i\<rparr> else n1)"
    have run: "advance_loop (majorityLocked n) (i + 1) k m = (b, n')"
      using Suc.prems(1) t Inr p same1 tp by (auto simp: m_def committable_def split: if_splits)
    have m: "commit_only n m"
      using n1(1) commit_only_trans commit_only_update by (auto simp: m_def)
    note same = commit_only_same [OF m]
    have ci: "commitIndex m = (if committable i n then i else commitIndex n)"
      by (simp add: m_def n1(2))
    have "commitIndex m < i + 1"
      using ci Suc.prems(3) i(2) by auto
    with Suc.IH [of m "i + 1"] run Suc.prems(2) i(1) same
    have IH: "commit_only m n'" "commitIndex m \<le> commitIndex n'"
      "commitIndex n' = commitIndex m \<or> committable (commitIndex n') n \<and> i + 1 \<le> commitIndex n' \<and> unat (commitIndex n') < unat i + Suc k"
      "healthy (store m) \<Longrightarrow> \<exists>p. snap_pos (db (store n)) = Inr p \<Longrightarrow>
        b \<and> (\<forall>j. i + 1 \<le> j \<and> unat j < unat i + Suc k \<and> committable j n \<longrightarrow> j \<le> commitIndex n')"
      by auto
    have "commit_only n n'"
      using m IH(1) commit_only_trans by blast
    moreover have "commitIndex n \<le> commitIndex n'"
      using IH(2) ci Suc.prems(3) by (auto split: if_splits)
    moreover have "commitIndex n' = commitIndex n \<or> committable (commitIndex n') n \<and> i \<le> commitIndex n' \<and> unat (commitIndex n') < unat i + Suc k"
      using IH(3) ci i(2) by (auto split: if_splits)
    moreover have "j \<le> commitIndex n'" if "healthy (store n)" "\<exists>p. snap_pos (db (store n)) = Inr p"
      "i \<le> j" "unat j < unat i + Suc k" "committable j n" for j
    proof (cases "j = i")
      case True
      with that ci IH(2) show ?thesis by simp
    next
      case False
      with that(3) have "i + 1 \<le> j"
        by (intro u64_Suc_le) simp
      with IH(4) that m show ?thesis
        by (auto simp: commit_only_def)
    qed
    moreover have "b" if "healthy (store n)" "\<exists>p. snap_pos (db (store n)) = Inr p"
      using IH(4) that m by (auto simp: commit_only_def)
    ultimately show ?thesis
      by blast
  qed
qed (auto simp: word_le_nat_alt)


lemma commitIndex_apply_loop: "apply_loop n = (b, n') \<Longrightarrow> commitIndex n' = commitIndex n"
  by (rule apply_loop_invariant [where P = "\<lambda>m. commitIndex m = commitIndex n"])
    (auto dest!: store_only_on_store simp: store_only_def)

lemma commitIndex_applyCommitted [simp]: "commitIndex (applyCommittedLocked n) = commitIndex n"
proof -
  obtain b m where a: "apply_loop n = (b, m)"
    by force
  have "commitIndex (compactIfNeededLocked m) = commitIndex m"
    using compactIfNeeded_cases [of m] by (auto simp: store_only_def)
  then show ?thesis
    by (simp add: applyCommittedLocked_def a commitIndex_apply_loop [OF a])
qed

lemma advanceCommit_run:
  assumes "last_pos (db (store n)) = Inr (l, t)" and "l < 2 ^ 63" and "commitIndex n < 2 ^ 63"
  shows "\<exists>n2. commit_only n n2 \<and> (advanceCommitLocked n = n2 \<or> advanceCommitLocked n = applyCommittedLocked n2)
    \<and> commitIndex n \<le> commitIndex n2
    \<and> (commitIndex n2 = commitIndex n \<or> committable (commitIndex n2) n \<and> commitIndex n2 \<le> l)
    \<and> (node_ok n \<longrightarrow> advanceCommitLocked n = applyCommittedLocked n2
        \<and> (\<forall>j. commitIndex n < j \<and> j \<le> l \<and> committable j n \<longrightarrow> j \<le> commitIndex n2))"
proof -
  obtain r n1 where s: "on_store LastIndexAndTerm n = (r, n1)"
    by force
  note n1 = commit_only_read [OF s implements_LastIndexAndTerm]
  note same = commit_only_same [OF n1(1)]
  have r: "r = Inr (l, t) \<or> (\<exists>e. r = Inl e)"
    using on_store_db [OF s implements_LastIndexAndTerm] assms(1) by auto
  have live: "r = Inr (l, t) \<and> healthy (store n1) \<and> (\<exists>p. snap_pos (db (store n1)) = Inr p)" if "node_ok n"
    using on_store_healthy [OF s implements_LastIndexAndTerm] that assms(1) snap_pos_ok [of "db (store n)"] same(5)
    by (auto simp: node_ok_def wf_tables_def)
  show ?thesis
  proof (cases "r = Inr (l, t)")
    case False
    with r s n1 live show ?thesis
      by (intro exI [of _ n1]) (auto simp: advanceCommitLocked_def)
  next
    case True
    define f where "f = commitIndex n1 + 1"
    let ?k = "if f \<le> l then unat (l - f) + 1 else 0"
    have f: "commitIndex n1 < f" "unat f = Suc (unat (commitIndex n))"
      using assms(3) n1(2) u64_less_Suc [of "commitIndex n" "2 ^ 63"] unat_u64_Suc [of "commitIndex n" "2 ^ 63"]
      by (auto simp: f_def)
    have k: "unat f + ?k = max (unat f) (Suc (unat l))"
      by (auto simp: unat_sub word_le_nat_alt max_def)
    have "unat l < 2 ^ 63" "unat (commitIndex n) < 2 ^ 63"
      using assms(2,3) by (simp_all add: word_less_nat_alt)
    then have bound: "unat f + ?k < 2 ^ 64"
      by (subst k) (simp add: f(2) max_def)
    obtain b n2 where a: "advance_loop (majorityLocked n1) f ?k n1 = (b, n2)"
      by force
    note * = advance_loop_commits [OF a bound f(1), unfolded k]
    have run: "advanceCommitLocked n = (if b then applyCommittedLocked n2 else n2)"
      using True s a [unfolded f_def] by (simp add: advanceCommitLocked_def Let_def del: advance_loop.simps)
    have range: "unat j < max (unat f) (Suc (unat l)) \<and> f \<le> j \<longleftrightarrow> commitIndex n < j \<and> j \<le> l" for j
      using f by (auto simp: word_le_nat_alt word_less_nat_alt max_def)
    from * range [of "commitIndex n2"] have "commitIndex n2 = commitIndex n \<or> committable (commitIndex n2) n \<and> commitIndex n2 \<le> l"
      by (auto simp: same n1(2))
    moreover have "commit_only n n2"
      using * n1(1) commit_only_trans by blast
    moreover from * live have "b" if "node_ok n"
      using that by blast
    moreover from * live range have "j \<le> commitIndex n2" if "node_ok n" "commitIndex n < j" "j \<le> l" "committable j n" for j
      using that by (auto simp: same)
    ultimately show ?thesis
      using * by (intro exI [of _ n2]) (auto simp: n1(2) run)
  qed
qed


lemma one_committable:
  "\<exists>s. healthy s \<and> wf_tables (db s) \<and> last_pos (db s) = Inr (1, 1)
     \<and> committable 1 ((fresh_node ''n1'' three_peers)\<lparr>store := s, currentTerm := 1, role := RoleLeader, matchIndex := (\<lambda>_. 0)(''n2'' := 1)\<rparr>)"
proof -
  obtain s where s: "healthy s" "wf_tables (db s)" "snap_pos (db s) = Inr (0, 0)" "last_pos (db s) = Inr (1, 1)"
    "log_entry (db s) 1 = Some (1, encodeSetCommand ''k'' ''v'')"
    using one_committed by blast
  have "term_pos 1 (db s) = Inr (1, True)"
    using term_pos_log [OF s(3), of 1] s(5) by simp
  with s show ?thesis
    by (intro exI [of _ s]) (simp add: committable_def count_replicas_def majorityLocked_def fresh_node_def three_peers_def)
qed


end
