(* ===== verification/Raft_Client.thy ===== *)
theory Raft_Client
  imports Raft_Commit
begin

text \<open>
  What clients see: \<open>Write\<close> and \<open>Read\<close>, on every branch, and the path of a write through the log,
  the commit index and the key-value table to the reads that follow it.
\<close>

section \<open>The whole handlers\<close>

text \<open>
  \<open>forward\<close> is the call of the leader's client, \<open>step\<close> and \<open>round\<close> are what a round of replication and
  everything else do to the node until the lock is taken again; \<open>None\<close> is a \<open>Write\<close> that is still
  waiting after the given number of rounds.
\<close>

definition Write_rpc :: "(bytes \<Rightarrow> ClientWriteRequest option \<Rightarrow> ClientWriteResponse option result) \<Rightarrow> (nat \<Rightarrow> Node \<Rightarrow> Node)
    \<Rightarrow> (nat \<Rightarrow> bytes option) \<Rightarrow> nat \<Rightarrow> ClientWriteRequest option \<Rightarrow> Node \<Rightarrow> ClientWriteResponse option result option \<times> Node" where
  "Write_rpc forward step expired rounds req n =
     (case Write_begin req n of
        (WriteReturn r, n1) \<Rightarrow> (Some (map_sum id Some r), n1)
      | (WriteForward leader, n1) \<Rightarrow> (Some (forward leader req), n1)
      | (WriteWait index term, n1) \<Rightarrow>
          (case Write_wait step expired index term 0 rounds n1 of (answer, n2) \<Rightarrow> (map_option (\<lambda>resp. Inr (Some resp)) answer, n2)))"

definition Read_rpc :: "(bytes \<Rightarrow> ClientReadRequest option \<Rightarrow> ClientReadResponse option result) \<Rightarrow> (Node \<Rightarrow> int \<times> Node)
    \<Rightarrow> ClientReadRequest option \<Rightarrow> Node \<Rightarrow> ClientReadResponse option result \<times> Node" where
  "Read_rpc forward round req n =
     (case Read_begin req n of
        ReadReturn r \<Rightarrow> (Inr (Some r), n)
      | ReadForward leader \<Rightarrow> (forward leader req, n)
      | ReadConfirm \<Rightarrow>
          (case round n of (successes, n1) \<Rightarrow>
             (case Read_finish req successes n1 of (r, n2) \<Rightarrow> (map_sum id Some r, n2))))"

section \<open>Waiting for a write\<close>

text \<open>
  \<open>Write\<close> reports success only in a state where the node is still leader of the term in which
  it appended the entry and the entry's index is committed; the response carries that index
  and term.
\<close>

lemma Write_wait_success:
  assumes "Write_wait step expired index term k rounds n = (Some resp, n')" and "cwrSuccess resp"
  shows "role n' = RoleLeader \<and> currentTerm n' = term \<and> index \<le> commitIndex n'
    \<and> resp = \<lparr>cwrSuccess = True, cwrLeaderId = nid n', cwrError = [], cwrIndex = index, cwrTerm = term\<rparr>"
  using assms
proof (induction rounds arbitrary: k n)
  case (Suc rounds)
  show ?case
  proof (cases "Write_check index term (step k n)")
    case None
    with Suc show ?thesis
      by (auto simp: Let_def split: option.splits)
  next
    case (Some r)
    with Suc.prems show ?thesis
      by (auto simp: Let_def Write_check_def newNotLeaderResponse_def split: if_splits)
  qed
qed simp

text \<open>
  The waiting loop of \<open>Write\<close> ends: once the request's context has expired, at the latest in
  round \<open>k + d\<close>, an answer is given, whatever replication does.
\<close>

lemma Write_wait_returns:
  assumes "expired (k + d) \<noteq> None" and "d < rounds"
  shows "\<exists>resp n'. Write_wait step expired index term k rounds n = (Some resp, n')"
  using assms
proof (induction rounds arbitrary: k d n)
  case (Suc rounds)
  show ?case
  proof (cases "Write_check index term (step k n) = None \<and> expired k = None")
    case True
    with Suc.prems have "d \<noteq> 0"
      by (cases d) auto
    then have "\<exists>resp n'. Write_wait step expired index term (Suc k) rounds (step k n) = (Some resp, n')"
      using Suc.prems by (intro Suc.IH [of "Suc k" "d - 1"]) auto
    with True show ?thesis
      by (simp add: Let_def)
  next
    case False
    then show ?thesis
      by (auto simp: Let_def split: option.splits)
  qed
qed simp



lemma fresh_leader_writes:
  "\<exists>n. Write_begin (Some \<lparr>cwKey = ''k'', cwValue = ''v''\<rparr>) ((fresh_node ''n1'' three_peers)\<lparr>role := RoleLeader, currentTerm := 1\<rparr>) = (WriteWait 1 1, n)
     \<and> role n = RoleLeader \<and> currentTerm n = 1 \<and> nid n = ''n1''"
proof -
  have "last_pos (db fresh_store) = Inr (0, 0)"
    by (simp add: last_pos_def snap_pos_fresh) (simp add: fresh_store_def empty_tables_def)
  then show ?thesis
    using healthy_fresh
    by (simp add: Write_begin_def Let_def healthy_runs majorityLocked_def fresh_node_def three_peers_def refreshMetricsLocked_def
        ClientWriteRequest_GetKey_def ClientWriteRequest_GetValue_def)
qed



section \<open>Errors\<close>



section \<open>Reading\<close>



section \<open>From a write to a read\<close>

lemma int64_of_uint64_of: "- (2 ^ 63) \<le> i \<Longrightarrow> i < 2 ^ 63 \<Longrightarrow> int64_of (uint64_of i) = i"
  using wrap64_small [of i] by (simp add: int64_of_def uint64_of_def wrap64_def)

lemma append_end:
  assumes "wf_tables T" and "last_pos T = Inr (l, t)" and "ok_index (l + 1)" and "snap_pos T = Inr (si, st)" and "si \<le> l"
    and "e = \<lparr>entryIndex = l + 1, entryTerm = x, entryCommand = c\<rparr>"
  shows "wf_tables (append_entries [e] T)" and "log_entry (append_entries [e] T) (l + 1) = Some (x, c)"
    and "snap_pos (append_entries [e] T) = Inr (si, st)" and "last_pos (append_entries [e] T) = Inr (l + 1, x)"
    and "kv (append_entries [e] T) = kv T" and "meta_uint (append_entries [e] T) key = meta_uint T key"
proof -
  show wf: "wf_tables (append_entries [e] T)"
    by (rule wf_append_entries) (use assms in auto)
  show "log_entry (append_entries [e] T) (l + 1) = Some (x, c)"
    using assms by (simp add: log_entry_append)
  show "snap_pos (append_entries [e] T) = Inr (si, st)"
    using assms by simp
  have p: "l < l + 1" "l < 2 ^ 63"
    using ok_index_Suc [OF assms(3)] assms(3) by (auto simp: ok_index_def)
  have "k \<le> int64_of l" if "k \<in> fst ` set (log_entries T)" for k
  proof -
    from that obtain v where "map_of (log_entries T) k = Some v" and ne: "log_entries T \<noteq> []"
      using assms(1) by (force simp: wf_tables_def log_ok_def dest: wf_table_distinct)
    then have "k \<le> fst (last (log_entries T))"
      using wf_table_last assms(1) by (auto simp: wf_tables_def log_ok_def)
    moreover have "l = uint64_of (fst (last (log_entries T)))"
      using assms(2) ne by (simp add: last_pos_def)
    moreover have "0 < fst (last (log_entries T))" "fst (last (log_entries T)) < 2 ^ 63"
      using assms(1) ne by (auto simp: wf_tables_def log_ok_def)
    ultimately show ?thesis
      by (simp add: int64_of_uint64_of)
  qed
  then have "filter (\<lambda>r. int64_of l < fst r) (log_entries (append_entries [e] T)) = map log_row [e]"
    by (intro rows_from_append) (use assms wf p in \<open>auto simp: wf_tables_def\<close>)
  then show "last_pos (append_entries [e] T) = Inr (l + 1, x)"
    using last_log_rows [of "append_entries [e] T" "[e]" "int64_of l"] wf assms(6) by (simp add: wf_tables_def)
  show "kv (append_entries [e] T) = kv T" "meta_uint (append_entries [e] T) key = meta_uint T key"
    by (simp_all add: append_entries_def meta_uint_def)
qed


lemma node_ok_on_store:
  assumes "on_store m n = (r, n')" and "implements m w" and "\<And>T. wf_tables T \<Longrightarrow> wf_tables (snd (w T))" and "node_ok n"
  shows "node_ok n'"
  using on_store_healthy [OF assms(1,2)] assms(3) [of "db (store n)"] assms(4)
  by (auto simp: node_ok_def) (metis snd_conv)

lemmas node_ok_steps = node_ok_on_store [OF _ implements_SnapshotIndexTerm, simplified]
  node_ok_on_store [OF _ implements_Term, simplified] node_ok_on_store [OF _ implements_Entry_at, simplified]
  node_ok_on_store [OF _ implements_ApplySet, simplified] node_ok_on_store [OF _ implements_CreateSnapshot, simplified]
  node_ok_on_store [OF _ implements_LastIndexAndTerm, simplified]

lemma node_ok_applyCommitted:
  assumes "node_ok n"
  shows "node_ok (applyCommittedLocked n)"
proof -
  obtain b m where a: "apply_loop n = (b, m)"
    by force
  have "node_ok m"
    by (rule apply_loop_invariant [OF a, where P = node_ok])
      (use assms in \<open>auto intro: node_ok_steps\<close>)
  moreover have "node_ok (snd (on_store (CreateSnapshot i t) x))" if "node_ok x" for i t x
    using node_ok_steps(5) that by (metis prod.collapse)
  then have "node_ok (compactIfNeededLocked x)" if "node_ok x" for x
    using that by (auto simp: compactIfNeededLocked_def split: prod.splits sum.splits if_splits dest: node_ok_steps)
  ultimately show ?thesis
    by (simp add: applyCommittedLocked_def a node_ok_refresh)
qed


text \<open>A node whose applied, committed and last indices coincide, with no snapshot beyond them.\<close>

definition settled :: "u64 \<Rightarrow> Node \<Rightarrow> bool" where
  "settled l n \<longleftrightarrow> node_ok n \<and> lastApplied n = l \<and> commitIndex n = l \<and> ok_index (l + 1)
     \<and> (\<exists>t. last_pos (db (store n)) = Inr (l, t)) \<and> (\<exists>si st. snap_pos (db (store n)) = Inr (si, st) \<and> si \<le> l)
     \<and> meta_uint (db (store n)) ''last_applied'' = Inr l"

lemma one_step_replay:
  assumes "decodeCommand c = Inr cmd" and "log_entry T (l + 1) = Some (x, c)"
  shows "replay 1 l T = apply_set (l + 1) (cmdKey cmd) (cmdValue cmd) T" and "applicable (l + 1) T"
  using assms by (simp_all add: apply_index_def applicable_def)

lemma u64_between: "(l :: u64) < j \<Longrightarrow> j \<le> l + 1 \<Longrightarrow> j = l + 1"
  using u64_Suc_le by (meson order_antisym)

text \<open>Committing and applying the entry just appended by a leader without peers.\<close>

lemma solo_commit:
  assumes ok: "node_ok n" and solo: "peers n = []" and i: "commitIndex n = l" "lastApplied n = l" "ok_index (l + 1)"
    and lp: "last_pos (db (store n)) = Inr (l + 1, currentTerm n)" and sp: "snap_pos (db (store n)) = Inr (si, st)" "si \<le> l"
    and la: "meta_uint (db (store n)) ''last_applied'' = Inr l"
    and le: "log_entry (db (store n)) (l + 1) = Some (currentTerm n, c)" and dec: "decodeCommand c = Inr cmd"
  shows "let n' = advanceCommitLocked n in commitIndex n' = l + 1 \<and> lastApplied n' = l + 1 \<and> node_ok n'
    \<and> get_value (cmdKey cmd) (db (store n')) = (cmdValue cmd, True)"
proof -
  have l: "l < l + 1" "l + 1 < 2 ^ 63" "l < 2 ^ 63"
    using ok_index_Suc [OF i(3)] i(3) by (auto simp: ok_index_def)
  have "term_pos (l + 1) (db (store n)) = Inr (currentTerm n, True)"
    using term_pos_log [OF sp(1), of "l + 1"] sp(2) l(1) le by simp
  then have com: "committable (l + 1) n"
    using solo by (simp add: committable_def majorityLocked_def count_replicas_def)
  obtain m where m: "commit_only n m" "advanceCommitLocked n = applyCommittedLocked m" "commitIndex m = l + 1"
    using advanceCommit_run [OF lp l(2)] i(1) l com ok by (auto intro: order_antisym)
  have m': "lastApplied m = l" "db (store m) = db (store n)" "healthy (store m)" "node_ok m"
    using m(1) ok i(2) by (auto simp: commit_only_def node_ok_def)
  have app: "applicable j (db (store m))" if "l < j" "j \<le> l + 1" for j
    using u64_between [OF that] one_step_replay(2) [OF dec le] m'(2) by simp
  from applyCommitted_run [of m si st] m' m(3) sp la less_imp_le [OF l(1)] ok app
  obtain k where k: "unat (lastApplied (applyCommittedLocked m)) = unat l + k" "lastApplied (applyCommittedLocked m) = l + 1"
    "kv (db (store (applyCommittedLocked m))) = kv (replay k l (db (store m)))"
    by (auto simp: Let_def node_ok_def)
  then have "k = 1"
    using unat_u64_Suc [OF l(1)] by simp
  then have "get_value (cmdKey cmd) (db (store (applyCommittedLocked m))) = (cmdValue cmd, True)"
    using k(3) one_step_replay(1) [OF dec le] m'(2) by (simp add: get_value_def apply_set_def table_simps)
  with k(2) m m'(4) show ?thesis
    by (simp add: Let_def node_ok_applyCommitted)
qed


text \<open>
  C23: a write to a leader without peers is a write: with a working database \<open>Write\<close> appends the
  command at the next index, commits and applies it at once, the check that follows reports
  success, and a read of the key returns the value; the node is settled at the new index,
  ready for the next write.
\<close>

theorem solo_write_read:
  assumes "settled l n" and "role n = RoleLeader" and "peers n = []"
    and "key \<noteq> []" and "valid_utf8 key" and "valid_utf8 v"
  shows "\<exists>n'. Write_begin (Some \<lparr>cwKey = key, cwValue = v\<rparr>) n = (WriteWait (l + 1) (currentTerm n), n')
    \<and> lastApplied n' = l + 1 \<and> commitIndex n' = l + 1 \<and> node_ok n'
    \<and> (\<exists>resp. Write_check (l + 1) (currentTerm n) n' = Some resp \<and> cwrSuccess resp)
    \<and> (\<exists>n''. Read_finish (Some \<lparr>crKey = key\<rparr>) 1 n'
          = (Inr \<lparr>crrSuccess = True, crrLeaderId = nid n', crrError = [], crrValue = v\<rparr>, n''))"
proof -
  from assms(1) obtain t si st where ok: "node_ok n" and idx: "lastApplied n = l" "commitIndex n = l" "ok_index (l + 1)"
    and lp: "last_pos (db (store n)) = Inr (l, t)" and sp: "snap_pos (db (store n)) = Inr (si, st)" "si \<le> l"
    and la: "meta_uint (db (store n)) ''last_applied'' = Inr l"
    by (auto simp: settled_def)
  define c where "c = encodeSetCommand key v"
  define e where "e = \<lparr>entryIndex = l + 1, entryTerm = currentTerm n, entryCommand = c\<rparr>"
  have dec: "decodeCommand c = Inr \<lparr>cmdOp = ''set'', cmdKey = key, cmdValue = v\<rparr>"
    unfolding c_def using assms(5,6) by (rule decode_encode_set)
  obtain s1 where s1: "on_store LastIndexAndTerm n = (Inr (l, t), n\<lparr>store := s1\<rparr>)" "db s1 = db (store n)" "healthy s1"
    using on_store_read [OF implements_LastIndexAndTerm ok] lp by auto
  obtain s2 where s2: "on_store (AppendEntries [e]) (n\<lparr>store := s1\<rparr>) = (Inr (), n\<lparr>store := s2\<rparr>)"
      "db s2 = append_entries [e] (db (store n))" "healthy s2"
    using on_store_ok [OF implements_AppendEntries, of "n\<lparr>store := s1\<rparr>" "[e]"] s1 by auto
  define m where "m = n\<lparr>store := s2, matchIndex := (matchIndex n)(nid n := l + 1)\<rparr>"
  have wf: "wf_tables (db (store n))"
    using ok by (simp add: node_ok_def)
  note T = append_end [OF wf lp idx(3) sp e_def, folded s2(2)]
  have "node_ok m" "peers m = []" "currentTerm m = currentTerm n" "db (store m) = db s2" "lastApplied m = l" "commitIndex m = l"
    using s2(3) T(1) assms(3) idx by (simp_all add: m_def node_ok_def)
  then have fin: "let n' = advanceCommitLocked m in commitIndex n' = l + 1 \<and> lastApplied n' = l + 1 \<and> node_ok n'
      \<and> get_value key (db (store n')) = (v, True)"
    using solo_commit [of m l si st c] idx(3) sp(2) la dec T by simp
  let ?a = "advanceCommitLocked m"
  let ?n' = "refreshMetricsLocked ?a"
  have view: "view ?a = view m"
    by simp
  have run: "Write_begin (Some \<lparr>cwKey = key, cwValue = v\<rparr>) n = (WriteWait (l + 1) (currentTerm n), ?n')"
    using assms(2-4) s1 s2 view
    by (simp add: Write_begin_def Let_def e_def c_def m_def majorityLocked_def view_def)
  have n': "role ?n' = RoleLeader" "currentTerm ?n' = currentTerm n" "peers ?n' = []" "node_ok ?n'"
    "get_value key (db (store ?n')) = (v, True)" "commitIndex ?n' = l + 1" "lastApplied ?n' = l + 1"
    using view fin assms(2,3) by (auto simp: view_def m_def Let_def refresh_store node_ok_refresh)
  obtain s4 where "on_store (Get key) ?n' = (Inr (v, True), ?n'\<lparr>store := s4\<rparr>)"
    using on_store_read [OF implements_Get n'(4), of key] n'(5) by auto
  with run n' show ?thesis
    by (intro exI [of _ ?n']) (auto simp: Write_check_def Read_finish_def majorityLocked_def)
qed

theorem solo_write_read_witness:
  "let n = (fresh_node ''n1'' [])\<lparr>role := RoleLeader, currentTerm := 1\<rparr> in
   \<exists>n' n''. Write_begin (Some \<lparr>cwKey = ''k'', cwValue = ''v''\<rparr>) n = (WriteWait 1 1, n')
     \<and> Read_finish (Some \<lparr>crKey = ''k''\<rparr>) 1 n'
         = (Inr \<lparr>crrSuccess = True, crrLeaderId = nid n', crrError = [], crrValue = ''v''\<rparr>, n'')"
proof -
  let ?n = "(fresh_node ''n1'' [])\<lparr>role := RoleLeader, currentTerm := 1\<rparr>"
  have "last_pos (db fresh_store) = Inr (0, 0)"
    by (simp add: last_pos_def snap_pos_fresh) (simp add: fresh_store_def empty_tables_def)
  then have "settled 0 ?n"
    using node_ok_fresh [of "''n1''" "[]"]
    by (simp add: settled_def ok_index_1 snap_pos_fresh meta_fresh numeric_keys_def) (simp add: fresh_node_def snap_pos_fresh meta_fresh numeric_keys_def)
  moreover have "valid_utf8 ''k''" "valid_utf8 ''v''"
    by code_simp+
  ultimately show ?thesis
    using solo_write_read [of 0 ?n "''k''" "''v''"] by (auto simp: Let_def) (auto simp: fresh_node_def)
qed

end
