(* ===== verification/Cluster.thy ===== *)
theory Cluster
  imports Raft_Client
begin

text \<open>
  The system the program forms: servers that run the node of \<open>Raft_Node\<close> and \<open>Raft_Rpc\<close>, crash at
  any moment and restart from their files, and elections whose requests and answers are
  delayed, lost, reordered and (for requests) delivered more than once. Every step runs one
  critical section of the program. Requests of the other RPCs and the answers to them are
  arbitrary, so that election safety does not rest on what they carry.
\<close>

section \<open>Quorums\<close>

locale quorum_system =
  fixes quorum :: "'a set \<Rightarrow> bool"
  assumes intersect: "quorum A \<Longrightarrow> quorum B \<Longrightarrow> A \<inter> B \<noteq> {}"
begin

text \<open>Where a voter has one vote per term, a term has one winner.\<close>

lemma one_winner:
  assumes "\<And>v t c c'. (v, t, c) \<in> cast \<Longrightarrow> (v, t, c') \<in> cast \<Longrightarrow> c = c'"
    and "quorum {v. (v, t, a) \<in> cast}" and "quorum {v. (v, t, b) \<in> cast}"
  shows "a = b"
proof -
  from intersect [OF assms(2,3)] obtain v where "(v, t, a) \<in> cast" "(v, t, b) \<in> cast"
    by auto
  with assms(1) show ?thesis
    by blast
qed

end

definition majority_of :: "'a set \<Rightarrow> 'a set \<Rightarrow> bool" where
  "majority_of M A \<longleftrightarrow> finite M \<and> A \<subseteq> M \<and> card M div 2 + 1 \<le> card A"

interpretation majority: quorum_system "majority_of M"
  for M :: "'a set"
proof
  fix A B :: "'a set"
  assume A: "majority_of M A" and B: "majority_of M B"
  then have fin: "finite A" "finite B" and sub: "A \<union> B \<subseteq> M" "finite M"
    by (auto simp: majority_of_def intro: finite_subset)
  show "A \<inter> B \<noteq> {}"
  proof
    assume "A \<inter> B = {}"
    then have "card A + card B = card (A \<union> B)"
      using fin by (simp add: card_Un_disjoint)
    also have "\<dots> \<le> card M"
      by (rule card_mono [OF sub(2) sub(1)])
    finally have "card A + card B \<le> card M" .
    moreover have "card M div 2 + 1 \<le> card A" "card M div 2 + 1 \<le> card B"
      using A B by (auto simp: majority_of_def)
    ultimately show False
      by linarith
  qed
qed

section \<open>Servers, elections, the cluster\<close>

datatype server = Down tables | Up Node

primrec files :: "server \<Rightarrow> tables" where
  "files (Down T) = T"
| "files (Up n) = db (store n)"

text \<open>
  An election with the variables of its goroutines: \<open>waiting\<close> are the peers whose goroutine has
  not taken its answer yet, and \<open>alive\<close> is false once the process that runs it has crashed.
\<close>

record running_election =
  election :: Election
  waiting :: "bytes set"
  alive :: bool

text \<open>
  \<open>replies\<close> holds the answers the peers have given, by the number of the election. The last two
  components record history: every vote given, and every server that became leader of a term.
\<close>

record cluster =
  servers :: "bytes \<Rightarrow> server"
  elections :: "running_election list"
  replies :: "(nat \<times> bytes \<times> RequestVoteResponse) set"
  cast :: "(bytes \<times> u64 \<times> bytes) set"
  elected :: "(u64 \<times> bytes) set"

definition initial :: "cluster" where
  "initial = \<lparr>servers = (\<lambda>_. Down empty_tables), elections = [], replies = {}, cast = {}, elected = {}\<rparr>"

text \<open>
  The options every member is started with: each knows all other members as peers, once.
\<close>

definition config_ok :: "bytes set \<Rightarrow> (bytes \<Rightarrow> Options) \<Rightarrow> bool" where
  "config_ok M opts \<longleftrightarrow> finite M
     \<and> (\<forall>s \<in> M. optNodeID (opts s) = s \<and> s \<noteq> [] \<and> distinct (map peerID (optPeers (opts s)))
          \<and> set (map peerID (optPeers (opts s))) = M - {s})"

text \<open>The history of leaders after a step of the server \<open>s\<close>.\<close>

definition record_leader :: "Node \<Rightarrow> Node \<Rightarrow> (u64 \<times> bytes) set \<Rightarrow> (u64 \<times> bytes) set" where
  "record_leader n n' E =
     (if role n \<noteq> RoleLeader \<and> role n' = RoleLeader then insert (currentTerm n', nid n') E else E)"

text \<open>Steps of one node that take part in no election, with arbitrary requests and answers.\<close>

inductive local_step :: "Node \<Rightarrow> Node \<Rightarrow> bool" where
  on_append: "AppendEntries_rpc req n = (r, n') \<Longrightarrow> local_step n n'"
| on_snapshot: "InstallSnapshot_rpc req n = (r, n') \<Longrightarrow> local_step n n'"
| replicate_prepare: "replicatePeer_prepare p n = (a, n') \<Longrightarrow> local_step n n'"
| replicate_append: "replicatePeer_append_reply p t sent resp n = (b, n') \<Longrightarrow> local_step n n'"
| replicate_snapshot: "replicatePeer_snapshot_reply p snap resp n = (b, n') \<Longrightarrow> local_step n n'"
| client_write: "Write_begin req n = (w, n') \<Longrightarrow> local_step n n'"
| client_read: "Read_finish req k n = (r, n') \<Longrightarrow> local_step n n'"
| client_status: "Status n = (r, n') \<Longrightarrow> local_step n n'"
| dial: "local_step n (Start_dial n)"
| tick: "local_step n (snd (run_tick h n))"
| environment: "local_step n (n\<lparr>store := (store n)\<lparr>faults := fs\<rparr>, clock := cs, rands := rs\<rparr>)"

text \<open>Elections, crashes and restarts.\<close>

inductive election_step :: "bytes set \<Rightarrow> (bytes \<Rightarrow> Options) \<Rightarrow> cluster \<Rightarrow> cluster \<Rightarrow> bool" for M opts where
  timeout: "servers C s = Up n \<Longrightarrow> currentTerm n \<noteq> - 1 \<Longrightarrow> startElection_begin n = (None, n') \<Longrightarrow>
    election_step M opts C (C\<lparr>servers := (servers C)(s := Up n')\<rparr>)"
| campaign: "servers C s = Up n \<Longrightarrow> currentTerm n \<noteq> - 1 \<Longrightarrow> startElection_begin n = (Some e, n') \<Longrightarrow>
    election_step M opts C (C\<lparr>servers := (servers C)(s := Up n'),
      elections := elections C @ [\<lparr>election = e, waiting = set (map peerID (ePeers e)), alive = True\<rparr>],
      cast := insert (s, eTerm e, eCandidate e) (cast C)\<rparr>)"
| deliver: "i < length (elections C) \<Longrightarrow> e = election (elections C ! i) \<Longrightarrow> p \<in> set (map peerID (ePeers e)) \<Longrightarrow>
    servers C p = Up n \<Longrightarrow> RequestVote (Some (election_request e)) n = (r, n') \<Longrightarrow>
    election_step M opts C (C\<lparr>servers := (servers C)(p := Up n'),
      replies := (case r of Inl _ \<Rightarrow> replies C | Inr resp \<Rightarrow> insert (i, p, resp) (replies C)),
      cast := (if granted r then insert (p, eTerm e, eCandidate e) (cast C) else cast C)\<rparr>)"
| answer: "i < length (elections C) \<Longrightarrow> elections C ! i = E \<Longrightarrow> alive E \<Longrightarrow> p \<in> waiting E \<Longrightarrow>
    (i, p, resp) \<in> replies C \<Longrightarrow> s = eCandidate (election E) \<Longrightarrow> servers C s = Up n \<Longrightarrow>
    startElection_reply (Some resp) (election E) n = (e', n') \<Longrightarrow>
    election_step M opts C (C\<lparr>servers := (servers C)(s := Up n'),
      elections := (elections C)[i := E\<lparr>election := e', waiting := waiting E - {p}\<rparr>],
      elected := record_leader n n' (elected C)\<rparr>)"
| single_node: "i < length (elections C) \<Longrightarrow> elections C ! i = E \<Longrightarrow> alive E \<Longrightarrow>
    s = eCandidate (election E) \<Longrightarrow> servers C s = Up n \<Longrightarrow> n' = startElection_single (election E) n \<Longrightarrow>
    election_step M opts C (C\<lparr>servers := (servers C)(s := Up n'), elected := record_leader n n' (elected C)\<rparr>)"
| crash: "servers C s = Up n \<Longrightarrow>
    election_step M opts C (C\<lparr>servers := (servers C)(s := Down (db (store n))),
      elections := map (\<lambda>E. if eCandidate (election E) = s then E\<lparr>alive := False\<rparr> else E) (elections C)\<rparr>)"
| restart: "servers C s = Down T \<Longrightarrow> s \<in> M \<Longrightarrow> set order = set defaults \<Longrightarrow> New (opts s) order T script clk rnd = (Inr n, T') \<Longrightarrow>
    election_step M opts C (C\<lparr>servers := (servers C)(s := Up n)\<rparr>)"
| failed_start: "servers C s = Down T \<Longrightarrow> set order = set defaults \<Longrightarrow> New (opts s) order T script clk rnd = (Inl err, T') \<Longrightarrow>
    election_step M opts C (C\<lparr>servers := (servers C)(s := Down T')\<rparr>)"

inductive step :: "bytes set \<Rightarrow> (bytes \<Rightarrow> Options) \<Rightarrow> cluster \<Rightarrow> cluster \<Rightarrow> bool" for M opts where
  local_op: "servers C s = Up n \<Longrightarrow> local_step n n' \<Longrightarrow> step M opts C (C\<lparr>servers := (servers C)(s := Up n')\<rparr>)"
| elections: "election_step M opts C C' \<Longrightarrow> step M opts C C'"

inductive reachable :: "bytes set \<Rightarrow> (bytes \<Rightarrow> Options) \<Rightarrow> cluster \<Rightarrow> bool" for M opts where
  start: "reachable M opts initial"
| next_step: "reachable M opts C \<Longrightarrow> step M opts C C' \<Longrightarrow> reachable M opts C'"


section \<open>The invariant\<close>

definition server_ok :: "bytes set \<Rightarrow> (bytes \<Rightarrow> Options) \<Rightarrow> (u64 \<times> bytes) set \<Rightarrow> bytes \<Rightarrow> server \<Rightarrow> bool" where
  "server_ok M opts L s S \<longleftrightarrow> (\<exists>p. durable (files S) = Inr p)
     \<and> (\<forall>n. S = Up n \<longrightarrow> s \<in> M \<and> nid n = s \<and> peers n = optPeers (opts s) \<and> vote_ok n
          \<and> (role n = RoleLeader \<longrightarrow> (currentTerm n, s) \<in> L))"

definition cast_ok :: "bytes set \<Rightarrow> cluster \<Rightarrow> bool" where
  "cast_ok M C \<longleftrightarrow> (\<forall>v t c. (v, t, c) \<in> cast C \<longrightarrow> v \<in> M \<and> c \<noteq> [] \<and> remembers (files (servers C v)) t c)"

definition votes_once :: "(bytes \<times> u64 \<times> bytes) set \<Rightarrow> bool" where
  "votes_once V \<longleftrightarrow> (\<forall>v t c c'. (v, t, c) \<in> V \<and> (v, t, c') \<in> V \<longrightarrow> c = c')"

definition supporters :: "(bytes \<times> u64 \<times> bytes) set \<Rightarrow> running_election \<Rightarrow> bytes set" where
  "supporters V E =
     {p \<in> set (map peerID (ePeers (election E))) - waiting E. (p, eTerm (election E), eCandidate (election E)) \<in> V}"

definition election_ok :: "bytes set \<Rightarrow> (bytes \<Rightarrow> Options) \<Rightarrow> (bytes \<times> u64 \<times> bytes) set \<Rightarrow> running_election \<Rightarrow> bool" where
  "election_ok M opts V E \<longleftrightarrow>
     (let e = election E in
      eCandidate e \<in> M \<and> ePeers e = optPeers (opts (eCandidate e)) \<and> eMajority e = int (card M div 2 + 1)
      \<and> (eCandidate e, eTerm e, eCandidate e) \<in> V \<and> waiting E \<subseteq> set (map peerID (ePeers e))
      \<and> eVotes e \<le> 1 + int (card (supporters V E)))"

definition replies_ok :: "cluster \<Rightarrow> bool" where
  "replies_ok C \<longleftrightarrow> (\<forall>i p r. (i, p, r) \<in> replies C \<longrightarrow> i < length (elections C)
     \<and> (rvrVoteGranted r \<longrightarrow>
          (p, eTerm (election (elections C ! i)), eCandidate (election (elections C ! i))) \<in> cast C))"

definition elected_ok :: "bytes set \<Rightarrow> (bytes \<times> u64 \<times> bytes) set \<Rightarrow> (u64 \<times> bytes) set \<Rightarrow> bool" where
  "elected_ok M V L \<longleftrightarrow> (\<forall>t a. (t, a) \<in> L \<longrightarrow> majority_of M {v. (v, t, a) \<in> V})"

definition inv :: "bytes set \<Rightarrow> (bytes \<Rightarrow> Options) \<Rightarrow> cluster \<Rightarrow> bool" where
  "inv M opts C \<longleftrightarrow> (\<forall>s. server_ok M opts (elected C) s (servers C s)) \<and> cast_ok M C \<and> votes_once (cast C)
     \<and> (\<forall>E \<in> set (elections C). election_ok M opts (cast C) E) \<and> replies_ok C \<and> elected_ok M (cast C) (elected C)"

lemma inv_initial: "inv M opts initial"
  by (simp add: inv_def initial_def server_ok_def cast_ok_def votes_once_def replies_ok_def elected_ok_def durable_empty)

subsection \<open>What one node does to the invariant\<close>

definition advances :: "Node \<Rightarrow> Node \<Rightarrow> bool" where
  "advances n n' \<longleftrightarrow> nid n' = nid n \<and> peers n' = peers n \<and> vote_ok n'
     \<and> (\<forall>t c. c \<noteq> [] \<and> remembers (db (store n)) t c \<longrightarrow> remembers (db (store n')) t c)"

definition keeps_lead :: "Node \<Rightarrow> Node \<Rightarrow> bool" where
  "keeps_lead n n' \<longleftrightarrow> (role n' = RoleLeader \<longrightarrow> role n = RoleLeader \<and> currentTerm n' = currentTerm n)"

lemma calm_advances: "calm n n' \<Longrightarrow> vote_ok n \<Longrightarrow> advances n n' \<and> keeps_lead n n'"
proof -
  assume c: "calm n n'" and ok: "vote_ok n"
  have "nid n' = nid n \<and> peers n' = peers n \<and> keeps_lead n n'"
    using c by (auto simp: keeps_lead_def calm_def Let_def)
  with calm_vote_ok [OF c ok] show ?thesis
    by (simp add: advances_def)
qed

lemma local_step_calm: "local_step n n' \<Longrightarrow> calm n n'"
proof (induction rule: local_step.induct)
  case (environment n fs cs rs)
  show ?case
    by (rule calm_view) (simp add: view_def)
qed (simp_all add: calm_view view_prepare view_Write_begin view_Read_finish view_Status
      calm_AppendEntries_rpc calm_InstallSnapshot_rpc calm_append_reply calm_snapshot_reply)

lemma begin_advances:
  assumes "startElection_begin n = (r, n')" and "vote_ok n" and "currentTerm n \<noteq> - 1"
  shows "advances n n' \<and> keeps_lead n n'"
proof (cases "role n = RoleLeader")
  case True
  with assms show ?thesis
    by (simp add: startElection_begin_leader advances_def keeps_lead_def)
next
  case False
  from startElection_begin_view [OF assms(1) False] begin_vote_ok [OF assms] show ?thesis
    by (auto simp: advances_def keeps_lead_def)
qed

lemma RequestVote_advances:
  assumes "RequestVote req n = (r, n')" and "vote_ok n" and "RequestVoteRequest_GetCandidateId req \<noteq> []"
  shows "advances n n' \<and> keeps_lead n n'"
proof -
  have "nid n' = nid n \<and> peers n' = peers n \<and> keeps_lead n n'"
    using RequestVote_view [OF assms(1)] by (auto simp: calm_def view_def Let_def keeps_lead_def)
  with RequestVote_vote_ok [OF assms] show ?thesis
    by (auto simp: advances_def)
qed

lemma leads_advances: "leads n n' \<Longrightarrow> vote_ok n \<Longrightarrow> advances n n' \<and> role n \<noteq> RoleLeader \<and> role n' = RoleLeader \<and> currentTerm n' = currentTerm n"
  using leads_vote_ok by (auto simp: advances_def leads_def view_def)

text \<open>Replacing a running node by one that advances it.\<close>

lemma server_update:
  assumes "server_ok M opts L s (Up n)" and "advances n n'" and "L \<subseteq> L'"
    and "keeps_lead n n' \<or> (currentTerm n', s) \<in> L'"
  shows "server_ok M opts L' s (Up n')"
  using assms by (auto simp: server_ok_def advances_def keeps_lead_def vote_ok_def)

lemma server_ok_mono: "server_ok M opts L s S \<Longrightarrow> L \<subseteq> L' \<Longrightarrow> server_ok M opts L' s S"
  by (auto simp: server_ok_def)

lemma supporters_finite: "finite (supporters V E)"
  by (simp add: supporters_def)

lemma election_ok_mono: "election_ok M opts V E \<Longrightarrow> V \<subseteq> V' \<Longrightarrow> election_ok M opts V' E"
proof -
  assume E: "election_ok M opts V E" and V: "V \<subseteq> V'"
  have "card (supporters V E) \<le> card (supporters V' E)"
    by (rule card_mono [OF supporters_finite]) (use V in \<open>auto simp: supporters_def\<close>)
  with E V show ?thesis
    by (auto simp: election_ok_def Let_def)
qed

lemma elected_ok_mono:
  assumes "elected_ok M V L" and "V \<subseteq> V'" and "\<And>v t c. (v, t, c) \<in> V' \<Longrightarrow> v \<in> M"
  shows "elected_ok M V' L"
  unfolding elected_ok_def
proof (intro allI impI)
  fix t a
  assume "(t, a) \<in> L"
  with assms(1) have m: "majority_of M {v. (v, t, a) \<in> V}"
    by (simp add: elected_ok_def)
  have "{v. (v, t, a) \<in> V'} \<subseteq> M" and "{v. (v, t, a) \<in> V} \<subseteq> {v. (v, t, a) \<in> V'}"
    using assms(2,3) by auto
  moreover from this have "card {v. (v, t, a) \<in> V} \<le> card {v. (v, t, a) \<in> V'}"
    using m by (intro card_mono) (auto simp: majority_of_def intro: finite_subset)
  ultimately show "majority_of M {v. (v, t, a) \<in> V'}"
    using m by (simp add: majority_of_def)
qed


lemma inv_server: "inv M opts C \<Longrightarrow> servers C s = Up n \<Longrightarrow> s \<in> M \<and> nid n = s \<and> peers n = optPeers (opts s) \<and> vote_ok n"
  by (force simp: inv_def server_ok_def)

text \<open>
  The common part of all steps of a running server: the node advances, votes and leaders are
  only added, and the votes added are remembered.
\<close>

lemma inv_update:
  assumes inv: "inv M opts C" and up: "servers C s = Up n" and adv: "advances n n'"
    and V: "cast C \<subseteq> V" "\<And>v t c. (v, t, c) \<in> V - cast C \<Longrightarrow> v = s \<and> c \<noteq> [] \<and> durable (db (store n')) = Inr (t, c)"
    and L: "elected C \<subseteq> L" "keeps_lead n n' \<or> (currentTerm n', s) \<in> L"
      "\<And>t a. (t, a) \<in> L - elected C \<Longrightarrow> majority_of M {v. (v, t, a) \<in> V}"
    and es: "\<And>E. E \<in> set es \<Longrightarrow> election_ok M opts V E"
    and rs: "\<And>i p r. (i, p, r) \<in> R \<Longrightarrow> i < length es
      \<and> (rvrVoteGranted r \<longrightarrow> (p, eTerm (election (es ! i)), eCandidate (election (es ! i))) \<in> V)"
  shows "inv M opts (C\<lparr>servers := (servers C)(s := Up n'), elections := es, replies := R, cast := V, elected := L\<rparr>)"
proof -
  note srv = inv_server [OF inv up]
  have "server_ok M opts L x (((servers C)(s := Up n')) x)" for x
  proof (cases "x = s")
    case True
    have "server_ok M opts (elected C) s (Up n)"
      using inv up by (metis inv_def)
    with adv L(1,2) True show ?thesis
      using server_update by simp
  next
    case False
    have "server_ok M opts (elected C) x (servers C x)"
      using inv by (simp add: inv_def)
    with L(1) False show ?thesis
      using server_ok_mono by simp
  qed
  moreover have V_ok: "v \<in> M \<and> c \<noteq> [] \<and> remembers (files (((servers C)(s := Up n')) v)) t c" if "(v, t, c) \<in> V" for v t c
  proof (cases "(v, t, c) \<in> cast C")
    case True
    then have "v \<in> M" "c \<noteq> []" "remembers (files (servers C v)) t c"
      using inv by (auto simp: inv_def cast_ok_def)
    with up adv show ?thesis
      by (auto simp: advances_def)
  next
    case False
    with V(2) [of v t c] that srv show ?thesis
      by (simp add: remembers_def)
  qed
  moreover have "votes_once V"
    unfolding votes_once_def
  proof (intro allI impI, elim conjE)
    fix v t c c'
    assume c: "(v, t, c) \<in> V" and c': "(v, t, c') \<in> V"
    show "c = c'"
    proof (cases "(v, t, c) \<in> cast C \<and> (v, t, c') \<in> cast C")
      case True
      then show ?thesis
        using inv by (auto simp: inv_def votes_once_def)
    next
      case False
      with c c' V(2) have "v = s" and "durable (db (store n')) = Inr (t, c) \<or> durable (db (store n')) = Inr (t, c')"
        by blast+
      with V_ok [OF c] V_ok [OF c'] show ?thesis
        by (auto simp: remembers_def)
    qed
  qed
  moreover have "elected_ok M V L"
  proof -
    have "elected_ok M (cast C) (elected C)"
      using inv by (simp add: inv_def)
    then have "elected_ok M V (elected C)"
      using V(1) by (rule elected_ok_mono) (use V_ok in blast)
    with L(3) show ?thesis
      unfolding elected_ok_def by blast
  qed
  ultimately show ?thesis
    unfolding inv_def cast_ok_def replies_ok_def using es rs by simp
qed


subsection \<open>Every step keeps the invariant\<close>

lemma inv_parts:
  assumes "inv M opts C"
  shows "E \<in> set (elections C) \<Longrightarrow> election_ok M opts (cast C) E"
    and "(i, p, r) \<in> replies C \<Longrightarrow> i < length (elections C)
      \<and> (rvrVoteGranted r \<longrightarrow> (p, eTerm (election (elections C ! i)), eCandidate (election (elections C ! i))) \<in> cast C)"
  using assms by (auto simp: inv_def replies_ok_def)

lemma inv_quiet:
  assumes "inv M opts C" and "servers C s = Up n" and "advances n n'" and "keeps_lead n n'"
  shows "inv M opts (C\<lparr>servers := (servers C)(s := Up n')\<rparr>)"
proof -
  have "inv M opts (C\<lparr>servers := (servers C)(s := Up n'), elections := elections C, replies := replies C,
      cast := cast C, elected := elected C\<rparr>)"
    by (rule inv_update [OF assms(1-3)]) (use assms(4) inv_parts [OF assms(1)] in auto)
  then show ?thesis
    by simp
qed

lemma majority_config:
  assumes "config_ok M opts" and "s \<in> M" and "peers n = optPeers (opts s)"
  shows "majorityLocked n = int (card M div 2 + 1)"
proof -
  have "length (peers n) = card (M - {s})"
    using assms distinct_card [of "map peerID (peers n)"] by (auto simp: config_ok_def)
  moreover have "card M = Suc (card (M - {s}))"
    using assms card_Suc_Diff1 [of M s] by (simp add: config_ok_def)
  ultimately show ?thesis
    by (simp add: majorityLocked_def zdiv_int)
qed

lemma inv_campaign:
  assumes cfg: "config_ok M opts" and inv: "inv M opts C" and up: "servers C s = Up n"
    and t: "currentTerm n \<noteq> - 1" and run: "startElection_begin n = (Some e, n')"
  defines "E \<equiv> \<lparr>election = e, waiting = set (map peerID (ePeers e)), alive = True\<rparr>"
  shows "inv M opts (C\<lparr>servers := (servers C)(s := Up n'), elections := elections C @ [E],
      cast := insert (s, eTerm e, eCandidate e) (cast C)\<rparr>)"
proof -
  note srv = inv_server [OF inv up]
  note e = startElection_begin_election [OF run]
  let ?V = "insert (s, eTerm e, eCandidate e) (cast C)"
  have adv: "advances n n'" "keeps_lead n n'"
    using begin_advances [OF run _ t] srv by auto
  have "election_ok M opts ?V E"
    using srv e majority_config [OF cfg, of s n] by (simp add: E_def election_ok_def supporters_def)
  then have es: "election_ok M opts ?V X" if "X \<in> set (elections C @ [E])" for X
    using that inv_parts(1) [OF inv, of X] election_ok_mono [of M opts "cast C" X ?V] by auto
  have rs: "i < length (elections C @ [E]) \<and> (rvrVoteGranted r \<longrightarrow>
      (p, eTerm (election ((elections C @ [E]) ! i)), eCandidate (election ((elections C @ [E]) ! i))) \<in> ?V)"
    if "(i, p, r) \<in> replies C" for i p r
    using inv_parts(2) [OF inv that] by (auto simp: nth_append)
  have new: "eCandidate e \<noteq> []" "durable (db (store n')) = Inr (eTerm e, eCandidate e)"
    using begin_durable [OF run] e srv by (auto simp: vote_ok_def)
  have "inv M opts (C\<lparr>servers := (servers C)(s := Up n'), elections := elections C @ [E], replies := replies C,
      cast := ?V, elected := elected C\<rparr>)"
    by (rule inv_update [OF inv up adv(1)]) (use adv(2) es rs new in auto)
  then show ?thesis
    by simp
qed

lemma inv_deliver:
  assumes inv: "inv M opts C" and i: "i < length (elections C)" "e = election (elections C ! i)"
    and up: "servers C p = Up n" and run: "RequestVote (Some (election_request e)) n = (r, n')"
  shows "inv M opts (C\<lparr>servers := (servers C)(p := Up n'),
      replies := (case r of Inl _ \<Rightarrow> replies C | Inr resp \<Rightarrow> insert (i, p, resp) (replies C)),
      cast := (if granted r then insert (p, eTerm e, eCandidate e) (cast C) else cast C)\<rparr>)"
proof -
  note srv = inv_server [OF inv up]
  let ?V = "if granted r then insert (p, eTerm e, eCandidate e) (cast C) else cast C"
  let ?R = "case r of Inl _ \<Rightarrow> replies C | Inr resp \<Rightarrow> insert (i, p, resp) (replies C)"
  have "election_ok M opts (cast C) (elections C ! i)"
    using inv_parts(1) [OF inv] i(1) by simp
  then have "(eCandidate e, eTerm e, eCandidate e) \<in> cast C"
    by (simp add: election_ok_def Let_def i(2))
  then have c: "eCandidate e \<noteq> []"
    using inv by (auto simp: inv_def cast_ok_def)
  have req: "RequestVoteRequest_GetCandidateId (Some (election_request e)) = eCandidate e"
    "RequestVoteRequest_GetTerm (Some (election_request e)) = eTerm e"
    by (simp_all add: election_request_def)
  have adv: "advances n n'" "keeps_lead n n'"
    using RequestVote_advances [OF run] srv c req by auto
  have new: "granted r \<Longrightarrow> durable (db (store n')) = Inr (eTerm e, eCandidate e)"
    using RequestVote_vote_ok(3) [OF run] srv c req by auto
  have es: "election_ok M opts ?V X" if "X \<in> set (elections C)" for X
    by (rule election_ok_mono [OF inv_parts(1) [OF inv that]]) auto
  have rs: "j < length (elections C) \<and> (rvrVoteGranted q \<longrightarrow>
      (u, eTerm (election (elections C ! j)), eCandidate (election (elections C ! j))) \<in> ?V)"
    if "(j, u, q) \<in> ?R" for j u q
    using that inv_parts(2) [OF inv, of j u q] i by (auto simp: granted_def split: sum.splits if_splits)
  have "inv M opts (C\<lparr>servers := (servers C)(p := Up n'), elections := elections C, replies := ?R,
      cast := ?V, elected := elected C\<rparr>)"
    by (rule inv_update [OF inv up adv(1)]) (use adv(2) es rs new c in \<open>auto split: if_splits\<close>)
  then show ?thesis
    by simp
qed


text \<open>The peers that have answered with a vote, and the candidate itself, are a majority.\<close>

lemma winners_majority:
  assumes cfg: "config_ok M opts" and E: "election_ok M opts V E" and V: "\<And>v t c. (v, t, c) \<in> V \<Longrightarrow> v \<in> M"
    and won: "eMajority (election E) \<le> 1 + int (card (supporters V E))"
  shows "majority_of M {v. (v, eTerm (election E), eCandidate (election E)) \<in> V}"
proof -
  let ?c = "eCandidate (election E)"
  let ?W = "{v. (v, eTerm (election E), ?c) \<in> V}"
  have "finite M" and c: "?c \<in> M" "(?c, eTerm (election E), ?c) \<in> V" and maj: "eMajority (election E) = int (card M div 2 + 1)"
    and "?c \<notin> set (map peerID (ePeers (election E)))"
    using cfg E by (auto simp: config_ok_def election_ok_def Let_def)
  then have "?c \<notin> supporters V E"
    by (simp add: supporters_def)
  then have "1 + card (supporters V E) = card (insert ?c (supporters V E))"
    by (simp add: supporters_finite)
  also have "\<dots> \<le> card ?W"
    using V c \<open>finite M\<close> by (intro card_mono) (auto simp: supporters_def intro: finite_subset [of _ M])
  finally show ?thesis
    using won maj V \<open>finite M\<close> by (auto simp: majority_of_def)
qed

lemma supporters_answer:
  assumes "p \<in> waiting E" and "waiting E \<subseteq> set (map peerID (ePeers (election E)))"
    and "eTerm e' = eTerm (election E)" "eCandidate e' = eCandidate (election E)" "ePeers e' = ePeers (election E)"
  shows "card (supporters V (E\<lparr>election := e', waiting := waiting E - {p}\<rparr>)) =
    card (supporters V E) + (if (p, eTerm (election E), eCandidate (election E)) \<in> V then 1 else 0)"
proof -
  have "supporters V (E\<lparr>election := e', waiting := waiting E - {p}\<rparr>) =
      (if (p, eTerm (election E), eCandidate (election E)) \<in> V then insert p (supporters V E) else supporters V E)"
    using assms by (auto simp: supporters_def)
  moreover have "p \<notin> supporters V E"
    using assms(1) by (simp add: supporters_def)
  ultimately show ?thesis
    by (simp add: supporters_finite)
qed

lemma answer_election_ok:
  assumes E: "election_ok M opts V E" and p: "p \<in> waiting E"
    and run: "startElection_reply (Some resp) (election E) n = (e', n')"
    and r: "rvrVoteGranted resp \<Longrightarrow> (p, eTerm (election E), eCandidate (election E)) \<in> V"
  shows "election_ok M opts V (E\<lparr>election := e', waiting := waiting E - {p}\<rparr>)"
proof -
  have sub: "waiting E \<subseteq> set (map peerID (ePeers (election E)))"
    using E unfolding election_ok_def Let_def by blast
  note e' = startElection_reply_cases [OF run]
  have votes: "eVotes e' \<le> eVotes (election E) + (if rvrVoteGranted resp then 1 else 0)"
    using e' by (auto split: if_splits)
  have "card (supporters V (E\<lparr>election := e', waiting := waiting E - {p}\<rparr>)) =
      card (supporters V E) + (if (p, eTerm (election E), eCandidate (election E)) \<in> V then 1 else 0)"
    by (rule supporters_answer [OF p sub]) (use e' in auto)
  with E e' votes r sub show ?thesis
    by (auto simp: election_ok_def Let_def split: if_splits)
qed

lemma record_leader_cases:
  "calm n n' \<Longrightarrow> record_leader n n' L = L"
  "leads n n' \<Longrightarrow> record_leader n n' L = insert (currentTerm n, nid n) L"
  by (auto simp: record_leader_def calm_def leads_def view_def Let_def)


lemma inv_voters: "inv M opts C \<Longrightarrow> (v, t, c) \<in> cast C \<Longrightarrow> v \<in> M"
  by (auto simp: inv_def cast_ok_def)

text \<open>A server that takes an answer or finds itself alone may become leader.\<close>

lemma inv_leader:
  assumes cfg: "config_ok M opts" and inv: "inv M opts C" and up: "servers C s = Up n"
    and s: "s = eCandidate (election E)" and E: "election_ok M opts (cast C) E"
    and cases: "calm n n' \<or> leads n n' \<and> currentTerm n = eTerm (election E)
      \<and> eMajority (election E) \<le> 1 + int (card (supporters (cast C) E))"
    and es: "\<And>X. X \<in> set es \<Longrightarrow> election_ok M opts (cast C) X"
    and rs: "\<And>i p r. (i, p, r) \<in> replies C \<Longrightarrow> i < length es
      \<and> (rvrVoteGranted r \<longrightarrow> (p, eTerm (election (es ! i)), eCandidate (election (es ! i))) \<in> cast C)"
  shows "inv M opts (C\<lparr>servers := (servers C)(s := Up n'), elections := es, elected := record_leader n n' (elected C)\<rparr>)"
proof -
  note srv = inv_server [OF inv up]
  let ?L = "record_leader n n' (elected C)"
  have *: "advances n n' \<and> elected C \<subseteq> ?L \<and> (keeps_lead n n' \<or> (currentTerm n', s) \<in> ?L)
      \<and> (\<forall>t a. (t, a) \<in> ?L - elected C \<longrightarrow> majority_of M {v. (v, t, a) \<in> cast C})"
    using cases
  proof (elim disjE conjE)
    assume c: "calm n n'"
    with calm_advances [OF c] srv show ?thesis
      by (simp add: record_leader_cases)
  next
    assume l: "leads n n'" and t: "currentTerm n = eTerm (election E)"
      and won: "eMajority (election E) \<le> 1 + int (card (supporters (cast C) E))"
    have "majority_of M {v. (v, eTerm (election E), eCandidate (election E)) \<in> cast C}"
      by (rule winners_majority [OF cfg E inv_voters [OF inv] won])
    with leads_advances [OF l] srv s t show ?thesis
      by (auto simp: record_leader_cases(2) [OF l])
  qed
  have "inv M opts (C\<lparr>servers := (servers C)(s := Up n'), elections := es, replies := replies C,
      cast := cast C, elected := ?L\<rparr>)"
    by (rule inv_update [OF inv up]) (use * es rs in auto)
  then show ?thesis
    by simp
qed

lemma inv_answer:
  assumes cfg: "config_ok M opts" and inv: "inv M opts C" and i: "i < length (elections C)" "elections C ! i = E"
    and p: "p \<in> waiting E" and r: "(i, p, resp) \<in> replies C"
    and s: "s = eCandidate (election E)" and up: "servers C s = Up n"
    and run: "startElection_reply (Some resp) (election E) n = (e', n')"
  shows "inv M opts (C\<lparr>servers := (servers C)(s := Up n'),
      elections := (elections C)[i := E\<lparr>election := e', waiting := waiting E - {p}\<rparr>],
      elected := record_leader n n' (elected C)\<rparr>)"
proof -
  let ?E = "E\<lparr>election := e', waiting := waiting E - {p}\<rparr>"
  have E: "election_ok M opts (cast C) E"
    using inv_parts(1) [OF inv] i by (metis nth_mem)
  have E': "election_ok M opts (cast C) ?E"
    by (rule answer_election_ok [OF E p run]) (use inv_parts(2) [OF inv r] i in auto)
  note e' = startElection_reply_cases [OF run]
  have le: "eVotes e' \<le> 1 + int (card (supporters (cast C) ?E))"
    using E' by (simp add: election_ok_def Let_def)
  show ?thesis
  proof (rule inv_leader [OF cfg inv up, of ?E])
    show "s = eCandidate (election ?E)"
      using s e' by simp
    show "calm n n' \<or> leads n n' \<and> currentTerm n = eTerm (election ?E)
        \<and> eMajority (election ?E) \<le> 1 + int (card (supporters (cast C) ?E))"
      using e' le by auto
    show "election_ok M opts (cast C) X" if "X \<in> set ((elections C)[i := ?E])" for X
      using set_update_subset_insert [THEN subsetD, OF that] E' inv_parts(1) [OF inv] by auto
    show "j < length ((elections C)[i := ?E]) \<and> (rvrVoteGranted q \<longrightarrow>
        (u, eTerm (election ((elections C)[i := ?E] ! j)), eCandidate (election ((elections C)[i := ?E] ! j))) \<in> cast C)"
      if "(j, u, q) \<in> replies C" for j u q
      using inv_parts(2) [OF inv that] i e' by (cases "j = i") auto
  qed (rule E')
qed


lemma inv_single:
  assumes cfg: "config_ok M opts" and inv: "inv M opts C" and i: "i < length (elections C)" "elections C ! i = E"
    and s: "s = eCandidate (election E)" and up: "servers C s = Up n"
  shows "inv M opts (C\<lparr>servers := (servers C)(s := Up (startElection_single (election E) n)),
      elected := record_leader n (startElection_single (election E) n) (elected C)\<rparr>)"
proof -
  have E: "election_ok M opts (cast C) E"
    using inv_parts(1) [OF inv] i by (metis nth_mem)
  have "inv M opts (C\<lparr>servers := (servers C)(s := Up (startElection_single (election E) n)), elections := elections C,
      elected := record_leader n (startElection_single (election E) n) (elected C)\<rparr>)"
    by (rule inv_leader [OF cfg inv up s E])
      (use startElection_single_cases [of n "election E"] inv_parts [OF inv] in auto)
  then show ?thesis
    by simp
qed

text \<open>Stopping and starting a server keeps what its files remember.\<close>

lemma inv_files:
  assumes inv: "inv M opts C" and T: "durable (files S) = durable (files (servers C s))"
    and S: "\<And>n. S = Up n \<Longrightarrow> s \<in> M \<and> nid n = s \<and> peers n = optPeers (opts s) \<and> vote_ok n \<and> role n \<noteq> RoleLeader"
    and es: "map election es = map election (elections C)" "map waiting es = map waiting (elections C)"
  shows "inv M opts (C\<lparr>servers := (servers C)(s := S), elections := es\<rparr>)"
proof -
  have "server_ok M opts (elected C) x (((servers C)(s := S)) x)" for x
    using inv T S by (cases "x = s") (auto simp: inv_def server_ok_def)
  moreover have "remembers (files (((servers C)(s := S)) v)) t c = remembers (files (servers C v)) t c" for v t c
    using T by (simp add: remembers_def)
  moreover have "election_ok M opts (cast C) E" if E: "E \<in> set es" for E
  proof -
    obtain i where i: "i < length es" "E = es ! i"
      using E by (auto simp: in_set_conv_nth)
    moreover have len: "length es = length (elections C)"
      using es(1) map_eq_imp_length_eq by blast
    ultimately have "election E = election (elections C ! i)" "waiting E = waiting (elections C ! i)"
      using es by (metis nth_map)+
    moreover have "election_ok M opts (cast C) (elections C ! i)"
      using inv_parts(1) [OF inv] i(1) len by simp
    ultimately show ?thesis
      by (simp add: election_ok_def supporters_def)
  qed
  moreover have "election (es ! i) = election (elections C ! i)" if "i < length (elections C)" for i
    using es(1) that by (metis length_map nth_map)
  ultimately show ?thesis
    using inv map_eq_imp_length_eq [OF es(1)]
    by (simp add: inv_def cast_ok_def replies_ok_def)
qed

lemma inv_election_step:
  assumes "election_step M opts C C'" and "config_ok M opts" and "inv M opts C"
  shows "inv M opts C'"
  using assms
proof (induction rule: election_step.induct)
  case (timeout C s n n')
  then show ?case
    using begin_advances inv_server by (blast intro: inv_quiet)
next
  case (campaign C s n e n')
  then show ?case
    by (intro inv_campaign)
next
  case (deliver i C e p n r n')
  then show ?case
    by (intro inv_deliver)
next
  case (answer i C E p resp s n e' n')
  then show ?case
    by (intro inv_answer)
next
  case (single_node i C E s n n')
  then show ?case
    using inv_single by blast
next
  case (crash C s n)
  then show ?case
    by (intro inv_files) (auto simp: comp_def)
next
  case (restart C s T order script clk rnd n T')
  note n = New_running [OF restart(4,3)]
  have "inv M opts (C\<lparr>servers := (servers C)(s := Up n), elections := elections C\<rparr>)"
    by (rule inv_files) (use restart n in \<open>auto simp: config_ok_def vote_ok_def\<close>)
  then show ?case
    by simp
next
  case (failed_start C s T order script clk rnd err T')
  have "inv M opts (C\<lparr>servers := (servers C)(s := Down T'), elections := elections C\<rparr>)"
    by (rule inv_files) (use failed_start New_failed in auto)
  then show ?case
    by simp
qed

lemma inv_step:
  assumes "step M opts C C'" and "config_ok M opts" and "inv M opts C"
  shows "inv M opts C'"
  using assms(1)
proof cases
  case (local_op s n n')
  then show ?thesis
    using calm_advances [OF local_step_calm] inv_server assms(3) by (blast intro: inv_quiet)
next
  case elections
  then show ?thesis
    using inv_election_step assms by blast
qed

lemma reachable_inv: "reachable M opts C \<Longrightarrow> config_ok M opts \<Longrightarrow> inv M opts C"
  by (induction rule: reachable.induct) (auto intro: inv_initial inv_step)

text \<open>Terms and durable votes only move forward.\<close>

lemma calm_term: "calm n n' \<Longrightarrow> currentTerm n \<le> currentTerm n'"
  by (auto simp: calm_def Let_def)

lemma begin_term:
  assumes "startElection_begin n = (r, n')" and "currentTerm n \<noteq> - 1"
  shows "currentTerm n \<le> currentTerm n'"
proof (cases "role n = RoleLeader")
  case True
  with assms(1) show ?thesis
    by (simp add: startElection_begin_leader)
next
  case False
  have "currentTerm n < currentTerm n + 1"
    using assms(2) by (simp add: u64_less_Suc word_order.not_eq_extremum)
  with startElection_begin_view [OF assms(1) False] show ?thesis
    by simp
qed

lemma RequestVote_term: "RequestVote req n = (r, n') \<Longrightarrow> currentTerm n \<le> currentTerm n'"
  by (drule RequestVote_view) (auto simp: view_def dest!: calm_term)

lemma leads_term: "leads n n' \<Longrightarrow> currentTerm n' = currentTerm n"
  by (simp add: leads_def view_def)

lemma inv_candidate:
  assumes "inv M opts C" and "i < length (elections C)"
  shows "eCandidate (election (elections C ! i)) \<noteq> []"
proof -
  have "election_ok M opts (cast C) (elections C ! i)"
    using inv_parts(1) [OF assms(1)] assms(2) by simp
  then have "(eCandidate (election (elections C ! i)), eTerm (election (elections C ! i)), eCandidate (election (elections C ! i))) \<in> cast C"
    by (simp add: election_ok_def Let_def)
  then show ?thesis
    using assms(1) unfolding inv_def cast_ok_def by blast
qed

lemma election_step_remembers:
  assumes "election_step M opts C C'" and "inv M opts C" and "c \<noteq> []" and "remembers (files (servers C s)) t c"
  shows "remembers (files (servers C' s)) t c"
  using assms
proof (induction rule: election_step.induct)
  case (timeout C x n n')
  then show ?case
    using begin_advances [of n None n'] inv_server [of M opts C x n] by (auto simp: advances_def)
next
  case (campaign C x n e n')
  then show ?case
    using begin_advances [of n "Some e" n'] inv_server [of M opts C x n] by (auto simp: advances_def)
next
  case (deliver i C e p n r n')
  have "eCandidate e \<noteq> []"
    using inv_candidate deliver by blast
  then show ?case
    using deliver RequestVote_advances [OF deliver(5)] inv_server [of M opts C p n]
    by (auto simp: advances_def election_request_def)
next
  case (answer i C E p resp x n e' n')
  then show ?case
    using startElection_reply_cases [OF answer(8)] inv_server [of M opts C x n] calm_advances leads_advances
    by (fastforce simp: advances_def)
next
  case (single_node i C E x n n')
  then show ?case
    using startElection_single_cases [of n "election E"] inv_server [of M opts C x n] calm_advances leads_advances
    by (fastforce simp: advances_def)
next
  case (restart C x T order script clk rnd n T')
  then show ?case
    using New_running [OF restart(4,3)] by (auto simp: remembers_def)
next
  case (failed_start C x T order script clk rnd err T')
  then show ?case
    using New_failed [OF failed_start(3,2)] by (auto simp: remembers_def)
qed (auto simp: remembers_def)

lemma step_remembers:
  assumes "step M opts C C'" and "inv M opts C" and "c \<noteq> []" and "remembers (files (servers C s)) t c"
  shows "remembers (files (servers C' s)) t c"
  using assms(1)
proof cases
  case (local_op x n n')
  then show ?thesis
    using calm_advances [OF local_step_calm] inv_server [of M opts C x n] assms by (auto simp: advances_def)
next
  case elections
  then show ?thesis
    using election_step_remembers assms by blast
qed

lemma election_step_term:
  assumes "election_step M opts C C'" and "servers C s = Up n" and "servers C' s = Up n'"
  shows "currentTerm n \<le> currentTerm n'"
  using assms
proof (induction rule: election_step.induct)
  case (answer i C E p resp x m e' m')
  then show ?case
    using startElection_reply_cases [OF answer(8)] calm_term leads_term by (fastforce split: if_splits)
next
  case (single_node i C E x m m')
  then show ?case
    using startElection_single_cases [of m "election E"] calm_term leads_term by (fastforce split: if_splits)
qed (auto split: if_splits dest: begin_term RequestVote_term)

section \<open>Properties\<close>

text \<open>
  C1: election safety. In every reachable state of a cluster at most one server has become
  leader of a term, and every running leader is recorded as such; whatever crashes, restarts,
  database failures, losses, delays and reorderings of messages there were.
\<close>

theorem election_safety:
  assumes "config_ok M opts" and "reachable M opts C"
  shows "(\<forall>t a b. (t, a) \<in> elected C \<and> (t, b) \<in> elected C \<longrightarrow> a = b)
    \<and> (\<forall>s n. servers C s = Up n \<and> role n = RoleLeader \<longrightarrow> (currentTerm n, s) \<in> elected C)"
proof -
  note inv = reachable_inv [OF assms(2,1)]
  have "a = b" if "(t, a) \<in> elected C" "(t, b) \<in> elected C" for t a b
    by (rule majority.one_winner [of "cast C" M t])
      (use inv that in \<open>auto simp: inv_def votes_once_def elected_ok_def\<close>)
  moreover have "(currentTerm n, s) \<in> elected C" if "servers C s = Up n" "role n = RoleLeader" for s n
    using inv that by (force simp: inv_def server_ok_def)
  ultimately show ?thesis
    by blast
qed

text \<open>
  C8: a server never gives its vote of a term to two candidates, even when it crashes and
  restarts in between; and its files keep ruling that out.
\<close>

theorem votes_given_once:
  assumes "config_ok M opts" and "reachable M opts C" and "(v, t, c) \<in> cast C"
  shows "(\<forall>c'. (v, t, c') \<in> cast C \<longrightarrow> c' = c)
    \<and> (\<exists>pt pv. durable (files (servers C v)) = Inr (pt, pv) \<and> (t < pt \<or> t = pt \<and> pv = c))"
  using reachable_inv [OF assms(2,1)] assms(3)
  by (auto simp: inv_def votes_once_def cast_ok_def remembers_def)

text \<open>
  C9: whoever became leader of a term has the votes of a majority of the members for that term.
\<close>

theorem leader_has_majority:
  assumes "config_ok M opts" and "reachable M opts C" and "(t, a) \<in> elected C"
  shows "majority_of M {v. (v, t, a) \<in> cast C}"
  using reachable_inv [OF assms(2,1)] assms(3) by (auto simp: inv_def elected_ok_def)

text \<open>A cluster of one server that has elected itself.\<close>

definition solo_options :: "bytes \<Rightarrow> Options" where
  "solo_options s =
     \<lparr>optNodeID = s, optGRPCAddr = '':7000'', optHTTPAddr = '':8000'', optDataDir = ''/data'', optPeers = [],
      optElectionMin = 0, optElectionMax = 0, optHeartbeatInterval = 0, optSnapshotThreshold = 0\<rparr>"

lemma solo_config: "config_ok {''n1''} solo_options"
  by (simp add: config_ok_def solo_options_def)

lemma solo_run:
  "\<exists>C1 C2 C3 n n1. reachable {''n1''} solo_options C1 \<and> step {''n1''} solo_options C1 C2 \<and> step {''n1''} solo_options C2 C3
     \<and> servers C1 ''n1'' = Up n \<and> servers C2 ''n1'' = Up n1 \<and> currentTerm n = 0 \<and> currentTerm n1 = 1
     \<and> durable (db (store n)) = Inr (0, []) \<and> durable (db (store n1)) = Inr (1, ''n1'')
     \<and> (1, ''n1'') \<in> elected C3 \<and> (''n1'', 1, ''n1'') \<in> cast C3"
proof -
  obtain n T where new: "New (solo_options ''n1'') defaults empty_tables [] [] [] = (Inr n, T)" and ok: "node_ok n"
    using New_ok [of empty_tables defaults "solo_options ''n1''" "[]" "[]"] by (auto simp: solo_options_def)
  have n: "nid n = ''n1''" "peers n = []" "role n = RoleFollower" "currentTerm n = 0"
    using New_running [OF new] durable_empty by (auto simp: solo_options_def)
  obtain e n1 where run: "startElection_begin n = (Some e, n1)" and ok1: "node_ok n1"
    using begin_ok [OF ok] n by auto
  note e = startElection_begin_election [OF run]
  have n1: "nid n1 = ''n1''" "role n1 = RoleCandidate" "currentTerm n1 = 1"
    using startElection_begin_view [OF run] n by auto
  define n2 where "n2 = startElection_single e n1"
  have "n2 = becomeLeaderLocked n1"
    using e n n1 by (simp add: n2_def startElection_single_def majorityLocked_def)
  then have n2: "role n2 = RoleLeader" "currentTerm n2 = 1" "nid n2 = ''n1''"
    using becomeLeader_ok [OF ok1] view_becomeLeader [of n1] n1 by (auto simp: view_def)
  let ?M = "{''n1''}"
  define C1 where "C1 = initial\<lparr>servers := (servers initial)(''n1'' := Up n)\<rparr>"
  define C2 where "C2 = C1\<lparr>servers := (servers C1)(''n1'' := Up n1),
      elections := elections C1 @ [\<lparr>election = e, waiting = set (map peerID (ePeers e)), alive = True\<rparr>],
      cast := insert (''n1'', eTerm e, eCandidate e) (cast C1)\<rparr>"
  define C3 where "C3 = C2\<lparr>servers := (servers C2)(''n1'' := Up n2), elected := record_leader n1 n2 (elected C2)\<rparr>"
  have "step ?M solo_options initial C1"
    unfolding C1_def by (rule step.elections, rule election_step.restart [where opts = solo_options and s = "''n1''", OF _ _ _ new]) (simp_all add: initial_def)
  moreover have "step ?M solo_options C1 C2"
    unfolding C2_def by (rule step.elections, rule campaign [OF _ _ run]) (simp_all add: C1_def n)
  moreover have "step ?M solo_options C2 C3"
    unfolding C3_def by (rule step.elections, rule election_step.single_node [where i = 0 and E = "\<lparr>election = e, waiting = {}, alive = True\<rparr>"]) (use e n in \<open>simp_all add: C2_def C1_def initial_def n2_def\<close>)
  ultimately have steps: "reachable ?M solo_options C1" "step ?M solo_options C1 C2" "step ?M solo_options C2 C3"
    by (auto intro: reachable.intros)
  have "(1, ''n1'') \<in> elected C3" "(''n1'', 1, ''n1'') \<in> cast C3"
    using n1 n2 e n by (auto simp: C3_def C2_def record_leader_def)
  moreover have "servers C1 ''n1'' = Up n" "servers C2 ''n1'' = Up n1"
    by (simp_all add: C1_def C2_def)
  moreover have "durable (db (store n)) = Inr (0, [])" "durable (db (store n1)) = Inr (1, ''n1'')"
    using New_running [OF new] durable_empty begin_durable [OF run] e n by auto
  ultimately show ?thesis
    using steps n(4) n1(3) by blast
qed

lemma solo_leader: "\<exists>C. reachable {''n1''} solo_options C \<and> (1, ''n1'') \<in> elected C \<and> (''n1'', 1, ''n1'') \<in> cast C"
  using solo_run by (meson reachable.next_step)

theorem election_safety_witness:
  "\<exists>C. reachable {''n1''} solo_options C \<and> (1, ''n1'') \<in> elected C \<and> (\<forall>b. (1, b) \<in> elected C \<longrightarrow> b = ''n1'')"
  using solo_leader election_safety [OF solo_config] by blast

theorem votes_given_once_witness:
  "\<exists>C. reachable {''n1''} solo_options C \<and> (''n1'', 1, ''n1'') \<in> cast C
     \<and> (\<forall>c. (''n1'', 1, c) \<in> cast C \<longrightarrow> c = ''n1'')"
  using solo_leader votes_given_once [OF solo_config] by blast

theorem leader_has_majority_witness:
  "\<exists>C. reachable {''n1''} solo_options C \<and> (1, ''n1'') \<in> elected C \<and> majority_of {''n1''} {v. (v, 1, ''n1'') \<in> cast C}"
proof -
  obtain C where C: "reachable {''n1''} solo_options C" "(1, ''n1'') \<in> elected C"
    using solo_leader by blast
  from leader_has_majority [OF solo_config C] C show ?thesis
    by blast
qed

text \<open>
  C10: the term and vote a server would restart with never go backwards, whatever step the cluster
  takes: the durable term does not decrease, and within a term a durable vote is not
  replaced.
\<close>

theorem durable_vote_monotone:
  assumes "config_ok M opts" and "reachable M opts C" and "step M opts C C'"
    and "durable (files (servers C s)) = Inr (t, v)" and "durable (files (servers C' s)) = Inr (t', v')"
  shows "t < t' \<or> t = t' \<and> (v = [] \<or> v = v')"
proof -
  note inv = reachable_inv [OF assms(2,1)]
  have rem: "u < t' \<or> u = t' \<and> v' = c" if "u < t \<or> u = t \<and> v = c" "c \<noteq> []" for u c
    using step_remembers [OF assms(3) inv, of c s u] that assms(4,5) by (auto simp: remembers_def)
  have "u < t'" if "u < t" for u
    using rem [of u "''a''"] rem [of u "''b''"] that by auto
  then have "\<not> t' < t"
    by blast
  then have "t \<le> t'"
    by simp
  with rem [of t v] show ?thesis
    by (auto simp: le_less)
qed

text \<open>While a server runs, its term never decreases.\<close>

theorem term_monotone:
  assumes "step M opts C C'" and "servers C s = Up n" and "servers C' s = Up n'"
  shows "currentTerm n \<le> currentTerm n'"
  using assms(1)
proof cases
  case (local_op x m m')
  then show ?thesis
    using assms calm_term [OF local_step_calm] by (auto split: if_splits)
next
  case elections
  then show ?thesis
    using election_step_term assms by blast
qed

theorem durable_vote_monotone_witness:
  "\<exists>C C'. reachable {''n1''} solo_options C \<and> step {''n1''} solo_options C C'
     \<and> durable (files (servers C ''n1'')) = Inr (0, []) \<and> durable (files (servers C' ''n1'')) = Inr (1, ''n1'')
     \<and> ((0::u64) < 1 \<or> (0::u64) = 1 \<and> ([] = [] \<or> [] = ''n1''))"
proof -
  obtain C C' where C: "reachable {''n1''} solo_options C" "step {''n1''} solo_options C C'"
    and d: "durable (files (servers C ''n1'')) = Inr (0, [])" "durable (files (servers C' ''n1'')) = Inr (1, ''n1'')"
    using solo_run by auto
  from durable_vote_monotone [OF solo_config C d] C d show ?thesis
    by blast
qed

theorem term_monotone_witness:
  "\<exists>C C' n n'. step {''n1''} solo_options C C' \<and> servers C ''n1'' = Up n \<and> servers C' ''n1'' = Up n'
     \<and> currentTerm n \<le> currentTerm n'"
  using solo_run term_monotone by metis

end
