(* ===== verification/Replication.thy ===== *)
theory Replication
  imports Raft_Client
begin

text \<open>
  Logs without gaps: between the snapshot and the last entry every index is there. Every
  operation of a node keeps its log this way, and from such a log a leader builds requests
  that meet the assumptions of the follower's handler; after a successful exchange the two
  logs agree on the range of the request.
\<close>

section \<open>Logs without gaps\<close>

definition spans :: "(u64 \<Rightarrow> 'x option) \<Rightarrow> u64 \<Rightarrow> u64 \<Rightarrow> bool" where
  "spans f a b \<longleftrightarrow> a \<le> b \<and> (\<forall>i. f i \<noteq> None \<longleftrightarrow> a < i \<and> i \<le> b)"

lemma spans_iff: "spans f a b \<Longrightarrow> f i \<noteq> None \<longleftrightarrow> a < i \<and> i \<le> b"
  by (simp only: spans_def)

lemma spans_le: "spans f a b \<Longrightarrow> a \<le> b"
  by (simp only: spans_def)

lemma spansI: "a \<le> b \<Longrightarrow> (\<And>i. f i \<noteq> None \<longleftrightarrow> a < i \<and> i \<le> b) \<Longrightarrow> spans f a b"
  by (simp only: spans_def) blast

definition last_index :: "u64 \<Rightarrow> Entry list \<Rightarrow> u64" where
  "last_index p es = (if es = [] then p else entryIndex (last es))"

lemma consecutive_range:
  "consecutive p es \<Longrightarrow> p \<le> last_index p es \<and> (i \<in> entryIndex ` set es \<longleftrightarrow> p < i \<and> i \<le> last_index p es)"
proof (induction p es rule: consecutive.induct)
  case (2 p e es)
  have p: "p < p + 1"
    using 2 ok_index_Suc [of p] by simp
  have IH: "p + 1 \<le> last_index (p + 1) es" "i \<in> entryIndex ` set es \<longleftrightarrow> p + 1 < i \<and> i \<le> last_index (p + 1) es"
    using 2 by auto
  moreover have "last_index p (e # es) = last_index (p + 1) es"
    using 2 by (simp add: last_index_def)
  moreover have "p < i \<longleftrightarrow> p + 1 = i \<or> p + 1 < i"
    using p u64_Suc_le [of p i] by auto
  ultimately show ?case
    using 2 p by auto
qed (auto simp: last_index_def)

lemma consecutive_take: "consecutive p es \<Longrightarrow> consecutive p (take k es)"
proof (induction k arbitrary: p es)
  case (Suc k)
  then show ?case
    by (cases es) auto
qed simp

context replicated_log
begin

lemma app_spans:
  assumes "consecutive p es" and "spans (look t) a p"
  shows "spans (look (app es t)) a (last_index p es)"
proof -
  note r = consecutive_range [OF assms(1)]
  have "look (app es t) i \<noteq> None \<longleftrightarrow> a < i \<and> i \<le> last_index p es" for i
  proof (cases "i \<in> entryIndex ` set es")
    case True
    then obtain e where "e \<in> set es" "i = entryIndex e"
      by blast
    then have "look (app es t) i \<noteq> None"
      using look_app_inside [OF consecutive_distinct [OF assms(1)], of e t] by simp
    with True r [of i] assms(2) show ?thesis
      by (auto simp: spans_def)
  next
    case False
    then have "look (app es t) i = look t i"
      by (intro look_app_outside) auto
    with False r [of i] assms(2) show ?thesis
      by (auto simp: spans_def)
  qed
  moreover have "a \<le> last_index p es"
    using r [of 0] spans_le [OF assms(2)] by (blast intro: order_trans)
  ultimately show ?thesis
    by (intro spansI)
qed

lemma trunc_spans:
  assumes "linv t" and "spans (look t) a b" and "a \<le> p" and "p \<le> b" and "ok_index (p + 1)"
  shows "spans (look (trunc (p + 1) t)) a p"
proof -
  have "p + 1 \<le> i \<longleftrightarrow> \<not> i \<le> p" for i
    using ok_index_Suc [OF assms(5)] u64_Suc_le [of p i] by auto
  with assms show ?thesis
    by (auto simp: spans_def look_trunc)
qed

lemma reconcile_spans:
  "linv t \<Longrightarrow> consecutive p es \<Longrightarrow> spans (look t) a b \<Longrightarrow> a \<le> p \<Longrightarrow> p \<le> b \<Longrightarrow>
     \<exists>b'. spans (look (reconcile look app trunc es t)) a b' \<and> last_index p es \<le> b'"
proof (induction es arbitrary: p)
  case (Cons e es)
  have e: "entryIndex e = p + 1" "ok_index (p + 1)" "p < p + 1"
    using Cons.prems ok_index_Suc [of p] by auto
  show ?case
  proof (cases "look t (p + 1)")
    case None
    have "p = b"
    proof (rule ccontr)
      assume "p \<noteq> b"
      then have "p + 1 \<le> b"
        using Cons.prems(5) by (intro u64_Suc_le) simp
      moreover have "a < p + 1"
        using Cons.prems(4) e(3) by simp
      ultimately show False
        using None spans_iff [OF Cons.prems(3), of "p + 1"] by simp
    qed
    with None e app_spans [OF Cons.prems(2)] Cons.prems(3) show ?thesis
      by auto
  next
    case (Some x)
    obtain tm c where x: "x = (tm, c)"
      by force
    show ?thesis
    proof (cases "tm = entryTerm e")
      case True
      have "p + 1 \<le> b"
        using Some Cons.prems(3) by (auto simp: spans_def)
      then have "\<exists>b'. spans (look (reconcile look app trunc es t)) a b' \<and> last_index (p + 1) es \<le> b'"
        using Cons.prems e by (intro Cons.IH) auto
      with True Some x e show ?thesis
        by (auto simp: last_index_def)
    next
      case False
      have "spans (look (trunc (p + 1) t)) a p"
        using Cons.prems e by (intro trunc_spans) auto
      with False Some x e app_spans [OF Cons.prems(2)] show ?thesis
        by auto
    qed
  qed
qed (auto simp: last_index_def)

end


section \<open>The log of a node\<close>

definition gap_free :: "tables \<Rightarrow> bool" where
  "gap_free T \<longleftrightarrow> wf_tables T \<and> (\<exists>si st l. snap_pos T = Inr (si, st) \<and> l < 2 ^ 63 \<and> spans (log_entry T) si l)"

lemma gap_freeI:
  "wf_tables T \<Longrightarrow> snap_pos T = Inr (si, st) \<Longrightarrow> l < 2 ^ 63 \<Longrightarrow> spans (log_entry T) si l \<Longrightarrow> gap_free T"
  unfolding gap_free_def by blast

lemma gap_freeE:
  assumes "gap_free T"
  obtains si st l where "wf_tables T" and "snap_pos T = Inr (si, st)" and "l < 2 ^ 63" and "spans (log_entry T) si l"
  using assms unfolding gap_free_def by blast

lemma gap_free_wf: "gap_free T \<Longrightarrow> wf_tables T"
  by (simp add: gap_free_def)

lemma gap_free_same_log: "gap_free T \<Longrightarrow> same_log T T' \<Longrightarrow> gap_free T'"
  by (auto simp: gap_free_def same_log_def log_entry_def fun_eq_iff spans_def)

lemma gap_free_save_term_vote: "gap_free T \<Longrightarrow> gap_free (save_term_vote t v T)"
proof -
  assume g: "gap_free T"
  have "snap_pos (save_term_vote t v T) = snap_pos T"
    by (simp add: snap_pos_def save_term_vote_def meta_uint_other split: sum.splits)
  then have "same_log T (save_term_vote t v T)"
    using gap_free_wf [OF g] by (simp add: same_log_def) (simp add: save_term_vote_def)
  with g show ?thesis
    by (rule gap_free_same_log)
qed

lemma log_entry_none: "log_ok T \<Longrightarrow> \<not> ok_index i \<Longrightarrow> log_entry T i = None"
  using log_entry_ok by (cases "log_entry T i") auto

lemma log_entry_delete_upto_small:
  assumes "log_ok T" and "k < 2 ^ 63"
  shows "log_entry (delete_log_upto k T) i = (if i \<le> k then None else log_entry T i)"
proof (cases "ok_index i")
  case True
  then have "int64_of i \<le> int64_of k \<longleftrightarrow> i \<le> k"
    using assms(2) by (intro int64_of_le_iff) (auto simp: ok_index_def)
  then show ?thesis
    by (simp add: log_entry_def delete_log_upto_def table_simps)
next
  case False
  from log_entry_none [OF assms(1) False] show ?thesis
    by (auto simp: log_entry_def delete_log_upto_def table_simps)
qed

lemma spans_delete_upto:
  assumes "log_ok T" and "spans (log_entry T) si l" and "si \<le> k" and "k < 2 ^ 63"
  shows "spans (log_entry (delete_log_upto k T)) k (max k l)"
  using assms(3) spans_iff [OF assms(2)]
  by (intro spansI) (auto simp: log_entry_delete_upto_small [OF assms(1,4)] not_le max_def)

text \<open>Snapshots move the start of the log, at most to its end or beyond it.\<close>

lemma gap_free_create_snapshot:
  assumes "gap_free T" and "snap_pos T = Inr (si, st)" and "si \<le> k" and "k < 2 ^ 63"
  shows "gap_free (create_snapshot k t T)"
proof -
  from assms(1,2) obtain l where wf: "wf_tables T" and l: "l < 2 ^ 63" "spans (log_entry T) si l"
    by (auto elim: gap_freeE)
  show ?thesis
  proof (rule gap_freeI)
    show "snap_pos (create_snapshot k t T) = Inr (k, t)"
      by (simp add: create_snapshot_def snap_pos_set)
    have "log_entry (create_snapshot k t T) = log_entry (delete_log_upto k T)"
      by (simp add: create_snapshot_def set_snapshot_meta_def log_entry_def fun_eq_iff delete_log_upto_def)
    then show "spans (log_entry (create_snapshot k t T)) k (max k l)"
      using spans_delete_upto [OF wf_tables_log [OF wf] l(2) assms(3,4)] by simp
    show "max k l < 2 ^ 63"
      using assms(4) l(1) by (simp add: max_def)
  qed (simp add: wf)
qed

lemma gap_free_install_snapshot:
  assumes "gap_free T" and "snap_pos T = Inr (si, st)" and "si \<le> LastIncludedIndex snap" and "LastIncludedIndex snap < 2 ^ 63"
    and "snapshot_values snap = Inr vs"
  shows "gap_free (install_snapshot snap vs T)"
proof -
  let ?k = "LastIncludedIndex snap"
  from assms(1,2) obtain l where wf: "wf_tables T" and l: "l < 2 ^ 63" "spans (log_entry T) si l"
    by (auto elim: gap_freeE)
  show ?thesis
  proof (rule gap_freeI)
    show "snap_pos (install_snapshot snap vs T) = Inr (?k, LastIncludedTerm snap)"
      by (rule snap_pos_install)
    have "log_entry (install_snapshot snap vs T) = log_entry (delete_log_upto ?k T)"
      by (simp add: install_snapshot_def set_snapshot_meta_def log_entry_def fun_eq_iff delete_log_upto_def)
    then show "spans (log_entry (install_snapshot snap vs T)) ?k (max ?k l)"
      using spans_delete_upto [OF wf_tables_log [OF wf] l(2) assms(3,4)] by simp
    show "max ?k l < 2 ^ 63"
      using assms(4) l(1) by (simp add: max_def)
    show "wf_tables (install_snapshot snap vs T)"
      using wf snapshot_values_wf [OF assms(5)] by simp
  qed
qed

text \<open>The handler's conflict resolution, and the append of a leader at the end of its log.\<close>

lemma snap_pos_reconcile: "snap_pos (reconcile log_entry append_entries delete_log_from es T) = snap_pos T"
  by (induction es) (auto split: option.splits)

lemma gap_free_reconcile:
  assumes "gap_free T" and "snap_pos T = Inr (si, st)" and "si \<le> p" and "term_pos p T = Inr (t, True)" and "consecutive p es"
  shows "gap_free (reconcile log_entry append_entries delete_log_from es T)"
proof -
  from assms(1,2) obtain l where wf: "wf_tables T" and l: "l < 2 ^ 63" "spans (log_entry T) si l"
    by (auto elim: gap_freeE)
  have "p \<le> l"
  proof (cases "si < p")
    case True
    then have "log_entry T p \<noteq> None"
      using assms(4) term_pos_log [OF assms(2) True] by (auto split: option.splits)
    then show ?thesis
      using spans_iff [OF l(2)] by blast
  next
    case False
    then show ?thesis
      using assms(3) spans_le [OF l(2)] by simp
  qed
  let ?R = "reconcile log_entry append_entries delete_log_from es T"
  have wfR: "wf_tables ?R"
    by (rule sql_log.linv_reconcile [OF wf assms(5)])
  obtain b where b: "spans (log_entry ?R) si b"
    using sql_log.reconcile_spans [OF wf assms(5) l(2) assms(3) \<open>p \<le> l\<close>] by blast
  have "b < 2 ^ 63"
  proof (cases "si = b")
    case True
    then show ?thesis
      using l spans_le [OF l(2)] by (metis le_less_trans)
  next
    case False
    then have "log_entry ?R b \<noteq> None"
      using spans_iff [OF b, of b] spans_le [OF b] by simp
    then show ?thesis
      using log_entry_ok [OF wf_tables_log [OF wfR]] by (auto simp: ok_index_def)
  qed
  moreover have "snap_pos ?R = snap_pos T"
    using snap_pos_reconcile by simp
  ultimately show ?thesis
    using wfR b assms(2) by (intro gap_freeI) auto
qed


section \<open>Every operation keeps the log without gaps\<close>

abbreviation gf :: "Node \<Rightarrow> bool" where
  "gf n \<equiv> gap_free (db (store n))"

lemma gf_db: "db (store n') = db (store n) \<Longrightarrow> gf n \<Longrightarrow> gf n'"
  by simp

lemma gf_stepDown: "gf n \<Longrightarrow> gf (stepDownLocked t l n)"
  using gap_free_same_log gap_free_wf stepDown_same_log by blast

lemma gf_refresh [simp]: "gf (refreshMetricsLocked n) = gf n"
  by (simp add: refresh_store)

lemma gf_inc_rpc [simp]: "gf (inc_rpc m r n) = gf n"
  by (simp add: inc_rpc_def)

lemma term_within:
  assumes "spans (log_entry T) si l" and "snap_pos T = Inr (si, st)" and "si < i" and "term_pos i T = Inr (t, True)"
  shows "i \<le> l"
  using assms(4) term_pos_log [OF assms(2,3)] spans_iff [OF assms(1), of i] by (auto split: option.splits)

lemma gf_compact:
  assumes "gf n"
  shows "gf (compactIfNeededLocked n)"
proof -
  from assms obtain si st l where wf: "wf_tables (db (store n))" and sp: "snap_pos (db (store n)) = Inr (si, st)"
    and l: "l < 2 ^ 63" "spans (log_entry (db (store n))) si l"
    by (elim gap_freeE)
  obtain r n1 where s: "on_store SnapshotIndexTerm n = (r, n1)"
    by force
  note n1 = reads_db(2) [OF s]
  have r: "r = Inr (si, st) \<or> (\<exists>e. r = Inl e)"
    using on_store_db [OF s implements_SnapshotIndexTerm] sp by auto
  obtain q n2 where t: "on_store (Term (lastApplied n1)) n1 = (q, n2)"
    by force
  note n2 = reads_db(3) [OF t]
  have la: "lastApplied n2 = lastApplied n1"
    using store_only_on_store [OF t] by (auto simp: store_only_def)
  have q: "q = term_pos (lastApplied n1) (db (store n)) \<or> (\<exists>e. q = Inl e)"
    using on_store_db [OF t implements_Term] n1 by auto
  have snap: "gf (snd (on_store (CreateSnapshot (lastApplied n2) x) n2))" if "q = Inr (x, True)" "si < lastApplied n1" for x
  proof -
    obtain y m where c: "on_store (CreateSnapshot (lastApplied n2) x) n2 = (y, m)"
      by force
    have "term_pos (lastApplied n1) (db (store n)) = Inr (x, True)"
      using q that(1) by (metis Inl_Inr_False)
    then have "lastApplied n1 \<le> l"
      by (rule term_within [OF l(2) sp that(2)])
    then have "gap_free (create_snapshot (lastApplied n1) x (db (store n)))"
      using gap_free_create_snapshot [OF assms sp, of "lastApplied n1"] l(1) that(2) by (meson le_less_trans less_imp_le)
    with on_store_db [OF c implements_CreateSnapshot] assms show ?thesis
      unfolding c by (auto simp: n1 n2 la)
  qed
  have "gf n1" "gf n2"
    using assms n1 n2 by simp_all
  with assms r snap s t show ?thesis
    by (auto simp: compactIfNeededLocked_def not_le split: sum.splits prod.splits)
qed

lemma gf_applyCommitted:
  assumes "gf n"
  shows "gf (applyCommittedLocked n)"
proof -
  obtain b m where a: "apply_loop n = (b, m)"
    by force
  have "gf m"
    using gap_free_same_log [OF assms apply_loop_same_log [OF a gap_free_wf [OF assms]]] .
  then show ?thesis
    by (simp add: applyCommittedLocked_def a gf_compact)
qed

lemma db_advance_loop: "db (store (snd (advance_loop k i left n))) = db (store n)"
proof (induction left arbitrary: i n)
  case (Suc left)
  obtain r n1 where t: "on_store (Term i) n = (r, n1)"
    by force
  note reads_db(3) [OF t]
  with Suc show ?case
    by (auto simp: t split: sum.splits)
qed simp

lemma gf_advanceCommit:
  assumes "gf n"
  shows "gf (advanceCommitLocked n)"
proof -
  obtain r n1 where s: "on_store LastIndexAndTerm n = (r, n1)"
    by force
  note n1 = reads_db(1) [OF s]
  have "gf (snd (advance_loop k i left n1))" for k i left
    using assms n1 by (simp add: db_advance_loop)
  with assms n1 s show ?thesis
    by (auto simp: advanceCommitLocked_def Let_def gf_applyCommitted split: sum.splits prod.splits simp del: advance_loop.simps)
      (metis gf_applyCommitted snd_conv)+
qed

text \<open>
  The conflict search cuts the log at most once; a failing statement leaves it as it was.
\<close>

lemma find_conflict_db:
  assumes "find_conflict es n = (r, n')" and "consecutive p es"
  shows "db (store n') = db (store n)
    \<or> (\<exists>q t. p \<le> q \<and> ok_index (q + 1) \<and> term_pos (q + 1) (db (store n)) = Inr (t, True)
        \<and> db (store n') = delete_log_from (q + 1) (db (store n)))"
  using assms
proof (induction es arbitrary: n p)
  case (Cons e es)
  obtain x n1 where t: "on_store (Term (entryIndex e)) n = (x, n1)"
    by force
  note n1 = reads_db(3) [OF t]
  have x: "x = term_pos (entryIndex e) (db (store n)) \<or> (\<exists>e. x = Inl e)"
    using on_store_db [OF t implements_Term] by auto
  obtain y n2 where d: "on_store (DeleteFrom (entryIndex e)) n1 = (y, n2)"
    by force
  have d2: "db (store n2) \<in> {db (store n), delete_log_from (entryIndex e) (db (store n))}"
    using on_store_db [OF d implements_DeleteFrom] n1 by auto
  have e: "entryIndex e = p + 1" "ok_index (p + 1)" "p \<le> p + 1"
    using Cons.prems(2) ok_index_Suc [of p] by auto
  from Cons.prems(1) t d consider "n' = n1" | tm where "x = Inr (tm, True)" "n' = n2" | "find_conflict es n1 = (r, n')"
    by (auto split: sum.splits if_splits prod.splits)
  then show ?case
  proof cases
    case 1
    with n1 show ?thesis
      by simp
  next
    case 2
    have "term_pos (p + 1) (db (store n)) = Inr (tm, True)"
      using x 2(1) e(1) by (metis Inl_Inr_False)
    with 2(2) d2 e show ?thesis
      by auto
  next
    case 3
    from Cons.IH [OF 3, of "p + 1"] Cons.prems(2) n1 e(3) show ?thesis
      by (auto intro: order_trans)
  qed
qed simp

lemma gf_cut:
  assumes "gap_free T" and "snap_pos T = Inr (si, st)" and "si \<le> q" and "ok_index (q + 1)" and "term_pos (q + 1) T = Inr (t, True)"
  shows "gap_free (delete_log_from (q + 1) T)"
proof -
  from assms(1,2) obtain l where wf: "wf_tables T" and l: "l < 2 ^ 63" "spans (log_entry T) si l"
    by (auto elim: gap_freeE)
  have q: "q < q + 1"
    using ok_index_Suc [OF assms(4)] by simp
  then have "q + 1 \<le> l"
    using term_within [OF l(2) assms(2) _ assms(5)] assms(3) by simp
  with q have "q \<le> l" by simp
  have "spans (log_entry (delete_log_from (q + 1) T)) si q"
    by (rule sql_log.trunc_spans [OF wf l(2) assms(3) \<open>q \<le> l\<close> assms(4)])
  then show ?thesis
    by (rule gap_freeI [rotated 3]) (use wf assms l \<open>q \<le> l\<close> in auto)
qed


lemma gf_append_store:
  assumes "append_store es n = (r, n')" and "gf n" and "snap_pos (db (store n)) = Inr (si, st)" and "si \<le> p"
    and "term_pos p (db (store n)) = Inr (t, True)" and "consecutive p es"
  shows "gf n'"
proof (cases r)
  case (Inr u)
  have "si < entryIndex e" if "e \<in> set es" for e
    using consecutive_bounds [OF assms(6) that] assms(4) by (auto intro: le_less_trans)
  with append_store_reconcile [of es n n' si st] assms(1,3) Inr
  have "db (store n') = reconcile log_entry append_entries delete_log_from es (db (store n))"
    by simp
  with gap_free_reconcile [OF assms(2-6)] show ?thesis
    by simp
next
  case (Inl err)
  obtain x n1 where f: "find_conflict es n = (x, n1)"
    by force
  have "gf n1"
    using find_conflict_db [OF f assms(6)] gf_cut [OF assms(2,3)] assms(2,4) by (metis order_trans)
  moreover have "db (store n') = db (store n1)"
    using assms(1) Inl f
    by (auto simp: append_store_def split: sum.splits if_splits dest!: on_store_db [OF _ implements_AppendEntries])
  ultimately show ?thesis
    by simp
qed

lemma gf_append_error: "append_error e n = (r, n') \<Longrightarrow> gf n \<Longrightarrow> gf n'"
  by (auto simp: append_error_def)

lemma gf_append_reject: "append_reject e n = (r, n') \<Longrightarrow> gf n \<Longrightarrow> gf n'"
  by (auto simp: append_reject_def split: prod.splits dest!: reads_db(1) simp: inc_rpc_def)

lemma gf_append_commit:
  assumes "append_commit req m n = (r, n')" and "gf n"
  shows "gf n'"
proof -
  obtain x n1 where s: "on_store LastIndexAndTerm n = (x, n1)"
    by force
  then have "gf n1"
    using assms(2) by (auto dest: reads_db(1))
  moreover from this have "gf (applyCommittedLocked (n1\<lparr>commitIndex := c\<rparr>))" for c
    by (intro gf_applyCommitted) simp
  ultimately show ?thesis
    using assms(1) s by (auto simp: append_commit_def Let_def dest: gf_append_error split: sum.splits if_splits)
qed

definition wf_append :: "AppendEntriesRequest option \<Rightarrow> bool" where
  "wf_append req \<longleftrightarrow> consecutive (AppendEntriesRequest_GetPrevLogIndex req) (request_entries req)"

lemma gf_AppendEntries_rpc:
  assumes "AppendEntries_rpc req n = (r, n')" and "gf n" and "wf_append req"
  shows "gf n'"
proof (cases "AppendEntriesRequest_GetTerm req < currentTerm n")
  case True
  with assms show ?thesis
    by (auto simp: AppendEntries_rpc_def dest: gf_append_reject)
next
  case False
  let ?p = "AppendEntriesRequest_GetPrevLogIndex req"
  define n1 where "n1 = (if AppendEntriesRequest_GetTerm req > currentTerm n \<or> role n \<noteq> RoleFollower
      then stepDownLocked (AppendEntriesRequest_GetTerm req) (AppendEntriesRequest_GetLeaderId req) n else n)"
  define n2 where "n2 = resetElectionDeadlineLocked (n1\<lparr>leaderID := AppendEntriesRequest_GetLeaderId req\<rparr>)"
  have g2: "gf n2"
    using assms(2) by (simp add: n2_def n1_def gf_stepDown)
  obtain x n3 where s3: "on_store SnapshotIndexTerm n2 = (x, n3)"
    by force
  have db3: "db (store n3) = db (store n2)" and x: "x = snap_pos (db (store n2)) \<or> (\<exists>e. x = Inl e)"
    using on_store_db [OF s3 implements_SnapshotIndexTerm] by auto
  obtain y n4 where s4: "on_store (Term ?p) n3 = (y, n4)"
    by force
  have db4: "db (store n4) = db (store n2)" and y: "y = term_pos ?p (db (store n2)) \<or> (\<exists>e. y = Inl e)"
    using on_store_db [OF s4 implements_Term] db3 by auto
  have g: "gf n3" "gf n4"
    using g2 db3 db4 by simp_all
  note run = assms(1) [unfolded AppendEntries_rpc_def n1_def [symmetric] Let_def n2_def [symmetric] s3 s4]
  show ?thesis
  proof (cases "\<exists>si st t. x = Inr (si, st) \<and> si \<le> ?p \<and> y = Inr (t, True)")
    case True
    then obtain si st t where xy: "x = Inr (si, st)" "si \<le> ?p" "y = Inr (t, True)"
      by blast
    have sp: "snap_pos (db (store n4)) = Inr (si, st)" and tp: "term_pos ?p (db (store n4)) = Inr (t, True)"
      using x y xy db4 by auto
    obtain m where c: "collect_incoming si (AppendEntriesRequest_GetEntries req) ?p = (m, request_entries req)"
      using collect_incoming_consecutive [of ?p "AppendEntriesRequest_GetEntries req" si] assms(3) xy(2)
      by (auto simp: wf_append_def request_entries_def)
    obtain z n5 where a: "append_store (request_entries req) n4 = (z, n5)"
      by force
    have "gf n5"
      by (rule gf_append_store [OF a g(2) sp xy(2) tp assms(3) [unfolded wf_append_def]])
    with run False xy c a g show ?thesis
      by (auto simp: s4 not_less split: sum.splits if_splits dest: gf_append_error gf_append_reject gf_append_commit)
  next
    case no: False
    with run False g show ?thesis
      by (auto simp: s4 not_less split: sum.splits if_splits prod.splits dest: gf_append_error gf_append_reject)
  qed
qed


text \<open>Snapshots from the leader, whatever their contents.\<close>

lemma gf_InstallSnapshot_rpc:
  assumes "InstallSnapshot_rpc req n = (r, n')" and "gf n" and "InstallSnapshotRequest_GetLastIncludedIndex req < 2 ^ 63"
  shows "gf n'"
proof (cases "InstallSnapshotRequest_GetTerm req < currentTerm n")
  case True
  with assms show ?thesis
    by (auto simp: InstallSnapshot_rpc_def)
next
  case False
  let ?k = "InstallSnapshotRequest_GetLastIncludedIndex req"
  let ?snap = "\<lparr>LastIncludedIndex = ?k, LastIncludedTerm = InstallSnapshotRequest_GetLastIncludedTerm req,
      Data = InstallSnapshotRequest_GetData req\<rparr>"
  define n1 where "n1 = (if InstallSnapshotRequest_GetTerm req > currentTerm n \<or> role n \<noteq> RoleFollower
      then stepDownLocked (InstallSnapshotRequest_GetTerm req) (InstallSnapshotRequest_GetLeaderId req) n else n)"
  define n2 where "n2 = resetElectionDeadlineLocked (n1\<lparr>leaderID := InstallSnapshotRequest_GetLeaderId req\<rparr>)"
  have g2: "gf n2"
    using assms(2) by (simp add: n2_def n1_def gf_stepDown)
  obtain x n3 where s3: "on_store SnapshotIndexTerm n2 = (x, n3)"
    by force
  have db3: "db (store n3) = db (store n2)" and x: "x = snap_pos (db (store n2)) \<or> (\<exists>e. x = Inl e)"
    using on_store_db [OF s3 implements_SnapshotIndexTerm] by auto
  have g3: "gf n3"
    using g2 db3 by simp
  obtain y n4 where s4: "on_store (InstallSnapshot ?snap) n3 = (y, n4)"
    by force
  note run = assms(1) [unfolded InstallSnapshot_rpc_def n1_def [symmetric] Let_def n2_def [symmetric] s3 s4]
  have "gf n4" if "x = Inr (si, st)" "\<not> ?k \<le> si" for si st
  proof -
    have "snap_pos (db (store n3)) = Inr (si, st)"
      using x that(1) db3 by auto
    with gap_free_install_snapshot [OF g3, of si st ?snap] that(2) assms(3) g3
      on_store_db [OF s4 implements_InstallSnapshot] show ?thesis
      by (auto split: sum.splits)
  qed
  with run False g3 show ?thesis
    by (auto simp: s4 not_less split: sum.splits if_splits)
qed

text \<open>A leader's append.\<close>

lemma gap_free_last:
  assumes "gap_free T" and "snap_pos T = Inr (si, st)" and "spans (log_entry T) si l"
  shows "\<exists>t. last_pos T = Inr (l, t)"
proof -
  note wf = gap_free_wf [OF assms(1)]
  then have lo: "log_ok T"
    by (rule wf_tables_log)
  show ?thesis
  proof (cases "log_entries T = []")
    case True
    then have "log_entry T l = None"
      by (simp add: log_entry_def)
    with True assms(2) spans_iff [OF assms(3), of l] spans_le [OF assms(3)] show ?thesis
      by (simp add: last_pos_def)
  next
    case False
    define k where "k = fst (last (log_entries T))"
    have k: "0 < k" "k < 2 ^ 63"
      using lo False by (auto simp: log_ok_def k_def)
    have max: "j \<le> k" if "map_of (log_entries T) j = Some v" for j v
      using wf_table_last lo that False by (auto simp: log_ok_def k_def)
    have idx: "int64_of (uint64_of k) = k"
      using k by (intro int64_of_uint64_of) auto
    have "map_of (log_entries T) k \<noteq> None"
      using False unfolding k_def by (simp add: map_of_eq_None_iff)
    then have "log_entry T (uint64_of k) \<noteq> None"
      by (simp add: log_entry_def idx)
    then have le: "uint64_of k \<le> l" "si < uint64_of k"
      using spans_iff [OF assms(3), of "uint64_of k"] by auto
    then have "log_entry T l \<noteq> None"
      using spans_iff [OF assms(3), of l] by auto
    then have "ok_index l" "int64_of l \<le> k"
      using log_entry_ok [OF lo, of l] max by (auto simp: log_entry_def)
    moreover have "ok_index (uint64_of k)"
      using \<open>log_entry T (uint64_of k) \<noteq> None\<close> log_entry_ok [OF lo] by auto
    ultimately have "l \<le> uint64_of k"
      using int64_of_le_iff [of l "uint64_of k"] idx by (simp add: ok_index_def)
    with le(1) False show ?thesis
      by (simp add: last_pos_def k_def)
  qed
qed

lemma gap_free_append:
  assumes "gap_free T" and "last_pos T = Inr (i, x)" and "ok_index (i + 1)" and "entryIndex e = i + 1"
  shows "gap_free (append_entries [e] T)"
proof -
  from assms(1) obtain si st l where T: "wf_tables T" "snap_pos T = Inr (si, st)" "spans (log_entry T) si l"
    by (elim gap_freeE)
  then have l: "l = i"
    using gap_free_last [OF assms(1)] assms(2) by auto
  have c: "consecutive l [e]"
    using assms(3,4) l by simp
  show ?thesis
  proof (rule gap_freeI)
    show "wf_tables (append_entries [e] T)"
      by (rule wf_append_entries) (use T assms in auto)
    show "spans (log_entry (append_entries [e] T)) si (i + 1)"
      using sql_log.app_spans [OF c T(3)] assms(4) by (simp add: last_index_def)
    show "snap_pos (append_entries [e] T) = Inr (si, st)"
      using T(2) by simp
    show "i + 1 < 2 ^ 63"
      using assms(3) by (simp add: ok_index_def)
  qed
qed

lemma gf_Write_begin:
  assumes "Write_begin req n = (w, n')" and "gf n" and "\<And>i t. last_pos (db (store n)) = Inr (i, t) \<Longrightarrow> ok_index (i + 1)"
  shows "gf n'"
proof -
  obtain x n1 where s: "on_store LastIndexAndTerm n = (x, n1)"
    by force
  have db1: "db (store n1) = db (store n)" and x: "x = last_pos (db (store n)) \<or> (\<exists>e. x = Inl e)"
    using on_store_db [OF s implements_LastIndexAndTerm] by auto
  have g1: "gf n1"
    using assms(2) db1 by simp
  have app: "gf n2" if "x = Inr (i, t)" "entryIndex e = i + 1" "on_store (AppendEntries [e]) n1 = (y, n2)" for i t e y n2
  proof -
    have lp: "last_pos (db (store n)) = Inr (i, t)"
      using x that(1) by auto
    from gap_free_append [OF assms(2) lp assms(3) [OF lp] that(2)]
      on_store_db [OF that(3) implements_AppendEntries] g1 db1 show ?thesis
      by auto
  qed
  have adv: "gf (advanceCommitLocked (n2\<lparr>matchIndex := f\<rparr>))" if "gf n2" for n2 f
    using that by (intro gf_advanceCommit) simp
  from assms(1,2) g1 s show ?thesis
    by (auto simp: Write_begin_def Let_def split: sum.splits prod.splits if_splits dest!: app intro: adv)
qed


lemma db_becomeLeader [simp]: "db (store (becomeLeaderLocked n)) = db (store n)"
proof -
  obtain r m where "on_store LastIndexAndTerm n = (r, m)"
    by force
  with reads_db(1) [OF this] show ?thesis
    by (auto simp: becomeLeaderLocked_def Let_def refresh_store split: sum.splits)
qed

lemma gf_SaveTermVote: "on_store (SaveTermVote t v) n = (r, n') \<Longrightarrow> gf n \<Longrightarrow> gf n'"
  using on_store_db [OF _ implements_SaveTermVote, of t v n r n'] gap_free_save_term_vote [of "db (store n)"] by auto

lemma gf_RequestVote:
  assumes "RequestVote req n = (r, n')" and "gf n"
  shows "gf n'"
proof -
  define n1 where "n1 = (if RequestVoteRequest_GetTerm req > currentTerm n
      then stepDownLocked (RequestVoteRequest_GetTerm req) [] n else n)"
  have "gf n1"
    using assms(2) by (simp add: n1_def gf_stepDown)
  moreover obtain x n2 where s: "on_store LastIndexAndTerm n1 = (x, n2)"
    by force
  ultimately have g2: "gf n2"
    by (auto dest: reads_db(1))
  have save: "gf m'" if "on_store (SaveTermVote t v) (n2\<lparr>votedFor := c\<rparr>) = (y, m')" for t v c y m'
    using gf_SaveTermVote [OF that] g2 by simp
  note run = assms(1) [unfolded RequestVote_def n1_def [symmetric] Let_def s]
  from run assms(2) g2 show ?thesis
    by (auto split: sum.splits prod.splits if_splits dest: save)
qed

lemma gf_begin:
  assumes "startElection_begin n = (e, n')" and "gf n"
  shows "gf n'"
proof -
  let ?n1 = "n\<lparr>role := RoleCandidate, currentTerm := currentTerm n + 1, votedFor := nid n, leaderID := []\<rparr>"
  obtain x n2 where s: "on_store (SaveTermVote (currentTerm n + 1) (nid n)) ?n1 = (x, n2)"
    by force
  then have "gf n2"
    using assms(2) by (auto dest: gf_SaveTermVote)
  moreover obtain y n3 where t: "on_store LastIndexAndTerm n2 = (y, n3)"
    by force
  ultimately have "gf n3"
    by (auto dest: reads_db(1))
  with \<open>gf n2\<close> assms s t show ?thesis
    by (auto simp: startElection_begin_def Let_def refresh_store split: sum.splits if_splits)
qed

lemma gf_prepare: "replicatePeer_prepare p n = (a, n') \<Longrightarrow> gf n \<Longrightarrow> gf n'"
  by (auto simp: replicatePeer_prepare_def Let_def split: prod.splits sum.splits if_splits dest!: reads_db)

lemma gf_append_reply:
  assumes "replicatePeer_append_reply p t sent resp n = (b, n')" and "gf n"
  shows "gf n'"
proof -
  have "gf (advanceCommitLocked m)" if "db (store m) = db (store n)" for m
    using that assms(2) by (intro gf_advanceCommit) simp
  with assms show ?thesis
    by (auto simp: replicatePeer_append_reply_def Let_def gf_stepDown split: if_splits prod.splits sum.splits dest!: reads_db(1))
qed

lemma gf_snapshot_reply: "replicatePeer_snapshot_reply p snap resp n = (b, n') \<Longrightarrow> gf n \<Longrightarrow> gf n'"
  by (auto simp: replicatePeer_snapshot_reply_def Let_def gf_stepDown gf_advanceCommit split: if_splits)

text \<open>
  Everything a node does, with requests as a leader of this implementation sends them
  (\<open>wf_append\<close>), and with indices that fit the signed columns of the database.
\<close>

inductive node_step :: "Node \<Rightarrow> Node \<Rightarrow> bool" where
  on_vote: "RequestVote vreq n = (r, n') \<Longrightarrow> node_step n n'"
| on_append: "AppendEntries_rpc areq n = (r, n') \<Longrightarrow> wf_append areq \<Longrightarrow> node_step n n'"
| on_snapshot: "InstallSnapshot_rpc sreq n = (r, n') \<Longrightarrow> InstallSnapshotRequest_GetLastIncludedIndex sreq < 2 ^ 63 \<Longrightarrow> node_step n n'"
| timeout: "startElection_begin n = (e, n') \<Longrightarrow> node_step n n'"
| vote_reply: "startElection_reply vresp e n = (e', n') \<Longrightarrow> node_step n n'"
| single_node: "node_step n (startElection_single e n)"
| replicate_prepare: "replicatePeer_prepare p n = (a, n') \<Longrightarrow> node_step n n'"
| replicate_append: "replicatePeer_append_reply p t sent aresp n = (b, n') \<Longrightarrow> node_step n n'"
| replicate_snapshot: "replicatePeer_snapshot_reply p snap sresp n = (b, n') \<Longrightarrow> node_step n n'"
| client_write: "Write_begin wreq n = (w, n') \<Longrightarrow> (\<And>i t. last_pos (db (store n)) = Inr (i, t) \<Longrightarrow> ok_index (i + 1)) \<Longrightarrow> node_step n n'"
| client_read: "Read_finish rreq k n = (r, n') \<Longrightarrow> node_step n n'"
| client_status: "Status n = (r, n') \<Longrightarrow> node_step n n'"
| dial: "node_step n (Start_dial n)"
| tick: "node_step n (snd (run_tick h n))"
| environment: "node_step n (n\<lparr>store := (store n)\<lparr>faults := fs\<rparr>, clock := cs, rands := rs\<rparr>)"

lemma node_step_gap_free:
  assumes "node_step n n'" and "gf n"
  shows "gf n'"
  using assms
proof (induction rule: node_step.induct)
  case (vote_reply vresp e n e' n')
  then show ?case
    by (auto simp: startElection_reply_def Let_def gf_stepDown split: if_splits)
next
  case (single_node n e)
  then show ?case
    by (simp add: startElection_single_def)
next
  case (client_read rreq k n r n')
  then show ?case
    by (auto simp: Read_finish_def split: if_splits prod.splits sum.splits dest!: reads_db(6))
next
  case (client_status n r n')
  then show ?case
    by (auto simp: Status_def split: prod.splits sum.splits dest!: reads_db(1))
next
  case (dial n)
  then show ?case
    by (simp add: Start_dial_def)
next
  case (tick n h)
  then show ?case
    by (auto simp: run_tick_def Let_def time_Now_def split: list.splits prod.splits if_splits)
next
  case (on_vote vreq n r n')
  then show ?case
    using gf_RequestVote by blast
next
  case (on_append areq n r n')
  then show ?case
    using gf_AppendEntries_rpc by blast
next
  case (on_snapshot sreq n r n')
  then show ?case
    using gf_InstallSnapshot_rpc by blast
next
  case (timeout n e n')
  then show ?case
    using gf_begin by blast
next
  case (replicate_prepare p n a n')
  then show ?case
    using gf_prepare by blast
next
  case (replicate_append p t sent aresp n b n')
  then show ?case
    using gf_append_reply by blast
next
  case (replicate_snapshot p snap sresp n b n')
  then show ?case
    using gf_snapshot_reply by blast
next
  case (client_write wreq n w n')
  then show ?case
    using gf_Write_begin by blast
next
  case (environment n fs cs rs)
  then show ?case
    by simp
qed

text \<open>
  C15: in every run of a node, whatever the faults of its database and the order of its
  handlers, ticks, elections and replication rounds, the log has no gap: the indices it holds
  are exactly those after the snapshot and up to a last one.
\<close>

theorem log_stays_gap_free:
  assumes "node_step\<^sup>*\<^sup>* n n'" and "gap_free (db (store n))"
  shows "gap_free (db (store n'))"
  using assms by (induction rule: rtranclp_induct) (auto intro: node_step_gap_free)


section \<open>The requests of a leader\<close>

text \<open>A sorted list of entries whose indices are those after \<open>p\<close> and up to \<open>l\<close>.\<close>

lemma consecutiveI:
  assumes "sorted_wrt (<) (map entryIndex es)" and "entryIndex ` set es = {i. p < i \<and> i \<le> l}" and "l < 2 ^ 63"
  shows "consecutive p es"
  using assms(1,2)
proof (induction es arbitrary: p)
  case (Cons e es)
  have e: "p < entryIndex e" "entryIndex e \<le> l"
    using Cons.prems(2) by auto
  have p: "p < p + 1" "p + 1 \<le> l"
    using e u64_less_Suc [of p "entryIndex e"] u64_Suc_le [of p "entryIndex e"] by (auto intro: order_trans)
  then have "p + 1 \<in> entryIndex ` set (e # es)"
    unfolding Cons.prems(2) by simp
  then have "entryIndex e \<le> p + 1"
    using Cons.prems(1) by (auto intro: less_imp_le)
  moreover have "p + 1 \<le> entryIndex e"
    using e(1) by (rule u64_Suc_le)
  ultimately have pe: "entryIndex e = p + 1"
    by simp
  have "entryIndex ` set es = {i. p + 1 < i \<and> i \<le> l}"
  proof -
    have "p + 1 \<notin> entryIndex ` set es"
      using Cons.prems(1) pe by auto
    moreover have "insert (p + 1) (entryIndex ` set es) = {i. p < i \<and> i \<le> l}"
      using Cons.prems(2) pe by auto
    ultimately have "entryIndex ` set es = {i. p < i \<and> i \<le> l} - {p + 1}"
      by blast
    moreover have "p < i \<and> i \<noteq> p + 1 \<longleftrightarrow> p + 1 < i" for i
      using p(1) u64_Suc_le [of p i] by auto
    ultimately show ?thesis
      by blast
  qed
  moreover have "ok_index (p + 1)"
    using p assms(3) by (auto simp: ok_index_def intro: le_less_trans)
  ultimately show ?case
    using Cons.IH [of "p + 1"] Cons.prems(1) pe by simp
qed simp

definition entry_at :: "tables \<Rightarrow> Entry \<Rightarrow> bool" where
  "entry_at T e \<longleftrightarrow> log_entry T (entryIndex e) = Some (entryTerm e, entryCommand e)"

lemma rows_consecutive:
  assumes "gap_free T" and "snap_pos T = Inr (si, st)" and "si \<le> p" and "ok_index (p + 1)"
    and "es = map row_entry (filter (\<lambda>r. int64_of (p + 1) \<le> fst r) (log_entries T))"
  shows "consecutive p es" and "\<forall>e \<in> set es. entry_at T e"
proof -
  from assms(1,2) obtain l where wf: "wf_tables T" and l: "l < 2 ^ 63" "spans (log_entry T) si l"
    by (auto elim: gap_freeE)
  have lo: "log_ok T"
    using wf by (rule wf_tables_log)
  have key: "0 < fst r" "int64_of (uint64_of (fst r)) = fst r" "ok_index (uint64_of (fst r))"
      "log_entry T (uint64_of (fst r)) = Some (uint64_of (fst (snd r)), snd (snd r))" if "r \<in> set (log_entries T)" for r
  proof -
    show k: "0 < fst r"
      using lo that by (auto simp: log_ok_def)
    have "fst r < 2 ^ 63"
      using lo that by (auto simp: log_ok_def)
    with k show i: "int64_of (uint64_of (fst r)) = fst r"
      by (intro int64_of_uint64_of) auto
    have "map_of (log_entries T) (fst r) = Some (snd r)"
      using lo that by (simp add: log_ok_def wf_table_distinct)
    then show e: "log_entry T (uint64_of (fst r)) = Some (uint64_of (fst (snd r)), snd (snd r))"
      by (simp add: log_entry_def i split: prod.splits)
    then show "ok_index (uint64_of (fst r))"
      by (rule log_entry_ok [OF lo])
  qed
  show "\<forall>e \<in> set es. entry_at T e"
    using key(4) by (auto simp: assms(5) entry_at_def row_entry_def)
  have less: "uint64_of (fst r) < uint64_of (fst r')" if "r \<in> set (log_entries T)" "r' \<in> set (log_entries T)" "fst r < fst r'" for r r'
    using key [OF that(1)] key [OF that(2)] int64_of_less_iff [of "uint64_of (fst r)" "uint64_of (fst r')"] that(3)
    by (simp add: ok_index_def)
  have "sorted_wrt (\<lambda>r r'. fst r < fst r') (log_entries T)"
    using lo by (simp add: log_ok_def wf_table_def sorted_wrt_map)
  then have sorted: "sorted_wrt (<) (map entryIndex es)"
    unfolding assms(5) map_map sorted_wrt_map
    by (rule sorted_wrt_mono_rel [rotated, OF sorted_wrt_filter]) (auto simp: row_entry_def intro: less)
  have start: "int64_of (p + 1) \<le> fst r \<longleftrightarrow> p < uint64_of (fst r)" if "r \<in> set (log_entries T)" for r
  proof -
    have "int64_of (p + 1) \<le> fst r \<longleftrightarrow> p + 1 \<le> uint64_of (fst r)"
      using key [OF that] int64_of_le_iff [of "p + 1" "uint64_of (fst r)"] assms(4) by (simp add: ok_index_def)
    also have "\<dots> \<longleftrightarrow> p < uint64_of (fst r)"
      using ok_index_Suc [OF assms(4)] u64_Suc_le [of p "uint64_of (fst r)"] by auto
    finally show ?thesis .
  qed
  have "entryIndex ` set es = {i. p < i \<and> i \<le> l}"
  proof (intro set_eqI iffI)
    fix i
    assume "i \<in> entryIndex ` set es"
    then obtain r where r: "r \<in> set (log_entries T)" "int64_of (p + 1) \<le> fst r" "i = uint64_of (fst r)"
      by (auto simp: assms(5) row_entry_def)
    with key [OF r(1)] start [OF r(1)] spans_iff [OF l(2), of i] show "i \<in> {i. p < i \<and> i \<le> l}"
      by auto
  next
    fix i
    assume "i \<in> {i. p < i \<and> i \<le> l}"
    then have i: "p < i" "i \<le> l"
      by auto
    then have "log_entry T i \<noteq> None"
      using spans_iff [OF l(2), of i] assms(3) by (auto intro: le_less_trans)
    then obtain v where "(int64_of i, v) \<in> set (log_entries T)"
      by (auto simp: log_entry_def dest!: map_of_SomeD)
    with i(1) start [OF this] show "i \<in> entryIndex ` set es"
      by (force simp: assms(5) row_entry_def)
  qed
  with sorted l(1) show "consecutive p es"
    by (intro consecutiveI)
qed


lemma request_entries_messages [simp]:
  "request_entries (Some \<lparr>aeTerm = t, aeLeaderId = i, aePrevLogIndex = p, aePrevLogTerm = u, aeEntries = map entry_message es, aeLeaderCommit = c\<rparr>) = es"
  by (simp add: request_entries_def message_entry_def entry_message_def AppendEntriesRequest_GetEntries_def
      LogEntry_GetIndex_def LogEntry_GetTerm_def LogEntry_GetCommand_def map_idI)

lemma u64_le_pred:
  fixes i j :: u64
  assumes "i < j"
  shows "i \<le> j - 1"
proof -
  have "unat (1 :: u64) \<le> unat j"
    using assms by (simp add: word_less_nat_alt)
  then have "unat (j - 1) = unat j - 1"
    by (subst unat_sub) (simp_all add: word_le_nat_alt)
  with assms show ?thesis
    by (simp add: word_le_nat_alt word_less_nat_alt)
qed

text \<open>The first critical section of \<open>replicatePeer\<close>, when it decides to send entries.\<close>

lemma prepare_sends:
  assumes "replicatePeer_prepare peer n = (SendAppend sent req, n')" and "gf n"
  obtains si st where "role n = RoleLeader" and "snap_pos (db (store n)) = Inr (si, st)" and "si \<le> aePrevLogIndex req"
    and "aePrevLogIndex req + 1 = (if nextIndex n peer = 0 then 1 else nextIndex n peer)"
    and "term_pos (aePrevLogIndex req) (db (store n)) = Inr (aePrevLogTerm req, True)"
    and "aeTerm req = currentTerm n" and "aeLeaderCommit req = commitIndex n"
    and "entries_from (aePrevLogIndex req + 1) appendBatchSize (db (store n)) = Inr (request_entries (Some req))"
    and "sent = last_index (aePrevLogIndex req) (request_entries (Some req))"
proof -
  define nx where "nx = (if nextIndex n peer = 0 then 1 else nextIndex n peer)"
  have lead: "role n = RoleLeader"
    using assms(1) by (auto simp: replicatePeer_prepare_def split: if_splits)
  let ?n1 = "n\<lparr>nextIndex := (nextIndex n)(peer := nx)\<rparr>"
  obtain x n2 where s2: "on_store SnapshotIndexTerm ?n1 = (x, n2)"
    by force
  obtain y n3 where s3: "on_store (Term (nx - 1)) n2 = (y, n3)"
    by force
  obtain z n4 where s4: "on_store (EntriesFrom nx appendBatchSize) n3 = (z, n4)"
    by force
  note run = assms(1) [unfolded replicatePeer_prepare_def nx_def [symmetric] Let_def s2 s3 s4]
  from run lead obtain si st where x: "x = Inr (si, st)"
    by (cases x) auto
  from s2 x have sp: "snap_pos (db (store n)) = Inr (si, st)" and db2: "db (store n2) = db (store n)"
    by (auto elim!: on_storeE dest!: SnapshotIndexTerm.on_success)
  have lt: "si < nx"
    using run lead x by (auto split: if_splits sum.splits prod.splits)
  then have prev: "si \<le> nx - 1" "nx - 1 + 1 = nx"
    using u64_le_pred by auto
  have nle: "\<not> nx \<le> si"
    using lt by simp
  from run lead x nle obtain t ok where y: "y = Inr (t, ok)"
    by (cases y) (auto simp: s3)
  from s3 y have tp: "term_pos (nx - 1) (db (store n)) = Inr (t, ok)" and db3: "db (store n3) = db (store n)"
    using db2 by (auto elim!: on_storeE dest!: Term.on_success)
  have "ok" if "nx - 1 \<le> si"
    using prev that tp sp by (auto simp: term_pos_def split: if_splits)
  with run lead x nle y have ok: "ok"
    by (auto simp: s3 split: if_splits)
  from run lead x nle y ok obtain es where z: "z = Inr es"
    by (cases z) (auto simp: s3 s4)
  from s4 z have es: "entries_from nx appendBatchSize (db (store n)) = Inr es"
    using db3 by (auto elim!: on_storeE dest!: EntriesFrom.on_success)
  from run lead x nle y ok z have "sent = last_index (nx - 1) es"
    and req: "req = \<lparr>aeTerm = currentTerm n, aeLeaderId = nid n, aePrevLogIndex = nx - 1, aePrevLogTerm = t,
        aeEntries = map entry_message es, aeLeaderCommit = commitIndex n\<rparr>"
    by (auto simp: s3 s4 last_index_def)
  with lead sp prev tp ok es show ?thesis
    by (intro that [of si st]) (auto simp: nx_def)
qed


text \<open>The log can take another entry.\<close>

definition room :: "tables \<Rightarrow> bool" where
  "room T \<longleftrightarrow> (\<forall>i t. last_pos T = Inr (i, t) \<longrightarrow> ok_index (i + 1))"

lemma prepare_entries:
  assumes "replicatePeer_prepare peer n = (SendAppend sent req, n')" and "gf n" and "room (db (store n))"
  shows "wf_append (Some req)" and "\<forall>e \<in> set (request_entries (Some req)). entry_at (db (store n)) e"
    and "length (aeEntries req) \<le> 128" and "aePrevLogIndex req \<le> sent"
    and "\<And>i. i \<in> entryIndex ` set (request_entries (Some req)) \<longleftrightarrow> aePrevLogIndex req < i \<and> i \<le> sent"
proof -
  let ?T = "db (store n)" and ?p = "aePrevLogIndex req" and ?es = "request_entries (Some req)"
  obtain si st where sp: "snap_pos ?T = Inr (si, st)" "si \<le> ?p"
    and tp: "term_pos ?p ?T = Inr (aePrevLogTerm req, True)"
    and es: "entries_from (?p + 1) appendBatchSize ?T = Inr ?es"
    and sent: "sent = last_index ?p ?es"
    by (rule prepare_sends [OF assms(1,2)])
  from assms(2) sp(1) obtain l where l: "l < 2 ^ 63" "spans (log_entry ?T) si l"
    by (auto elim: gap_freeE)
  have "?p \<le> l"
    using term_within [OF l(2) sp(1) _ tp] sp(2) spans_le [OF l(2)] by (cases "si = ?p") auto
  moreover have "ok_index (l + 1)"
    using gap_free_last [OF assms(2) sp(1) l(2)] assms(3) by (auto simp: room_def)
  ultimately have ok: "ok_index (?p + 1)"
  proof -
    assume p: "?p \<le> l" and l1: "ok_index (l + 1)"
    have "?p + 1 \<le> l + 1"
      using p ok_index_Suc [OF l1] u64_Suc_le [of ?p "l + 1"] by simp
    moreover have "?p < ?p + 1"
      using p ok_index_Suc [OF l1] u64_less_Suc [of ?p "l + 1"] by simp
    ultimately show ?thesis
      using l1 le_less_trans [OF word_zero_le [of ?p]] by (auto simp: ok_index_def)
  qed
  define rows where "rows = map row_entry (filter (\<lambda>r. int64_of (?p + 1) \<le> fst r) (log_entries ?T))"
  have "\<not> ?p + 1 \<le> si"
    using sp(2) ok_index_Suc [OF ok] by simp
  then have take: "?es = take 128 rows"
    using es sp(1) by (simp add: entries_from_def appendBatchSize_def limit_rows_def rows_def take_map)
  note rows = rows_consecutive [OF assms(2) sp ok rows_def]
  show wf: "wf_append (Some req)"
    using consecutive_take [OF rows(1)] take by (simp add: wf_append_def AppendEntriesRequest_GetPrevLogIndex_def)
  show "\<forall>e \<in> set ?es. entry_at ?T e"
    using rows(2) take by (auto dest: in_set_takeD)
  have "length (aeEntries req) = length ?es"
    by (simp add: request_entries_def AppendEntriesRequest_GetEntries_def)
  then show "length (aeEntries req) \<le> 128"
    using take by simp
  have c: "consecutive ?p ?es"
    using wf by (simp add: wf_append_def AppendEntriesRequest_GetPrevLogIndex_def)
  show "?p \<le> sent" "i \<in> entryIndex ` set ?es \<longleftrightarrow> ?p < i \<and> i \<le> sent" for i
    using consecutive_range [OF c, of i] sent by auto
qed

text \<open>
  C17: what a leader sends. When the first critical section of \<open>replicatePeer\<close> decides on an
  AppendEntries request, the request carries the leader's term, the term of the entry before
  its first one, and at most \<open>appendBatchSize\<close> consecutive entries as they are in the leader's
  log; \<open>lastSent\<close> is the index of the last of them.
\<close>

theorem replicatePeer_request:
  assumes "replicatePeer_prepare peer n = (SendAppend sent req, n')" and "gap_free (db (store n))" and "room (db (store n))"
  shows "role n = RoleLeader \<and> aeTerm req = currentTerm n \<and> aeLeaderCommit req = commitIndex n
    \<and> term_pos (aePrevLogIndex req) (db (store n)) = Inr (aePrevLogTerm req, True)
    \<and> consecutive (aePrevLogIndex req) (request_entries (Some req)) \<and> length (aeEntries req) \<le> 128
    \<and> (\<forall>e \<in> set (request_entries (Some req)). entry_at (db (store n)) e)
    \<and> sent = last_index (aePrevLogIndex req) (request_entries (Some req))"
proof -
  from prepare_entries [OF assms] prepare_sends [OF assms(1,2)] show ?thesis
    by (simp add: wf_append_def AppendEntriesRequest_GetPrevLogIndex_def) metis
qed



section \<open>Examples\<close>

lemma gap_free_fresh: "gap_free (db fresh_store)"
proof (rule gap_freeI [OF wf_fresh snap_pos_fresh])
  show "spans (log_entry (db fresh_store)) 0 0"
    by (auto simp: spans_def log_entry_def fresh_store_def empty_tables_def)
qed simp

theorem log_stays_gap_free_witness:
  "\<exists>r n'. AppendEntries_rpc (Some first_request) (fresh_node ''n1'' three_peers) = (r, n') \<and> gap_free (db (store n'))"
proof -
  obtain r n' where "AppendEntries_rpc (Some first_request) (fresh_node ''n1'' three_peers) = (r, n')"
    by force
  moreover have "wf_append (Some first_request)"
    unfolding wf_append_def first_request_entries(4) by (rule first_request_entries)
  ultimately have "node_step\<^sup>*\<^sup>* (fresh_node ''n1'' three_peers) n'"
    by (blast intro: node_step.on_append)
  moreover note \<open>AppendEntries_rpc (Some first_request) (fresh_node ''n1'' three_peers) = (r, n')\<close>
  ultimately show ?thesis
    using log_stays_gap_free gap_free_fresh by (metis fresh_node_db)
qed

lemma one_entry_log:
  "\<exists>s. healthy s \<and> gap_free (db s) \<and> snap_pos (db s) = Inr (0, 0) \<and> last_pos (db s) = Inr (1, 1) \<and> log_entry (db s) 1 = Some (1, ''x'')"
proof -
  let ?e = "\<lparr>entryIndex = 1, entryTerm = 1, entryCommand = ''x''\<rparr>"
  obtain s where "healthy s" and T: "db s = append_entries [?e] (db fresh_store)"
    using AppendEntries.when_healthy [OF healthy_fresh, of "[?e]"] by auto
  have lp: "last_pos (db fresh_store) = Inr (0, 0)"
    using snap_pos_fresh by (simp add: last_pos_def fresh_store_def empty_tables_def)
  note * = append_end [OF wf_fresh lp, of 0 0 ?e 1 "''x''"]
  have "gap_free (db s)"
    unfolding T by (rule gap_free_append [OF gap_free_fresh lp]) (simp_all add: ok_index_1)
  with * \<open>healthy s\<close> T show ?thesis
    by (intro exI [of _ s]) (simp add: ok_index_1 snap_pos_fresh)
qed

lemma prepare_ok:
  assumes "node_ok n" and "role n = RoleLeader" and "snap_pos (db (store n)) = Inr (si, st)" and "si < nextIndex n peer"
    and "term_pos (nextIndex n peer - 1) (db (store n)) = Inr (t, True)"
  shows "\<exists>sent req n'. replicatePeer_prepare peer n = (SendAppend sent req, n') \<and> aePrevLogIndex req = nextIndex n peer - 1"
proof -
  let ?nx = "nextIndex n peer"
  let ?n1 = "n\<lparr>nextIndex := (nextIndex n)(peer := ?nx)\<rparr>"
  obtain s2 where s2: "on_store SnapshotIndexTerm ?n1 = (Inr (si, st), ?n1\<lparr>store := s2\<rparr>)" "db s2 = db (store n)" "healthy s2"
    using on_store_read [OF implements_SnapshotIndexTerm, of ?n1] assms(1,3) by auto
  obtain s3 where s3: "on_store (Term (?nx - 1)) (?n1\<lparr>store := s2\<rparr>) = (Inr (t, True), ?n1\<lparr>store := s3\<rparr>)"
    "db s3 = db (store n)" "healthy s3"
    using on_store_ok [OF implements_Term, of "?n1\<lparr>store := s2\<rparr>" "?nx - 1"] s2 assms(5) by auto
  obtain es where es: "entries_from ?nx appendBatchSize (db (store n)) = Inr es"
    using assms(3) by (simp add: entries_from_def)
  obtain s4 where s4: "on_store (EntriesFrom ?nx appendBatchSize) (?n1\<lparr>store := s3\<rparr>) = (Inr es, ?n1\<lparr>store := s4\<rparr>)"
    using on_store_ok [OF implements_EntriesFrom, of "?n1\<lparr>store := s3\<rparr>" ?nx appendBatchSize] s3 es by auto
  have "?nx \<noteq> 0" "\<not> ?nx \<le> si"
    using assms(4) by auto
  with assms(2) s2(1) s3(1) s4 show ?thesis
    by (auto simp: replicatePeer_prepare_def Let_def)
qed

definition first_leader :: "Store \<Rightarrow> Node" where
  "first_leader s = (fresh_node ''n1'' three_peers)\<lparr>store := s, role := RoleLeader, currentTerm := 1, nextIndex := \<lambda>_. 1\<rparr>"

lemma first_leader_sends:
  assumes "healthy s" and "gap_free (db s)" and "snap_pos (db s) = Inr (0, 0)"
  shows "\<exists>sent req l'. replicatePeer_prepare ''n2'' (first_leader s) = (SendAppend sent req, l') \<and> aePrevLogIndex req = 0"
  using prepare_ok [of "first_leader s" 0 0 "''n2''" 0] assms gap_free_wf [OF assms(2)]
  by (simp add: first_leader_def node_ok_def term_pos_def)

theorem replicatePeer_request_witness:
  "\<exists>s sent req l'. replicatePeer_prepare ''n2'' (first_leader s) = (SendAppend sent req, l')
     \<and> consecutive (aePrevLogIndex req) (request_entries (Some req)) \<and> aeTerm req = 1"
proof -
  obtain s where s: "healthy s" "gap_free (db s)" "snap_pos (db s) = Inr (0, 0)" "last_pos (db s) = Inr (1, 1)"
    using one_entry_log by blast
  obtain sent req l' where p: "replicatePeer_prepare ''n2'' (first_leader s) = (SendAppend sent req, l')"
    using first_leader_sends [OF s(1-3)] by blast
  have "room (db s)"
    using s(4) by (simp add: room_def ok_index_def)
  with replicatePeer_request [OF p] s p show ?thesis
    by (auto simp: first_leader_def)
qed


end
