(* ===== verification/Catch_Up.thy ===== *)
theory Catch_Up
  imports Replication
begin

text \<open>
  The loop of \<open>replicatePeer\<close>: with a working database and a follower that answers, the probing
  for the point where the logs agree ends in success before the attempts run out.
\<close>

section \<open>One attempt\<close>

text \<open>A leader without a snapshot, in good health.\<close>

definition leading :: "u64 \<Rightarrow> Node \<Rightarrow> bool" where
  "leading t n \<longleftrightarrow> node_ok n \<and> role n = RoleLeader \<and> currentTerm n = t \<and> (\<exists>st. snap_pos (db (store n)) = Inr (0, st))"

definition next_of :: "bytes \<Rightarrow> Node \<Rightarrow> u64" where
  "next_of peer n = (if nextIndex n peer = 0 then 1 else nextIndex n peer)"

lemma next_of_pos: "0 < next_of peer n"
  by (simp add: next_of_def word_greater_zero_iff)

lemma leading_next [simp]: "leading t (n\<lparr>nextIndex := f\<rparr>) = leading t n"
  by (simp add: leading_def)

lemma leading_store: "leading t n \<Longrightarrow> db s = db (store n) \<Longrightarrow> healthy s \<Longrightarrow> leading t (n\<lparr>store := s\<rparr>)"
  by (simp add: leading_def node_ok_def)

lemma prepare_leading:
  assumes "leading t n" and "nx = next_of peer n"
  shows "(\<exists>s. replicatePeer_prepare peer n = (Retry, n\<lparr>store := s, nextIndex := (nextIndex n)(peer := nx - 1)\<rparr>)
          \<and> 1 < nx \<and> db s = db (store n) \<and> healthy s)
    \<or> (\<exists>sent req s. replicatePeer_prepare peer n = (SendAppend sent req, n\<lparr>nextIndex := (nextIndex n)(peer := nx), store := s\<rparr>)
          \<and> aeTerm req = t \<and> aePrevLogIndex req = nx - 1
          \<and> term_pos (nx - 1) (db (store n)) = Inr (aePrevLogTerm req, True) \<and> db s = db (store n) \<and> healthy s)"
proof -
  from assms(1) obtain st where sp: "snap_pos (db (store n)) = Inr (0, st)" and h: "node_ok n" "role n = RoleLeader" "currentTerm n = t"
    by (auto simp: leading_def)
  let ?n1 = "n\<lparr>nextIndex := (nextIndex n)(peer := nx)\<rparr>"
  have nx: "\<not> nx \<le> 0" "0 < nx"
    using next_of_pos [of peer n] assms(2) by auto
  obtain s2 where s2: "on_store SnapshotIndexTerm ?n1 = (Inr (0, st), ?n1\<lparr>store := s2\<rparr>)" "db s2 = db (store n)" "healthy s2"
    using on_store_read [OF implements_SnapshotIndexTerm, of ?n1] h sp by auto
  obtain tm ok where tp: "term_pos (nx - 1) (db (store n)) = Inr (tm, ok)"
    using term_pos_ok [OF sp] by blast
  obtain s3 where s3: "on_store (Term (nx - 1)) (?n1\<lparr>store := s2\<rparr>) = (Inr (tm, ok), ?n1\<lparr>store := s3\<rparr>)"
    "db s3 = db (store n)" "healthy s3"
    using on_store_ok [OF implements_Term, of "?n1\<lparr>store := s2\<rparr>" "nx - 1"] s2 tp by auto
  obtain es where es: "entries_from nx appendBatchSize (db (store n)) = Inr es"
    using sp by (simp add: entries_from_def)
  obtain s4 where s4: "on_store (EntriesFrom nx appendBatchSize) (?n1\<lparr>store := s3\<rparr>) = (Inr es, ?n1\<lparr>store := s4\<rparr>)"
    "db s4 = db (store n)" "healthy s4"
    using on_store_ok [OF implements_EntriesFrom, of "?n1\<lparr>store := s3\<rparr>" nx appendBatchSize] s3 es by auto
  note run = replicatePeer_prepare_def [of peer n, folded next_of_def, folded assms(2), unfolded Let_def s2(1)]
  show ?thesis
  proof (cases ok)
    case True
    then show ?thesis
      using run h(2,3) nx s3(1) s4 tp by auto
  next
    case False
    then have "nx - 1 \<noteq> 0"
      using tp by (auto simp: term_pos_def)
    then have "nx \<noteq> 1"
      by auto
    with \<open>nx - 1 \<noteq> 0\<close> have gt: "\<not> nx - 1 \<le> 0" "1 < nx"
      using nx(2) by (auto simp: word_less_nat_alt word_unat_eq_iff [of nx 1])
    have "1 \<le> nx - 1"
      using gt(2) by (intro u64_le_pred)
    then have "maxUint64 1 (nx - 1) = nx - 1"
      by (auto simp: maxUint64_def)
    with False show ?thesis
      using run h(2) nx gt s3 by auto
  qed
qed

section \<open>All attempts\<close>

text \<open>
  An environment in which the context does not expire, no other goroutine interferes and the
  peer answers every AppendEntries request, with a term not above the leader's and with success
  exactly where \<open>agrees\<close> holds of the previous index and term.
\<close>

definition answering :: "(u64 \<Rightarrow> u64 \<Rightarrow> bool) \<Rightarrow> RpcEnv \<Rightarrow> bool" where
  "answering agrees w \<longleftrightarrow> (\<forall>a. \<not> ctxDone w a) \<and> (\<forall>a n. others w a n = n)
     \<and> (\<forall>a req. \<exists>resp. rpcAppend w a req = Inr (Some resp) \<and> aerTerm resp \<le> aeTerm req
          \<and> aerSuccess resp = agrees (aePrevLogIndex req) (aePrevLogTerm req))"

lemma loop_succeeds:
  assumes "leading t n" and "answering agrees w" and "agrees 0 0" and "unat (next_of peer n) \<le> left"
  shows "fst (replicatePeer_loop w peer a left n)"
  using assms(1,4)
proof (induction left arbitrary: a n)
  case 0
  then show ?case
    using next_of_pos [of peer n] by (simp add: word_less_nat_alt)
next
  case (Suc left)
  let ?nx = "next_of peer n"
  have w: "\<not> ctxDone w a" "others w a m = m" for m
    using assms(2) by (auto simp: answering_def)
  have down: "unat (next_of peer m) \<le> left" if "1 < ?nx" "nextIndex m peer = ?nx - 1" for m
  proof -
    have "unat (?nx - 1) = unat ?nx - 1"
      using that(1) by (subst unat_sub) (simp_all add: word_le_nat_alt word_less_nat_alt)
    moreover have "next_of peer m = ?nx - 1"
      using that by (auto simp: next_of_def)
    ultimately show ?thesis
      using Suc.prems(2) by simp
  qed
  from prepare_leading [OF Suc.prems(1) refl, of peer] show ?case
  proof (elim disjE exE conjE)
    fix s
    assume p: "replicatePeer_prepare peer n = (Retry, n\<lparr>store := s, nextIndex := (nextIndex n)(peer := ?nx - 1)\<rparr>)"
      and s: "1 < ?nx" "db s = db (store n)" "healthy s"
    have "fst (replicatePeer_loop w peer (Suc a) left (n\<lparr>store := s, nextIndex := (nextIndex n)(peer := ?nx - 1)\<rparr>))"
      by (rule Suc.IH) (use s Suc.prems(1) in \<open>simp_all add: leading_store down\<close>)
    with p w show ?thesis
      by simp
  next
    fix sent req s
    let ?n1 = "n\<lparr>nextIndex := (nextIndex n)(peer := ?nx), store := s\<rparr>"
    assume p: "replicatePeer_prepare peer n = (SendAppend sent req, ?n1)"
      and req: "aeTerm req = t" "aePrevLogIndex req = ?nx - 1"
      and tp: "term_pos (?nx - 1) (db (store n)) = Inr (aePrevLogTerm req, True)"
      and s: "db s = db (store n)" "healthy s"
    obtain resp where r: "rpcAppend w a req = Inr (Some resp)" "aerTerm resp \<le> t"
      "aerSuccess resp = agrees (?nx - 1) (aePrevLogTerm req)"
      using assms(2) req unfolding answering_def by metis
    have cur: "currentTerm ?n1 = t" "role ?n1 = RoleLeader"
      using Suc.prems(1) by (simp_all add: leading_def)
    show ?thesis
    proof (cases "aerSuccess resp")
      case True
      then have "fst (replicatePeer_append_reply peer t sent (Some resp) ?n1) = Some True"
        using r(2) cur by (simp add: replicatePeer_append_reply_def Let_def split: prod.splits)
      with p w r(1) req(1) show ?thesis
        by (auto split: prod.splits)
    next
      case False
      have "1 < ?nx"
      proof (rule ccontr)
        assume "\<not> 1 < ?nx"
        with next_of_pos [of peer n] have "?nx = 1"
          by (simp add: word_less_nat_alt word_unat_eq_iff)
        with tp have "aePrevLogTerm req = 0" "?nx - 1 = 0"
          by (simp_all add: term_pos_def)
        with False r(3) assms(3) show False
          by simp
      qed
      then have reply: "replicatePeer_append_reply peer t sent (Some resp) ?n1 = (None, ?n1\<lparr>nextIndex := (nextIndex ?n1)(peer := ?nx - 1)\<rparr>)"
        using False r(2) cur by (simp add: replicatePeer_append_reply_def)
      have "fst (replicatePeer_loop w peer (Suc a) left (?n1\<lparr>nextIndex := (nextIndex ?n1)(peer := ?nx - 1)\<rparr>))"
        by (rule Suc.IH) (use s Suc.prems(1) \<open>1 < ?nx\<close> in \<open>simp_all add: leading_store down\<close>)
      with p w r(1) req(1) reply show ?thesis
        by simp
    qed
  qed
qed



end
