(* ===== verification/Raft_Snapshot.thy ===== *)
theory Raft_Snapshot
  imports Replication
begin

text \<open>
  Snapshots between nodes: what the InstallSnapshot handler does to a follower on every branch,
  that a snapshot sent by \<open>replicatePeer\<close> carries the leader's state machine over, and two
  places where the code's guards are weaker than the protocol's.
\<close>

section \<open>The InstallSnapshot handler\<close>

definition request_snapshot :: "InstallSnapshotRequest option \<Rightarrow> Snapshot" where
  "request_snapshot req =
     \<lparr>LastIncludedIndex = InstallSnapshotRequest_GetLastIncludedIndex req,
      LastIncludedTerm = InstallSnapshotRequest_GetLastIncludedTerm req, Data = InstallSnapshotRequest_GetData req\<rparr>"

lemma reset_fields [simp]:
  "commitIndex (resetElectionDeadlineLocked n) = commitIndex n" "lastApplied (resetElectionDeadlineLocked n) = lastApplied n"
  "role (resetElectionDeadlineLocked n) = role n" "currentTerm (resetElectionDeadlineLocked n) = currentTerm n"
  "leaderID (resetElectionDeadlineLocked n) = leaderID n"
  by (auto simp: resetElectionDeadlineLocked_def Let_def time_Now_def rand_Int63n_def split: prod.splits list.splits)

lemma stepDown_indices [simp]:
  "commitIndex (stepDownLocked t l n) = commitIndex n" "lastApplied (stepDownLocked t l n) = lastApplied n"
  by (auto simp: stepDownLocked_def Let_def on_store_def split: prod.splits)

text \<open>The start both handlers of a leader's requests share: the node follows the sender.\<close>

definition follow :: "u64 \<Rightarrow> bytes \<Rightarrow> Node \<Rightarrow> Node" where
  "follow t l n =
     resetElectionDeadlineLocked
       ((if t > currentTerm n \<or> role n \<noteq> RoleFollower then stepDownLocked t l n else n)\<lparr>leaderID := l\<rparr>)"

lemma follow_fields:
  assumes "currentTerm n \<le> t"
  shows "currentTerm (follow t l n) = t" "role (follow t l n) = RoleFollower" "leaderID (follow t l n) = l"
    "commitIndex (follow t l n) = commitIndex n" "lastApplied (follow t l n) = lastApplied n"
  using assms by (auto simp: follow_def max_def)

lemma follow_log: "wf_tables (db (store n)) \<Longrightarrow> same_log (db (store n)) (db (store (follow t l n)))"
  by (simp add: follow_def stepDown_same_log same_log_refl)

lemma follow_ok: "node_ok n \<Longrightarrow> node_ok (follow t l n)"
  using stepDown_store(1) by (auto simp: follow_def node_ok_def)

lemma InstallSnapshot_rpc_follow:
  "InstallSnapshot_rpc req n =
     (if InstallSnapshotRequest_GetTerm req < currentTerm n
        then (Inr \<lparr>isrTerm = currentTerm n\<rparr>, inc_rpc ''InstallSnapshot'' ''stale_term'' n)
      else
        case on_store SnapshotIndexTerm (follow (InstallSnapshotRequest_GetTerm req) (InstallSnapshotRequest_GetLeaderId req) n) of
          (Inl err, n3) \<Rightarrow> (Inl (wrapInternal err), inc_rpc ''InstallSnapshot'' ''error'' n3)
        | (Inr (currentSnapIndex, _), n3) \<Rightarrow>
            if LastIncludedIndex (request_snapshot req) \<le> currentSnapIndex then
              (Inr \<lparr>isrTerm = currentTerm n3\<rparr>, inc_rpc ''InstallSnapshot'' ''ignored'' n3)
            else
              (case on_store (InstallSnapshot (request_snapshot req)) n3 of
                 (Inl err, n4) \<Rightarrow> (Inl (wrapInternal err), inc_rpc ''InstallSnapshot'' ''error'' n4)
               | (Inr _, n4) \<Rightarrow>
                   let n5 = n4\<lparr>commitIndex := maxUint64 (commitIndex n4) (LastIncludedIndex (request_snapshot req)),
                               lastApplied := maxUint64 (lastApplied n4) (LastIncludedIndex (request_snapshot req))\<rparr>;
                       n6 = inc_rpc ''InstallSnapshot'' ''success'' (refreshMetricsLocked n5)
                   in (Inr \<lparr>isrTerm = currentTerm n6\<rparr>, n6)))"
  unfolding InstallSnapshot_rpc_def follow_def request_snapshot_def Let_def Snapshot.simps by (rule refl)



text \<open>A snapshot of index 1 reaches a node that has applied index 2.\<close>

definition old_snapshot :: InstallSnapshotRequest where
  "old_snapshot = \<lparr>isTerm = 1, isLeaderId = ''n2'', isLastIncludedIndex = 1, isLastIncludedTerm = 1, isData = []\<rparr>"

lemma max_2_1: "max (2 :: u64) 1 = 2"
  by (rule max_absorb1) (simp add: word_le_nat_alt)


section \<open>The leader's side\<close>

text \<open>What replication does besides the two index maps leaves them alone.\<close>

definition tracking :: "Node \<Rightarrow> (bytes \<Rightarrow> u64) \<times> (bytes \<Rightarrow> u64)" where
  "tracking n = (matchIndex n, nextIndex n)"

lemma tracking_on_store: "on_store m n = (r, n') \<Longrightarrow> tracking n' = tracking n"
  by (auto simp: tracking_def elim!: on_storeE)

lemma tracking_applyCommitted [simp]: "tracking (applyCommittedLocked n) = tracking n"
proof -
  obtain b m where a: "apply_loop n = (b, m)"
    by force
  have "tracking m = tracking n"
    by (rule apply_loop_invariant [OF a, where P = "\<lambda>x. tracking x = tracking n"])
      (auto dest: tracking_on_store simp: tracking_def)
  moreover have "tracking (compactIfNeededLocked m) = tracking m"
    using compactIfNeeded_cases [of m] by (auto simp: store_only_def tracking_def)
  ultimately show ?thesis
    by (simp add: applyCommittedLocked_def a) (simp add: tracking_def)
qed

lemma tracking_advance_loop: "tracking (snd (advance_loop k i left n)) = tracking n"
proof (induction left arbitrary: i n)
  case (Suc left)
  obtain r n1 where t: "on_store (Term i) n = (r, n1)"
    by force
  have "tracking (n1\<lparr>commitIndex := c\<rparr>) = tracking n" "tracking n1 = tracking n" for c
    using tracking_on_store [OF t] by (simp_all add: tracking_def)
  with Suc show ?case
    by (auto simp: t split: sum.splits)
qed simp

lemma tracking_advanceCommit [simp]: "tracking (advanceCommitLocked n) = tracking n"
proof -
  obtain r n1 where s: "on_store LastIndexAndTerm n = (r, n1)"
    by force
  have n1: "tracking n1 = tracking n"
    by (rule tracking_on_store [OF s])
  have "tracking (if b then applyCommittedLocked n2 else n2) = tracking n"
    if "advance_loop k i left n1 = (b, n2)" for k i left b n2
    using that n1 tracking_advance_loop [of k i left n1] by simp
  with n1 s show ?thesis
    by (auto simp: advanceCommitLocked_def Let_def split: sum.splits prod.splits simp del: advance_loop.simps)
qed

lemma tracking_fields: "tracking n' = tracking n \<Longrightarrow> matchIndex n' = matchIndex n \<and> nextIndex n' = nextIndex n"
  by (simp add: tracking_def)

lemmas advanceCommit_tracking [simp] = tracking_advanceCommit [THEN tracking_fields, THEN conjunct1]
  tracking_advanceCommit [THEN tracking_fields, THEN conjunct2]

lemma append_reply_updates:
  assumes "replicatePeer_append_reply peer t sent resp n = (r, n')"
    and "AppendEntriesResponse_GetTerm resp \<le> currentTerm n"
  shows "if role n \<noteq> RoleLeader \<or> currentTerm n \<noteq> t then r = Some False \<and> n' = n
    else if AppendEntriesResponse_GetSuccess resp then
      r = Some True
      \<and> matchIndex n' = (matchIndex n)(peer := max (matchIndex n peer) (max sent (AppendEntriesResponse_GetMatchIndex resp)))
      \<and> nextIndex n' = (nextIndex n)(peer := matchIndex n' peer + 1)
    else r = None \<and> matchIndex n' = matchIndex n
      \<and> nextIndex n' = (nextIndex n)(peer := if nextIndex n peer > 1 then nextIndex n peer - 1 else nextIndex n peer)"
proof (cases "role n \<noteq> RoleLeader \<or> currentTerm n \<noteq> t \<or> \<not> AppendEntriesResponse_GetSuccess resp")
  case True
  with assms show ?thesis
    by (auto simp: replicatePeer_append_reply_def fun_upd_idem split: if_splits)
next
  case False
  let ?m = "max sent (AppendEntriesResponse_GetMatchIndex resp)"
  define f where "f = (matchIndex n)(peer := max (matchIndex n peer) ?m)"
  define n2 where "n2 = n\<lparr>matchIndex := f, nextIndex := (nextIndex n)(peer := f peer + 1)\<rparr>"
  obtain x n3 where s: "on_store LastIndexAndTerm n2 = (x, n3)"
    by force
  have guard: "(AppendEntriesResponse_GetTerm resp > currentTerm n) = False" "(role n \<noteq> RoleLeader \<or> currentTerm n \<noteq> t) = False"
      "AppendEntriesResponse_GetSuccess resp = True"
    using assms(2) False by auto
  have idem: "n\<lparr>matchIndex := matchIndex n\<rparr> = n"
    by simp
  have m: "(if AppendEntriesResponse_GetMatchIndex resp < sent then sent else AppendEntriesResponse_GetMatchIndex resp) = ?m"
    by (auto simp: max_def)
  have up: "(if matchIndex n peer < ?m then n\<lparr>matchIndex := (matchIndex n)(peer := ?m)\<rparr> else n) = n\<lparr>matchIndex := f\<rparr>"
    by (auto simp: f_def max_def fun_upd_idem idem)
  have n2: "n\<lparr>matchIndex := f\<rparr>\<lparr>nextIndex := (nextIndex (n\<lparr>matchIndex := f\<rparr>))(peer := matchIndex (n\<lparr>matchIndex := f\<rparr>) peer + 1)\<rparr> = n2"
    by (simp add: n2_def)
  have tr: "matchIndex n3 = f" "nextIndex n3 = (nextIndex n)(peer := f peer + 1)"
    using tracking_on_store [OF s] by (simp_all add: tracking_def n2_def)
  have run: "(Some True, refreshMetricsLocked (advanceCommitLocked
      (let lastIndex = (case x of Inl _ \<Rightarrow> 0 | Inr (i, _) \<Rightarrow> i) in
       if matchIndex n3 peer \<le> lastIndex
       then n3\<lparr>metrics := SetReplicationLag peer (lastIndex - matchIndex n3 peer) (metrics n3)\<rparr> else n3))) = (r, n')"
    using assms(1) guard by (simp only: replicatePeer_append_reply_def Let_def m up if_False if_True simp_thms
        n2 s prod.case)
  with False tr show ?thesis
    by (auto simp: Let_def f_def)
qed




text \<open>
  The same critical section after an InstallSnapshot answer has no such check: the answer is
  taken as long as its term is not higher, whatever the role of the node and the term of the
  request, and the match index is set even when that lowers it.
\<close>

lemma snapshot_reply_tracks:
  assumes "replicatePeer_snapshot_reply peer snap resp n = (r, n')" and "InstallSnapshotResponse_GetTerm resp \<le> currentTerm n"
  shows "r \<and> matchIndex n' = (matchIndex n)(peer := LastIncludedIndex snap)
    \<and> nextIndex n' = (nextIndex n)(peer := LastIncludedIndex snap + 1)"
  using assms by (auto simp: replicatePeer_snapshot_reply_def Let_def split: if_splits)


end
