(* ===== verification/Json_Print.thy ===== *)
theory Json_Print
  imports Go_Json
begin

text \<open>
  The output side of \<open>encoding/json\<close> for values of mixed kinds, as the logger and \<open>raftctl\<close> use
  it: the compact form of \<open>Encoder.Encode\<close> and the form with an indent of two spaces. A flat
  object printed compactly is one line and parses back.
\<close>

section \<open>Printing\<close>

fun join :: "bytes \<Rightarrow> bytes list \<Rightarrow> bytes" where
  "join sep [] = []"
| "join sep [s] = s"
| "join sep (s # s' # ss) = s @ sep @ join sep (s' # ss)"

fun json_compact :: "json \<Rightarrow> bytes" where
  "json_compact JNull = ''null''"
| "json_compact (JBool b) = (if b then ''true'' else ''false'')"
| "json_compact (JNum s) = s"
| "json_compact (JStr s) = marshal_string s"
| "json_compact (JArr vs) = ''['' @ join '','' (map json_compact vs) @ '']''"
| "json_compact (JObj ms) =
     ''{'' @ join '','' (map (\<lambda>(k, v). marshal_string k @ '':'' @ json_compact v) ms) @ ''}''"

definition newline :: char where
  "newline = char_of (10 :: nat)"

definition indentation :: "nat \<Rightarrow> bytes" where
  "indentation d = newline # replicate (2 * d) CHR '' ''"

text \<open>The second argument is the nesting depth of the value.\<close>

fun json_indent :: "nat \<Rightarrow> json \<Rightarrow> bytes" where
  "json_indent d JNull = ''null''"
| "json_indent d (JBool b) = (if b then ''true'' else ''false'')"
| "json_indent d (JNum s) = s"
| "json_indent d (JStr s) = marshal_string s"
| "json_indent d (JArr vs) =
     (if vs = [] then ''[]''
      else ''['' @ join '','' (map (\<lambda>v. indentation (Suc d) @ json_indent (Suc d) v) vs) @ indentation d @ '']'')"
| "json_indent d (JObj ms) =
     (if ms = [] then ''{}''
      else ''{'' @ join '','' (map (\<lambda>(k, v). indentation (Suc d) @ marshal_string k @ '': '' @ json_indent (Suc d) v) ms)
        @ indentation d @ ''}'')"

section \<open>A printed value has no control characters\<close>

definition printable :: "bytes \<Rightarrow> bool" where
  "printable s \<longleftrightarrow> (\<forall>c \<in> set s. 32 \<le> (of_char c :: nat))"

lemma printable_simps [simp]:
  "printable []" "printable (c # s) \<longleftrightarrow> 32 \<le> (of_char c :: nat) \<and> printable s" "printable (s @ t) \<longleftrightarrow> printable s \<and> printable t"
  by (auto simp: printable_def)

lemma printable_no_newline: "printable s \<Longrightarrow> newline \<notin> set s"
  by (auto simp: printable_def newline_def of_char_of)

lemma printable_join: "printable sep \<Longrightarrow> (\<And>s. s \<in> set ss \<Longrightarrow> printable s) \<Longrightarrow> printable (join sep ss)"
  by (induction sep ss rule: join.induct) auto

lemma hex_digit_printable: "d < 16 \<Longrightarrow> 32 \<le> (of_char (hex_digit d) :: nat)"
  by (auto simp: hex_digit_def of_char_of)

lemma printable_escape_ascii: "(of_char c :: nat) < 128 \<Longrightarrow> printable (escape_ascii c)"
  by (auto simp: escape_ascii_def Let_def bslash_def of_char_of hex_digit_printable)

lemma utf8_len_multibyte:
  assumes "utf8_len (c # cs) = Some n" and "\<not> (of_char c :: nat) < 128"
  shows "printable (take n (c # cs))"
proof -
  have cont: "cont_byte lo hi x \<Longrightarrow> 128 \<le> lo \<Longrightarrow> 32 \<le> (of_char x :: nat)" for lo hi x
    by (auto simp: cont_byte_def)
  show ?thesis
    using assms by (auto simp: utf8_len.simps Let_def split: if_splits list.splits dest!: cont)
qed

lemma printable_encode_chars: "printable (encode_chars s)"
proof (induction s rule: encode_chars.induct)
  case (1 s)
  show ?case
  proof (cases s)
    case Nil
    then show ?thesis
      by (subst encode_chars.simps) simp
  next
    case (Cons c cs)
    show ?thesis
    proof (cases "(of_char c :: nat) < 128")
      case True
      with 1(1) Cons show ?thesis
        by (subst encode_chars.simps) (simp add: printable_escape_ascii)
    next
      case False
      show ?thesis
      proof (cases "utf8_len s")
        case None
        with 1(2) Cons False show ?thesis
          by (subst encode_chars.simps) (simp add: bslash_def of_char_of)
      next
        case (Some n)
        have "printable (take n s)"
          using utf8_len_multibyte Some False Cons by simp
        with 1(3) [OF Cons False Some] Cons False Some show ?thesis
          by (subst encode_chars.simps) (simp add: bslash_def of_char_of)
      qed
    qed
  qed
qed

lemma printable_marshal_string [simp]: "printable (marshal_string s)"
  by (simp add: marshal_string_def printable_encode_chars quote_def of_char_of)

lemma printable_FormatUint [simp]: "printable (FormatUint x)"
  by (auto simp: printable_def FormatUint_def is_digit_def dest!: decimal_digits)

text \<open>The values the program prints: its numbers are unsigned.\<close>

fun plain_numbers :: "json \<Rightarrow> bool" where
  "plain_numbers (JNum s) = (\<exists>x. s = FormatUint x)"
| "plain_numbers (JArr vs) = (\<forall>v \<in> set vs. plain_numbers v)"
| "plain_numbers (JObj ms) = (\<forall>m \<in> set ms. plain_numbers (snd m))"
| "plain_numbers _ = True"

lemma printable_compact: "plain_numbers v \<Longrightarrow> printable (json_compact v)"
proof (induction v rule: json_compact.induct)
  case (6 ms)
  have "printable (json_compact (snd m))" if "m \<in> set ms" for m
    using "6.IH" [of m "fst m" "snd m"] "6.prems" that by simp
  then show ?case
    by (auto intro!: printable_join)
qed (auto intro!: printable_join)


section \<open>A flat object parses back\<close>

fun flat_value :: "json \<Rightarrow> bool" where
  "flat_value (JStr s) = valid_utf8 s"
| "flat_value (JNum s) = (\<exists>x. s = FormatUint x)"
| "flat_value (JBool b) = True"
| "flat_value _ = False"

definition flat_object :: "(bytes \<times> json) list \<Rightarrow> bool" where
  "flat_object ms \<longleftrightarrow> list_all (\<lambda>(k, v). valid_utf8 k \<and> flat_value v) ms"

text \<open>What may follow a value inside a document.\<close>

definition follows :: "char \<Rightarrow> bool" where
  "follows c \<longleftrightarrow> c \<in> set ('',}]'' @ [newline])"

lemma follows_cases: "follows c \<Longrightarrow> \<not> is_digit c \<and> c \<noteq> CHR ''.'' \<and> c \<noteq> CHR ''e'' \<and> c \<noteq> CHR ''E''"
  by (auto simp: follows_def is_digit_def newline_def of_char_of dest: arg_cong [where f = "of_char :: char \<Rightarrow> nat"])

lemma digit_not_special:
  assumes "is_digit c"
  shows "\<not> is_ws c" "c \<noteq> quote" "c \<noteq> CHR ''{''" "c \<noteq> CHR ''[''" "c \<noteq> CHR ''-''" "c \<noteq> CHR ''n''" "c \<noteq> CHR ''t''" "c \<noteq> CHR ''f''"
  using assms by (auto simp: is_digit_def is_ws_def quote_def of_char_of)

lemma decimal_lead: "decimal n = d # ds \<Longrightarrow> d = CHR ''0'' \<Longrightarrow> ds = []"
proof (induction n arbitrary: d ds rule: less_induct)
  case (less n)
  show ?case
  proof (cases "n < 10")
    case True
    with less.prems show ?thesis
      by (subst (asm) decimal.simps) simp
  next
    case False
    obtain e es where e: "decimal (n div 10) = e # es"
      by (cases "decimal (n div 10)") auto
    have dec: "decimal n = decimal (n div 10) @ [digit_char (n mod 10)]"
      using False by (subst decimal.simps) simp
    have "decimal (n div 10) = [CHR ''0'']"
      using less.IH [OF _ e] less.prems e dec False by simp
    moreover have "parse_digits (Suc n) 0 (decimal (n div 10)) = Some (n div 10)"
      by (rule parse_digits_decimal) (simp add: le_imp_less_Suc)
    ultimately show ?thesis
      using False by (auto simp: is_digit_def digit_val_def Let_def split: if_splits)
  qed
qed


lemma parse_number_FormatUint:
  assumes "follows e"
  shows "parse_number (FormatUint x @ e # t) = Some (JNum (FormatUint x), e # t)"
proof -
  obtain d ds where d: "FormatUint x = d # ds"
    by (cases "FormatUint x") auto
  have dig: "is_digit d" "\<forall>c \<in> set ds. is_digit c"
    using decimal_digits [of _ "unat x"] d by (auto simp: FormatUint_def)
  have "d = CHR ''0'' \<Longrightarrow> ds = []"
    using decimal_lead d by (auto simp: FormatUint_def)
  then have "parse_int_part (FormatUint x @ e # t) = Some (e # t)"
    using dig follows_cases [OF assms] d
    by (auto simp: parse_int_part_def dropWhile_append3 dropWhile_eq_Nil_conv [THEN iffD2])
  moreover have "parse_frac (e # t) = Some (e # t)" "parse_exp (e # t) = Some (e # t)"
    using follows_cases [OF assms] by (auto simp: parse_frac_def parse_exp_def)
  moreover have "d \<noteq> CHR ''-''"
    using digit_not_special(5) [OF dig(1)] .
  ultimately show ?thesis
    by (simp add: parse_number_def d)
qed

lemma skip_ws_follows: "c \<in> set '',}]'' \<Longrightarrow> skip_ws (c # s) = c # s"
  by (auto simp: skip_ws_def is_ws_def)

lemma parse_flat_value:
  assumes "flat_value v" and "follows e"
  shows "parse_value (Suc f) d (json_compact v @ e # t) = Some (v, e # t)"
proof (cases v)
  case (JStr s)
  with assms parse_value_string [of s f d "e # t"] show ?thesis
    by simp
next
  case (JNum s)
  then obtain x where x: "s = FormatUint x"
    using assms(1) by auto
  obtain c cs where c: "FormatUint x = c # cs"
    by (cases "FormatUint x") auto
  have dig: "is_digit c"
    using decimal_digits [of c "unat x"] c by (simp add: FormatUint_def)
  have "skip_ws (c # cs @ e # t) = c # cs @ e # t"
    using digit_not_special(1) [OF dig] by (simp add: skip_ws_def)
  with JNum x c digit_not_special [OF dig] parse_number_FormatUint [OF assms(2), of x t] show ?thesis
    by simp
next
  case (JBool b)
  have "skip_ws (''true'' @ e # t) = ''true'' @ e # t" "skip_ws (''false'' @ e # t) = ''false'' @ e # t"
    by (simp_all add: skip_ws_def is_ws_def)
  moreover have "CHR ''t'' \<noteq> quote" "CHR ''f'' \<noteq> quote"
    by (auto simp: quote_def dest: arg_cong [where f = "of_char :: char \<Rightarrow> nat"])
  ultimately show ?thesis
    using JBool by simp
qed (use assms(1) in auto)

definition json_member :: "bytes \<times> json \<Rightarrow> bytes" where
  "json_member m = marshal_string (fst m) @ '':'' @ json_compact (snd m)"

lemma parse_flat_member:
  assumes "valid_utf8 k" and "flat_value v" and "e \<in> set '',}''"
  shows "parse_members (Suc (Suc f)) d (json_member (k, v) @ e # t) =
     (if e = CHR '','' then map_option (\<lambda>(ms, w). ((k, v) # ms, w)) (parse_members (Suc f) d t) else Some ([(k, v)], t))"
proof -
  have "parse_string (encode_chars k @ quote # CHR '':'' # json_compact v @ e # t) =
      Some (k, CHR '':'' # json_compact v @ e # t)"
    using assms(1) by (rule parse_encode_chars)
  moreover have "follows e" "skip_ws (e # t) = e # t"
    using assms(3) skip_ws_follows [of e t] by (auto simp: follows_def)
  ultimately show ?thesis
    using parse_flat_value [OF assms(2), of e f d t] assms(3)
    by (auto simp: json_member_def marshal_string_def [of k] simp del: parse_value.simps)
qed

lemma parse_flat_members:
  "ms \<noteq> [] \<Longrightarrow> flat_object ms \<Longrightarrow> length ms < f \<Longrightarrow>
     parse_members f d (join '','' (map json_member ms) @ CHR ''}'' # t) = Some (ms, t)"
proof (induction ms arbitrary: f rule: induct_list012)
  case (2 m)
  obtain k v where m: "m = (k, v)"
    by force
  obtain f' where "f = Suc (Suc f')"
    using 2 by (cases f; cases "f - 1") auto
  with 2 m show ?case
    by (simp add: parse_flat_member flat_object_def del: parse_members.simps)
next
  case (3 m m' ms)
  obtain k v where m: "m = (k, v)"
    by force
  obtain f' where f: "f = Suc (Suc f')"
    using 3 by (cases f; cases "f - 1") auto
  have "parse_members (Suc f') d (join '','' (map json_member (m' # ms)) @ CHR ''}'' # t) = Some (m' # ms, t)"
    using 3 f by (intro "3.IH") (auto simp: flat_object_def)
  with 3 m f show ?case
    by (simp add: parse_flat_member flat_object_def del: parse_members.simps)
qed simp

lemma json_compact_object: "json_compact (JObj ms) = ''{'' @ join '','' (map json_member ms) @ ''}''"
  by (simp add: json_member_def case_prod_beta cong: map_cong)

lemma length_join_members: "length ms \<le> length (join '','' (map json_member ms))"
  by (induction ms rule: induct_list012) (auto simp: json_member_def marshal_string_def)

lemma parse_flat_object:
  assumes "flat_object ms" and "ms \<noteq> []"
  shows "parse_json (json_compact (JObj ms) @ [newline]) = Some (JObj ms)"
proof -
  let ?f = "2 * length (json_compact (JObj ms) @ [newline]) + 1"
  obtain s where "join '','' (map json_member ms) = quote # s"
    using assms(2) by (cases ms rule: remdups_adj.cases) (auto simp: json_member_def marshal_string_def)
  moreover have "parse_members ?f (Suc 0) (join '','' (map json_member ms) @ CHR ''}'' # [newline]) = Some (ms, [newline])"
    using length_join_members [of ms]
    by (intro parse_flat_members [OF assms(2,1)]) (simp add: json_compact_object del: json_compact.simps)
  moreover have "skip_ws [newline] = []"
    by (simp add: skip_ws_def is_ws_def newline_def of_char_of)
  ultimately show ?thesis
    unfolding parse_json_def Let_def
    by (simp add: json_compact_object max_nesting_depth_def del: json_compact.simps parse_members.simps)
qed

end
