(* ===== verification/Logging.thy ===== *)
theory Logging
  imports Json_Print
begin

text \<open>
  \<open>internal/logging/logger.go\<close>: structured log events. An event is a map from names to values,
  printed as one JSON object per line. The writer is the list of the chunks it was given;
  \<open>Encoder.Encode\<close> hands over an event with its newline in one call. The reading of the clock,
  already formatted, is an argument. A map that is ranged over is a list of its pairs in the
  order of the iteration.
\<close>

section \<open>The logger\<close>

record Logger =
  logNodeID :: bytes
  logOut :: "bytes list"

definition logging_New :: "bytes \<Rightarrow> Logger" where
  "logging_New nodeID = \<lparr>logNodeID = nodeID, logOut = []\<rparr>"

definition NewWithWriter :: "bytes \<Rightarrow> bytes list \<Rightarrow> Logger" where
  "NewWithWriter nodeID out = \<lparr>logNodeID = nodeID, logOut = out\<rparr>"

definition event_base :: "bytes \<Rightarrow> bytes \<Rightarrow> bytes \<Rightarrow> bytes \<Rightarrow> (bytes \<times> json) list" where
  "event_base ts level nodeID message =
     fold (\<lambda>(k, v). upsert k v)
       [(''ts'', JStr ts), (''level'', JStr level), (''node_id'', JStr nodeID), (''message'', JStr message)] []"

definition event :: "bytes \<Rightarrow> bytes \<Rightarrow> bytes \<Rightarrow> bytes \<Rightarrow> (bytes \<times> json) list \<Rightarrow> (bytes \<times> json) list" where
  "event ts level nodeID message flds =
     fold (\<lambda>(k, v). upsert k v) flds (event_base ts level nodeID message)"

definition log_write :: "bytes \<Rightarrow> bytes \<Rightarrow> bytes \<Rightarrow> (bytes \<times> json) list \<Rightarrow> Logger \<Rightarrow> Logger" where
  "log_write ts level message flds l =
     l\<lparr>logOut := logOut l @ [json_compact (JObj (event ts level (logNodeID l) message flds)) @ [newline]]\<rparr>"

definition Info :: "bytes \<Rightarrow> bytes \<Rightarrow> (bytes \<times> json) list \<Rightarrow> Logger \<Rightarrow> Logger" where
  "Info ts message flds l = log_write ts ''info'' message flds l"

definition Warn :: "bytes \<Rightarrow> bytes \<Rightarrow> (bytes \<times> json) list \<Rightarrow> Logger \<Rightarrow> Logger" where
  "Warn ts message flds l = log_write ts ''warn'' message flds l"

definition Error :: "bytes \<Rightarrow> bytes \<Rightarrow> (bytes \<times> json) list \<Rightarrow> Logger \<Rightarrow> Logger" where
  "Error ts message flds l = log_write ts ''error'' message flds l"

section \<open>Events\<close>

lemma map_of_fold_upsert:
  "distinct (map fst fs) \<Longrightarrow> map_of (fold (\<lambda>(k, v). upsert k v) fs t) = map_of t ++ map_of fs"
proof (induction fs arbitrary: t)
  case (Cons f fs)
  obtain k v where f: "f = (k, v)"
    by force
  have "map_of fs k = None"
    using Cons.prems f by (auto simp: map_of_eq_None_iff)
  with Cons f show ?case
    by (auto simp: table_simps fun_eq_iff map_add_def split: option.splits)
qed simp

lemma wf_fold_upsert: "wf_table t \<Longrightarrow> wf_table (fold (\<lambda>(k, v). upsert k v) fs t)"
  by (induction fs arbitrary: t) auto

lemma wf_event_base: "wf_table (event_base ts level i m)"
  unfolding event_base_def by (rule wf_fold_upsert) simp

lemma wf_event: "wf_table (event ts level i m fs)"
  unfolding event_def by (rule wf_fold_upsert [OF wf_event_base])

lemma map_of_event_base:
  "map_of (event_base ts level i m) =
     [''ts'' \<mapsto> JStr ts, ''level'' \<mapsto> JStr level, ''node_id'' \<mapsto> JStr i, ''message'' \<mapsto> JStr m]"
  unfolding event_base_def by (subst map_of_fold_upsert) (auto simp: fun_eq_iff)

lemma map_of_event:
  assumes "distinct (map fst fs)"
  shows "map_of (event ts level i m fs) = map_of (event_base ts level i m) ++ map_of fs"
  unfolding event_def by (rule map_of_fold_upsert [OF assms])

lemma keys_fold_upsert: "fst ` set (fold (\<lambda>(k, v). upsert k v) fs t) = fst ` set t \<union> fst ` set fs"
proof (induction fs arbitrary: t)
  case (Cons f fs)
  obtain k v where f: "f = (k, v)"
    by force
  show ?case
    unfolding f by (simp add: Cons.IH keys_upsert Un_ac)
qed simp

lemma values_upsert: "(k', v') \<in> set (upsert k v t) \<Longrightarrow> (k', v') = (k, v) \<or> (k', v') \<in> set t"
  by (induction k v t rule: upsert.induct) (auto split: if_splits)

lemma values_fold_upsert: "m \<in> set (fold (\<lambda>(k, v). upsert k v) fs t) \<Longrightarrow> m \<in> set fs \<or> m \<in> set t"
proof (induction fs arbitrary: t)
  case (Cons f fs)
  obtain k v where f: "f = (k, v)"
    by force
  from Cons.IH [of "upsert k v t"] Cons.prems f values_upsert [of "fst m" "snd m" k v t] show ?case
    by auto
qed simp

lemma event_values: "m \<in> set (event ts level i msg fs) \<Longrightarrow> m \<in> set fs \<or> (\<exists>s \<in> {ts, level, i, msg}. \<exists>k \<in> {''ts'', ''level'', ''node_id'', ''message''}. m = (k, JStr s))"
  unfolding event_def event_base_def by (drule values_fold_upsert) (auto dest!: values_fold_upsert simp del: fold_simps)

text \<open>Whatever order Go iterates over the fields of an event in, the line written is the same.\<close>

lemma log_write_order:
  assumes "distinct (map fst fs)" and "distinct (map fst fs')" and "set fs = set fs'"
  shows "log_write ts level message fs l = log_write ts level message fs' l"
proof -
  have "map_of fs = map_of fs'"
    using assms by (simp add: map_of_inject_set)
  then have "event ts level (logNodeID l) message fs = event ts level (logNodeID l) message fs'"
    using assms(1,2) by (intro wf_table_eqI wf_event) (simp add: map_of_event)
  then show ?thesis
    by (simp add: log_write_def)
qed

text \<open>
  C40: a logged event is one line and can be read back. The logger appends one chunk that has no
  control character but the newline at its end, so that no message or field (a key sent by a
  client, an error text) can forge a second event; parsed as JSON it is the event with the
  given fields, which override the four standard ones.
\<close>

theorem log_write_line:
  assumes "distinct (map fst fs)" and "flat_object fs"
    and "valid_utf8 ts" and "valid_utf8 level" and "valid_utf8 (logNodeID l)" and "valid_utf8 message"
  shows "\<exists>line ms. logOut (log_write ts level message fs l) = logOut l @ [line @ [newline]]
    \<and> newline \<notin> set line \<and> printable line
    \<and> parse_json (line @ [newline]) = Some (JObj ms)
    \<and> map_of ms = [''ts'' \<mapsto> JStr ts, ''level'' \<mapsto> JStr level, ''node_id'' \<mapsto> JStr (logNodeID l), ''message'' \<mapsto> JStr message] ++ map_of fs"
proof -
  let ?ms = "event ts level (logNodeID l) message fs"
  have keys: "valid_utf8 ''ts''" "valid_utf8 ''level''" "valid_utf8 ''node_id''" "valid_utf8 ''message''"
    by code_simp+
  have flat: "flat_object ?ms"
    using assms(2-6) keys by (auto simp: flat_object_def list_all_iff dest!: event_values)
  then have plain: "plain_numbers (JObj ?ms)"
    by (auto simp: flat_object_def list_all_iff elim!: flat_value.elims(2) dest!: bspec)
  have "?ms \<noteq> []"
    using map_of_event_base [of ts level "logNodeID l" message]
    by (auto simp: event_def event_base_def dest!: arg_cong [where f = "\<lambda>t. fst ` set t"] simp: keys_fold_upsert)
  with flat have "parse_json (json_compact (JObj ?ms) @ [newline]) = Some (JObj ?ms)"
    by (intro parse_flat_object)
  moreover have "printable (json_compact (JObj ?ms))"
    by (rule printable_compact [OF plain])
  moreover have "map_of ?ms = [''ts'' \<mapsto> JStr ts, ''level'' \<mapsto> JStr level, ''node_id'' \<mapsto> JStr (logNodeID l), ''message'' \<mapsto> JStr message] ++ map_of fs"
    by (simp add: map_of_event [OF assms(1)] map_of_event_base)
  ultimately show ?thesis
    by (intro exI [of _ "json_compact (JObj ?ms)"] exI [of _ ?ms])
      (auto simp: log_write_def dest: printable_no_newline simp del: json_compact.simps)
qed

theorem log_write_line_witness:
  "\<exists>line. logOut (log_write ''t'' ''info'' ''m'' [(''key'', JStr (''x'' @ [newline]))] (logging_New ''n1'')) = [line @ [newline]] \<and> newline \<notin> set line"
proof -
  have "flat_object [(''key'', JStr (''x'' @ [newline]))]" "valid_utf8 ''t''" "valid_utf8 ''info''" "valid_utf8 ''n1''" "valid_utf8 ''m''"
    unfolding newline_def by code_simp+
  from log_write_line [of "[(''key'', JStr (''x'' @ [newline]))]" "''t''" "''info''" "logging_New ''n1''" "''m''", OF _ this(1-3) _ this(5)] this(4)
  show ?thesis
    by (auto simp: logging_New_def)
qed

end
