(* ===== verification/Raftctl.thy ===== *)
theory Raftctl
  imports Wire Json_Print
begin

text \<open>
  \<open>cmd/raftctl/main.go\<close>: the command-line client. \<open>raftctl_main\<close> is what follows \<open>flag.Parse\<close>, \<open>raftctl\<close>
  the whole program with the two flags. The connection and the three calls of the client service
  are parameters, and so is \<open>time.ParseDuration\<close>, which calculates with floating point numbers; a
  run ends with an exit code, what it printed on standard output, what it printed on standard
  error, and the calls it made.
\<close>

section \<open>What is printed\<close>

text \<open>Struct fields with \<open>omitempty\<close>.\<close>

definition json_string_field :: "bytes \<Rightarrow> bytes \<Rightarrow> (bytes \<times> json) list" where
  "json_string_field k s = (if s = [] then [] else [(k, JStr s)])"

definition json_uint_field :: "bytes \<Rightarrow> u64 \<Rightarrow> (bytes \<times> json) list" where
  "json_uint_field k x = (if x = 0 then [] else [(k, JNum (FormatUint x))])"

definition json_bool_field :: "bytes \<Rightarrow> bool \<Rightarrow> (bytes \<times> json) list" where
  "json_bool_field k b = (if b then [(k, JBool True)] else [])"

definition ClientWriteResponse_json :: "ClientWriteResponse option \<Rightarrow> json" where
  "ClientWriteResponse_json m =
     (case m of None \<Rightarrow> JNull
      | Some r \<Rightarrow> JObj (json_bool_field ''success'' (cwrSuccess r) @ json_string_field ''leader_id'' (cwrLeaderId r)
          @ json_string_field ''error'' (cwrError r) @ json_uint_field ''index'' (cwrIndex r) @ json_uint_field ''term'' (cwrTerm r)))"

definition ClientReadResponse_json :: "ClientReadResponse option \<Rightarrow> json" where
  "ClientReadResponse_json m =
     (case m of None \<Rightarrow> JNull
      | Some r \<Rightarrow> JObj (json_bool_field ''success'' (crrSuccess r) @ json_string_field ''leader_id'' (crrLeaderId r)
          @ json_string_field ''error'' (crrError r) @ json_string_field ''value'' (crrValue r)))"

definition PeerStatus_json :: "PeerStatus option \<Rightarrow> json" where
  "PeerStatus_json m =
     (case m of None \<Rightarrow> JNull
      | Some r \<Rightarrow> JObj (json_string_field ''id'' (psId r) @ json_string_field ''address'' (psAddress r)
          @ json_uint_field ''match_index'' (psMatchIndex r) @ json_uint_field ''next_index'' (psNextIndex r)))"

definition StatusResponse_json :: "StatusResponse option \<Rightarrow> json" where
  "StatusResponse_json m =
     (case m of None \<Rightarrow> JNull
      | Some r \<Rightarrow> JObj (json_string_field ''id'' (stId r) @ json_string_field ''role'' (stRole r)
          @ json_uint_field ''term'' (stTerm r) @ json_string_field ''leader_id'' (stLeaderId r)
          @ json_uint_field ''commit_index'' (stCommitIndex r) @ json_uint_field ''last_applied'' (stLastApplied r)
          @ json_uint_field ''last_log_index'' (stLastLogIndex r)
          @ (if stPeers r = [] then [] else [(''peers'', JArr (map PeerStatus_json (stPeers r)))])))"

definition printJSON :: "json \<Rightarrow> bytes" where
  "printJSON v = json_indent 0 v @ [newline]"

definition usage :: bytes where
  "usage = ''usage:'' @ [newline]
     @ ''  raftctl -addr localhost:9001 write <key> <value>'' @ [newline]
     @ ''  raftctl -addr localhost:9001 read <key>'' @ [newline]
     @ ''  raftctl -addr localhost:9001 status'' @ [newline]"

section \<open>A run\<close>

text \<open>Why \<open>flag.Parse\<close> ends the program.\<close>

datatype flag_stop =
    FlagHelp
  | FlagSyntax bytes
  | FlagUndefined bytes
  | FlagNeedsArgument bytes
  | FlagInvalid bytes bytes

datatype stderr = Quiet | UsageText bytes | ErrorText error | FlagText flag_stop

datatype call = CallWrite ClientWriteRequest | CallRead ClientReadRequest | CallStatus

record ctl_env =
  ctlDial :: "bytes \<Rightarrow> error option"
  ctlWrite :: "ClientWriteRequest \<Rightarrow> ClientWriteResponse option result"
  ctlRead :: "ClientReadRequest \<Rightarrow> ClientReadResponse option result"
  ctlStatus :: "StatusResponse option result"

record ctl_run =
  runExit :: int
  runOut :: bytes
  runErr :: stderr
  runDialled :: "bytes option"
  runCall :: "call option"

definition usage_exit :: "bytes option \<Rightarrow> ctl_run" where
  "usage_exit target = \<lparr>runExit = 2, runOut = [], runErr = UsageText usage, runDialled = target, runCall = None\<rparr>"

definition fatal :: "error \<Rightarrow> bytes option \<Rightarrow> call option \<Rightarrow> ctl_run" where
  "fatal err target c = \<lparr>runExit = 1, runOut = [], runErr = ErrorText err, runDialled = target, runCall = c\<rparr>"

definition answered :: "json \<Rightarrow> bool \<Rightarrow> bytes option \<Rightarrow> call \<Rightarrow> ctl_run" where
  "answered v success target c =
     \<lparr>runExit = (if success then 0 else 1), runOut = printJSON v, runErr = Quiet, runDialled = target, runCall = Some c\<rparr>"

definition raftctl_main :: "ctl_env \<Rightarrow> bytes \<Rightarrow> bytes list \<Rightarrow> ctl_run" where
  "raftctl_main w addr args =
     (if length args < 1 then usage_exit None
      else
        let target = Some (DialTarget addr) in
        case ctlDial w (DialTarget addr) of
          Some err \<Rightarrow> fatal err target None
        | None \<Rightarrow>
            if args ! 0 = ''write'' then
              (if length args \<noteq> 3 then usage_exit target
               else
                 let req = \<lparr>cwKey = args ! 1, cwValue = args ! 2\<rparr> in
                 case ctlWrite w req of
                   Inl err \<Rightarrow> fatal err target (Some (CallWrite req))
                 | Inr resp \<Rightarrow> answered (ClientWriteResponse_json resp) (ClientWriteResponse_GetSuccess resp) target (CallWrite req))
            else if args ! 0 = ''read'' then
              (if length args \<noteq> 2 then usage_exit target
               else
                 let req = \<lparr>crKey = args ! 1\<rparr> in
                 case ctlRead w req of
                   Inl err \<Rightarrow> fatal err target (Some (CallRead req))
                 | Inr resp \<Rightarrow> answered (ClientReadResponse_json resp) (ClientReadResponse_GetSuccess resp) target (CallRead req))
            else if args ! 0 = ''status'' then
              (case ctlStatus w of
                 Inl err \<Rightarrow> fatal err target (Some CallStatus)
               | Inr resp \<Rightarrow> answered (StatusResponse_json resp) True target CallStatus)
            else usage_exit target)"

section \<open>The flags\<close>

text \<open>
  \<open>flag.Parse\<close> with the two flags of the program: flags come before the other arguments, start with
  one or two dashes, have their value behind \<open>=\<close> or as the next argument, and end at \<open>--\<close>. It exits with
  0 when help is asked for and with 2 on every other error.
\<close>

record ctl_flags =
  flagAddr :: bytes
  flagTimeout :: int

definition flag_defaults :: ctl_flags where
  "flag_defaults = \<lparr>flagAddr = ''localhost:9001'', flagTimeout = 5000000000\<rparr>"

text \<open>Setting one of the two.\<close>

definition flag_Set :: "(bytes \<Rightarrow> int result) \<Rightarrow> bytes \<Rightarrow> bytes \<Rightarrow> ctl_flags \<Rightarrow> flag_stop + ctl_flags" where
  "flag_Set duration name v f =
     (if name = ''addr'' then Inr (f\<lparr>flagAddr := v\<rparr>)
      else (case duration v of Inl _ \<Rightarrow> Inl (FlagInvalid v name) | Inr d \<Rightarrow> Inr (f\<lparr>flagTimeout := d\<rparr>)))"

fun flag_Parse :: "(bytes \<Rightarrow> int result) \<Rightarrow> ctl_flags \<Rightarrow> bytes list \<Rightarrow> flag_stop + (ctl_flags \<times> bytes list)" where
  "flag_Parse duration f [] = Inr (f, [])"
| "flag_Parse duration f (s # args) =
     (if length s < 2 \<or> hd s \<noteq> CHR ''-'' then Inr (f, s # args)
      else if s = ''--'' then Inr (f, args)
      else
        let flag = (if s ! 1 = CHR ''-'' then drop 2 s else drop 1 s) in
        if hd flag = CHR ''-'' \<or> hd flag = CHR ''='' then Inl (FlagSyntax s)
        else
          let name = takeWhile (\<lambda>c. c \<noteq> CHR ''='') flag in
          if name \<notin> {''addr'', ''timeout''} then Inl (if name = ''help'' \<or> name = ''h'' then FlagHelp else FlagUndefined name)
          else (case dropWhile (\<lambda>c. c \<noteq> CHR ''='') flag of
              _ # v \<Rightarrow> (case flag_Set duration name v f of Inl stop \<Rightarrow> Inl stop | Inr f' \<Rightarrow> flag_Parse duration f' args)
            | [] \<Rightarrow>
                (case args of
                   [] \<Rightarrow> Inl (FlagNeedsArgument name)
                 | v # args' \<Rightarrow> (case flag_Set duration name v f of Inl stop \<Rightarrow> Inl stop | Inr f' \<Rightarrow> flag_Parse duration f' args'))))"

definition flag_exit :: "flag_stop \<Rightarrow> ctl_run" where
  "flag_exit stop = \<lparr>runExit = (if stop = FlagHelp then 0 else 2), runOut = [], runErr = FlagText stop, runDialled = None, runCall = None\<rparr>"

definition raftctl :: "(bytes \<Rightarrow> int result) \<Rightarrow> ctl_env \<Rightarrow> bytes list \<Rightarrow> ctl_run" where
  "raftctl duration w argv =
     (case flag_Parse duration flag_defaults argv of
        Inl stop \<Rightarrow> flag_exit stop
      | Inr (f, args) \<Rightarrow> raftctl_main w (flagAddr f) args)"

section \<open>Exit codes\<close>

text \<open>The command lines \<open>raftctl\<close> accepts, and the call each stands for.\<close>

fun command_call :: "bytes list \<Rightarrow> call option" where
  "command_call [] = None"
| "command_call (c # args) =
     (if c = ''write'' then (case args of [k, v] \<Rightarrow> Some (CallWrite \<lparr>cwKey = k, cwValue = v\<rparr>) | _ \<Rightarrow> None)
      else if c = ''read'' then (case args of [k] \<Rightarrow> Some (CallRead \<lparr>crKey = k\<rparr>) | _ \<Rightarrow> None)
      else if c = ''status'' then Some CallStatus
      else None)"

fun call_answer :: "ctl_env \<Rightarrow> call \<Rightarrow> (json \<times> bool) result" where
  "call_answer w (CallWrite req) = map_sum id (\<lambda>r. (ClientWriteResponse_json r, ClientWriteResponse_GetSuccess r)) (ctlWrite w req)"
| "call_answer w (CallRead req) = map_sum id (\<lambda>r. (ClientReadResponse_json r, ClientReadResponse_GetSuccess r)) (ctlRead w req)"
| "call_answer w CallStatus = map_sum id (\<lambda>r. (StatusResponse_json r, True)) (ctlStatus w)"

lemma raftctl_main_eq:
  "raftctl_main w addr args =
     (if args = [] then usage_exit None
      else case ctlDial w (DialTarget addr) of
          Some err \<Rightarrow> fatal err (Some (DialTarget addr)) None
        | None \<Rightarrow>
            (case command_call args of
               None \<Rightarrow> usage_exit (Some (DialTarget addr))
             | Some c \<Rightarrow>
                 (case call_answer w c of
                    Inl err \<Rightarrow> fatal err (Some (DialTarget addr)) (Some c)
                  | Inr (v, success) \<Rightarrow> answered v success (Some (DialTarget addr)) c)))"
proof (cases args)
  case (Cons c as)
  have three: "length as = Suc (Suc 0) \<longleftrightarrow> (\<exists>k v. as = [k, v])" and two: "length as = Suc 0 \<longleftrightarrow> (\<exists>k. as = [k])"
    by (auto simp: length_Suc_conv)
  show ?thesis
    unfolding Cons by (auto simp: raftctl_main_def Let_def three two split: option.splits list.splits sum.splits)
qed (simp add: raftctl_main_def)

text \<open>What a shell script sees.\<close>

lemma raftctl_exit_zero:
  "runExit (raftctl_main w addr args) = 0 \<longleftrightarrow>
     args \<noteq> [] \<and> ctlDial w (DialTarget addr) = None \<and> (\<exists>c v. command_call args = Some c \<and> call_answer w c = Inr (v, True))"
  unfolding raftctl_main_eq
  by (auto simp: usage_exit_def fatal_def answered_def split: option.splits sum.splits prod.splits if_splits)

text \<open>
  The address in front of the command, in each of its forms. A command is not taken for a flag, and
  neither are the arguments behind it, whatever they start with.
\<close>

lemma flag_Parse_command: "command_call args \<noteq> None \<Longrightarrow> flag_Parse duration f args = Inr (f, args)"
  by (cases args) (auto split: if_splits)

lemma flag_Parse_addr:
  assumes "command_call args \<noteq> None"
  shows "flag_Parse duration f (''-addr'' # a # args) = Inr (f\<lparr>flagAddr := a\<rparr>, args)"
    and "flag_Parse duration f ((''--addr='' @ a) # args) = Inr (f\<lparr>flagAddr := a\<rparr>, args)"
  using flag_Parse_command [OF assms] by (simp_all add: flag_Set_def)

lemma raftctl_addr:
  assumes "command_call args \<noteq> None"
  shows "raftctl duration w args = raftctl_main w ''localhost:9001'' args"
    and "raftctl duration w (''-addr'' # a # args) = raftctl_main w a args"
    and "raftctl duration w ((''--addr='' @ a) # args) = raftctl_main w a args"
  using flag_Parse_command [OF assms] flag_Parse_addr [OF assms] by (simp_all add: raftctl_def flag_defaults_def)

text \<open>A run whose flags are wrong makes no call.\<close>

lemma raftctl_call:
  "runCall (raftctl duration w argv) = Some c \<Longrightarrow>
     \<exists>f args. flag_Parse duration flag_defaults argv = Inr (f, args) \<and> command_call args = Some c \<and> ctlDial w (DialTarget (flagAddr f)) = None"
  by (auto simp: raftctl_def flag_exit_def raftctl_main_eq usage_exit_def fatal_def answered_def
      split: sum.splits if_splits option.splits)


end
