(* ===== verification/Node_Life.thy ===== *)
theory Node_Life
  imports Raft_Client Json_Print
begin

text \<open>
  The life of a process: \<open>Start\<close>, \<open>run\<close> and \<open>Stop\<close> of \<open>internal/raft/node.go\<close>, and
  \<open>cmd/raftnode/main.go\<close>, which strings configuration, node and shutdown together. The network
  and the servers are parameters: which calls fail, and whether a graceful stop finishes in time.
\<close>

section \<open>Start\<close>

text \<open>
  What a running process has besides the state under the mutex: whether the two servers are up,
  the peers with an open connection, the goroutines started by \<open>Start\<close>, and whether \<open>Stop\<close> has
  run.
\<close>

datatype task = ServeGrpc | ServeHttp | RunLoop

record process =
  pnode :: Node
  grpcServer :: bool
  httpServer :: bool
  conns :: "bytes list"
  tasks :: "task list"
  stopped :: bool

definition new_process :: "Node \<Rightarrow> process" where
  "new_process n = \<lparr>pnode = n, grpcServer = False, httpServer = False, conns = [], tasks = [], stopped = False\<rparr>"

record net_env =
  netDial :: "bytes \<Rightarrow> error option"
  netListen :: "bytes \<Rightarrow> error option"

text \<open>The loop over the peers: a failing dial ends \<open>Start\<close> with the connections made so far.\<close>

fun Start_peers :: "net_env \<Rightarrow> Peer list \<Rightarrow> process \<Rightarrow> error option \<times> process" where
  "Start_peers w [] p = (None, p)"
| "Start_peers w (peer # ps) p =
     (case netDial w (DialTarget (peerAddress peer)) of
        Some err \<Rightarrow> (Some err, p)
      | None \<Rightarrow>
          let add = (\<lambda>ids. if peerID peer \<in> set ids then ids else ids @ [peerID peer]) in
          Start_peers w ps (p\<lparr>conns := add (conns p), pnode := (pnode p)\<lparr>clients := add (clients (pnode p))\<rparr>\<rparr>))"

definition Start :: "net_env \<Rightarrow> process \<Rightarrow> error option \<times> process" where
  "Start w p =
     (case Start_peers w (peers (pnode p)) p of
        (Some err, p1) \<Rightarrow> (Some err, p1)
      | (None, p1) \<Rightarrow>
          (case netListen w (grpcAddr (pnode p1)) of
             Some err \<Rightarrow> (Some err, p1)
           | None \<Rightarrow>
               let p2 = p1\<lparr>grpcServer := True, tasks := tasks p1 @ [ServeGrpc]\<rparr>;
                   p3 = (if httpAddr (pnode p2) \<noteq> [] then p2\<lparr>httpServer := True, tasks := tasks p2 @ [ServeHttp]\<rparr> else p2)
               in (None, p3\<lparr>tasks := tasks p3 @ [RunLoop]\<rparr>)))"

text \<open>The HTTP server's two routes; \<open>None\<close> is the mux's 404.\<close>

definition http_route :: "bytes \<Rightarrow> Node \<Rightarrow> bytes option" where
  "http_route path n =
     (if path = ''/metrics'' then ServeHTTP (metrics n)
      else if path = ''/healthz'' then Some (''ok'' @ [newline])
      else None)"

section \<open>The main loop\<close>

datatype wakeup = StopClosed | Ticked

definition run_begin :: "Node \<Rightarrow> int \<times> Node" where
  "run_begin n = (case time_Now n of (now, n1) \<Rightarrow> (now + heartbeatInterval n1, n1))"

text \<open>\<open>run\<close> on the wake-ups of its \<open>select\<close>, with the next heartbeat time as its variable.\<close>

fun run :: "wakeup list \<Rightarrow> int \<Rightarrow> Node \<Rightarrow> int \<times> Node" where
  "run [] h n = (h, n)"
| "run (StopClosed # ws) h n = (h, n)"
| "run (Ticked # ws) h n = (case run_tick h n of (h', n') \<Rightarrow> run ws h' n')"

section \<open>Stop\<close>

record stop_env =
  graceful :: bool
  ctxErr :: error
  shutdownErr :: "error option"
  connErr :: "bytes \<Rightarrow> error option"

definition keep_first :: "error option \<Rightarrow> error option \<Rightarrow> error option" where
  "keep_first err new = (case err of None \<Rightarrow> new | Some e \<Rightarrow> Some e)"

text \<open>
  The body of \<open>stopOnce.Do\<close>, in the order of the source: the gRPC server, the HTTP server, every
  connection, the store. The first error is returned, and no error keeps a later step from
  running.
\<close>

definition Stop :: "stop_env \<Rightarrow> process \<Rightarrow> error option \<times> process" where
  "Stop w p =
     (if stopped p then (None, p)
      else
        let p1 = p\<lparr>stopped := True\<rparr>;
            err1 = (if grpcServer p1 \<and> \<not> graceful w then Some (ctxErr w) else None);
            p2 = p1\<lparr>grpcServer := False\<rparr>;
            err2 = (if httpServer p2 then keep_first err1 (shutdownErr w) else err1);
            p3 = p2\<lparr>httpServer := False\<rparr>;
            err3 = fold (\<lambda>c e. keep_first e (connErr w c)) (conns p3) err2;
            p4 = p3\<lparr>conns := []\<rparr>
        in case on_store Close (pnode p4) of (r, n') \<Rightarrow>
             (keep_first err3 (case r of Inl e \<Rightarrow> Some e | Inr _ \<Rightarrow> None), p4\<lparr>pnode := n'\<rparr>))"

section \<open>The program\<close>

datatype message = ConfigError error | InitError error | StartError error | StopError error

record main_env =
  mainGetenv :: "bytes \<Rightarrow> bytes"
  mainOrder :: "(bytes \<times> bytes) list"
  mainFiles :: tables
  mainFaults :: "bool list"
  mainClock :: "int list"
  mainRands :: "int list"
  mainNet :: net_env
  mainLife :: "process \<Rightarrow> process"
  mainStop :: stop_env

text \<open>
  \<open>main\<close>: the exit code, the message on standard error, and the process at the end if there was
  one. \<open>mainLife\<close> is everything that happens between \<open>Start\<close> and the signal.
\<close>

definition raftnode_main :: "main_env \<Rightarrow> int \<times> message option \<times> process option" where
  "raftnode_main w =
     (case FromEnv (mainGetenv w) of
        Inl err \<Rightarrow> (1, Some (ConfigError err), None)
      | Inr cfg \<Rightarrow>
          (case New (OptionsFromConfig cfg) (mainOrder w) (mainFiles w) (mainFaults w) (mainClock w) (mainRands w) of
             (Inl err, _) \<Rightarrow> (1, Some (InitError err), None)
           | (Inr n, _) \<Rightarrow>
               (case Start (mainNet w) (new_process n) of
                  (Some err, p) \<Rightarrow> (1, Some (StartError err), Some p)
                | (None, p) \<Rightarrow>
                    (case Stop (mainStop w) (mainLife w p) of
                       (Some err, p') \<Rightarrow> (1, Some (StopError err), Some p')
                     | (None, p') \<Rightarrow> (0, None, Some p')))))"


section \<open>Starting\<close>

abbreviation add_id :: "Peer \<Rightarrow> bytes list \<Rightarrow> bytes list" where
  "add_id \<equiv> \<lambda>peer ids. if peerID peer \<in> set ids then ids else ids @ [peerID peer]"

lemma Start_peers_ok:
  "(\<And>peer. peer \<in> set ps \<Longrightarrow> netDial w (DialTarget (peerAddress peer)) = None) \<Longrightarrow>
     Start_peers w ps p =
       (None, p\<lparr>conns := fold add_id ps (conns p), pnode := (pnode p)\<lparr>clients := fold add_id ps (clients (pnode p))\<rparr>\<rparr>)"
proof (induction ps arbitrary: p)
  case (Cons peer ps)
  then have "netDial w (DialTarget (peerAddress peer)) = None"
    by simp
  with Cons show ?case
    by (simp add: Let_def del: fun_upd_apply)
qed simp

definition servers_down :: "process \<Rightarrow> task list \<times> bool \<times> bool \<times> tables \<times> bytes" where
  "servers_down p = (tasks p, grpcServer p, httpServer p, db (store (pnode p)), grpcAddr (pnode p))"

lemma Start_peers_frame: "servers_down (snd (Start_peers w ps p)) = servers_down p"
  by (induction ps arbitrary: p) (auto simp: Let_def servers_down_def split: option.splits)

lemma Start_peers_error:
  "case fst (Start_peers w ps p) of
     None \<Rightarrow> \<forall>peer \<in> set ps. netDial w (DialTarget (peerAddress peer)) = None
   | Some err \<Rightarrow> \<exists>peer \<in> set ps. netDial w (DialTarget (peerAddress peer)) = Some err"
proof (induction ps arbitrary: p)
  case (Cons peer ps)
  show ?case
  proof (cases "netDial w (DialTarget (peerAddress peer))")
    case None
    then obtain q where q: "Start_peers w (peer # ps) p = Start_peers w ps q"
      by (simp add: Let_def)
    show ?thesis
      unfolding q using Cons.IH [of q] None by (cases "fst (Start_peers w ps q)") auto
  qed simp
qed simp

lemma fold_add_id: "distinct (ids @ map peerID ps) \<Longrightarrow> fold add_id ps ids = ids @ map peerID ps"
  by (induction ps arbitrary: ids) auto

lemma Start_ok:
  assumes "\<And>peer. peer \<in> set (peers n) \<Longrightarrow> netDial w (DialTarget (peerAddress peer)) = None"
    and "netListen w (grpcAddr n) = None"
  shows "Start w (new_process n) =
    (None, \<lparr>pnode = Start_dial n\<lparr>clients := fold add_id (peers n) (clients n)\<rparr>, grpcServer = True, httpServer = (httpAddr n \<noteq> []),
       conns = fold add_id (peers n) [], tasks = ServeGrpc # (if httpAddr n \<noteq> [] then [ServeHttp] else []) @ [RunLoop], stopped = False\<rparr>)"
  using assms by (simp add: Start_def new_process_def Start_peers_ok Let_def Start_dial_def)

text \<open>
  \<open>Start\<close> of a new node whose peers can be dialled and whose address can be listened on
  reports no error, connects to every peer once and in order (as \<open>Start_dial\<close> does to the
  node), and starts the gRPC server, the HTTP server if it has an address, and the main loop.
  A failing dial or listener ends it with that error before any server or goroutine runs.
\<close>

theorem Start_outcomes:
  assumes "distinct (map peerID (peers n))" and "clients n = []"
  shows "case Start w (new_process n) of
      (None, p) \<Rightarrow> pnode p = Start_dial n \<and> clients (pnode p) = map peerID (peers n) \<and> conns p = map peerID (peers n)
        \<and> tasks p = ServeGrpc # (if httpAddr n \<noteq> [] then [ServeHttp] else []) @ [RunLoop]
        \<and> grpcServer p \<and> httpServer p = (httpAddr n \<noteq> []) \<and> \<not> stopped p
    | (Some err, p) \<Rightarrow> tasks p = [] \<and> \<not> grpcServer p \<and> \<not> httpServer p \<and> db (store (pnode p)) = db (store n)
        \<and> (netListen w (grpcAddr n) = Some err \<or> (\<exists>peer \<in> set (peers n). netDial w (DialTarget (peerAddress peer)) = Some err))"
proof (cases "(\<forall>peer \<in> set (peers n). netDial w (DialTarget (peerAddress peer)) = None) \<and> netListen w (grpcAddr n) = None")
  case True
  have "fold add_id (peers n) [] = map peerID (peers n)"
    using fold_add_id [of "[]" "peers n"] assms(1) by simp
  with True Start_ok [of n w] assms(2) show ?thesis
    by (simp add: Start_dial_def)
next
  case False
  obtain e p' where s: "Start_peers w (peers n) (new_process n) = (e, p')"
    by force
  with Start_peers_frame [where w = w and ps = "peers n" and p = "new_process n"] have p': "tasks p' = []" "\<not> grpcServer p'" "\<not> httpServer p'"
    "db (store (pnode p')) = db (store n)" "grpcAddr (pnode p') = grpcAddr n"
    by (simp_all add: servers_down_def new_process_def)
  have peers: "peers (pnode (new_process n)) = peers n"
    by (simp add: new_process_def)
  from Start_peers_error [where w = w and ps = "peers n" and p = "new_process n"] False p' s show ?thesis
    by (auto simp: Start_def peers split: option.splits)
qed

theorem Start_outcomes_witness:
  "\<exists>p. Start \<lparr>netDial = \<lambda>_. None, netListen = \<lambda>_. None\<rparr> (new_process (fresh_node ''n1'' three_peers)) = (None, p)
     \<and> conns p = [''n2'', ''n3''] \<and> tasks p = [ServeGrpc, ServeHttp, RunLoop]"
proof -
  let ?n = "fresh_node ''n1'' three_peers" and ?w = "\<lparr>netDial = \<lambda>_. None, netListen = \<lambda>_. None\<rparr>"
  have n: "distinct (map peerID (peers ?n))" "clients ?n = []" "map peerID (peers ?n) = [''n2'', ''n3'']" "httpAddr ?n \<noteq> []"
    by (simp_all add: fresh_node_def three_peers_def)
  obtain e p where s: "Start ?w (new_process ?n) = (e, p)"
    by force
  with Start_outcomes [OF n(1,2), of ?w] n(3,4) show ?thesis
    by (cases e) auto
qed

section \<open>Election timeouts\<close>

text \<open>
  C36: the election deadline lies at least the minimum timeout and less than the maximum timeout
  after the reading of the clock, at the minimum when the two are equal, whatever the random
  source yields.
\<close>

theorem election_deadline_bounds:
  assumes "clock n = now # later" and "0 \<le> electionMin n" and "electionMin n \<le> electionMax n" and "electionMax n < 2 ^ 63"
  shows "now + electionMin n \<le> electionDeadline (resetElectionDeadlineLocked n)
    \<and> (if electionMin n < electionMax n then electionDeadline (resetElectionDeadlineLocked n) < now + electionMax n
       else electionDeadline (resetElectionDeadlineLocked n) = now + electionMin n)"
proof -
  have w: "wrap64 (electionMax n - electionMin n) = electionMax n - electionMin n"
    using assms(2-4) by (intro wrap64_small) auto
  show ?thesis
  proof (cases "electionMin n < electionMax n")
    case False
    then have "wrap64 (electionMin n) = electionMin n" "electionMax n = electionMin n" "wrap64 0 = 0"
      using assms(2-4) wrap64_small [of 0] by (auto intro: wrap64_small)
    then show ?thesis
      using assms(1) by (simp add: resetElectionDeadlineLocked_def time_Now_def)
  next
    case True
    let ?k = "electionMax n - electionMin n"
    have jitter: "0 \<le> fst (rand_Int63n ?k n) \<and> fst (rand_Int63n ?k n) < ?k" and clk: "clock (snd (rand_Int63n ?k n)) = now # later"
      using True assms(1) by (auto simp: rand_Int63n_def split: list.splits)
    then have "wrap64 (electionMin n + fst (rand_Int63n ?k n)) = electionMin n + fst (rand_Int63n ?k n)"
      using assms(2,4) by (intro wrap64_small) linarith+
    with True jitter clk show ?thesis
      by (simp add: resetElectionDeadlineLocked_def w time_Now_def case_prod_beta Let_def)
  qed
qed

theorem election_deadline_bounds_witness:
  "let n = (fresh_node ''n1'' three_peers)\<lparr>clock := [1000], rands := [123456789012]\<rparr> in
   1000 + 500 * Millisecond \<le> electionDeadline (resetElectionDeadlineLocked n)
   \<and> electionDeadline (resetElectionDeadlineLocked n) < 1000 + 900 * Millisecond"
  using election_deadline_bounds [of "(fresh_node ''n1'' three_peers)\<lparr>clock := [1000], rands := [123456789012]\<rparr>" 1000 "[]"]
  by (simp add: fresh_node_def defaultElectionMin_def defaultElectionMax_def Millisecond_def)

section \<open>Stopping\<close>

lemma keep_first_None [simp]: "keep_first e e' = None \<longleftrightarrow> e = None \<and> e' = None"
  by (auto simp: keep_first_def split: option.splits)

lemma keep_first_fold: "fold (\<lambda>c e. keep_first e (f c)) cs e0 = None \<longleftrightarrow> e0 = None \<and> (\<forall>c \<in> set cs. f c = None)"
  by (induction cs arbitrary: e0) auto

lemma Close_closes: "Close s = (r, s') \<Longrightarrow> \<not> is_open s' \<and> db s' = db s"
  using db_Close [of s] by (auto simp: Close_def split: prod.splits)




section \<open>The whole program\<close>

lemma static_fields:
  "clients (refreshMetricsLocked n) = clients n" "grpcAddr (refreshMetricsLocked n) = grpcAddr n"
  "clients (resetElectionDeadlineLocked n) = clients n" "grpcAddr (resetElectionDeadlineLocked n) = grpcAddr n"
  by (auto simp: refreshMetricsLocked_def resetElectionDeadlineLocked_def Let_def time_Now_def rand_Int63n_def on_store_def
      split: prod.splits list.splits)

lemma New_addresses:
  assumes "New opts order T script clk rnd = (Inr n, T')"
  shows "grpcAddr n = optGRPCAddr opts" "clients n = []"
proof -
  obtain s T1 t v s1 a s2 where o: "Open order T script = (Inr s, T1)" and c: "CurrentTermVote s = (Inr (t, v), s1)"
    and l: "LastApplied s1 = (Inr a, s2)"
    using assms by (auto simp: New_def split: if_splits prod.splits sum.splits)
  obtain n0 where "n = refreshMetricsLocked (resetElectionDeadlineLocked n0)" "grpcAddr n0 = optGRPCAddr opts" "clients n0 = []"
    using assms by (auto simp: New_def o c l Let_def split: if_splits)
  then show "grpcAddr n = optGRPCAddr opts" "clients n = []"
    by (simp_all add: static_fields)
qed

text \<open>
  C34: from the environment to a running node. With a configuration the program accepts, a data
  directory that is new or left by an earlier run, a working database and a working network,
  \<open>main\<close> gets a node that is connected to exactly the configured peers, serves, and knows the
  term and vote it last stored; the exit code is 0 exactly when \<open>Stop\<close> then reports no error.
\<close>

theorem raftnode_main_runs:
  assumes "FromEnv (mainGetenv w) = Inr cfg" and "wf_tables (mainFiles w) \<or> mainFiles w = empty_tables"
    and "set (mainOrder w) = set defaults" and "mainFaults w = []"
    and "netDial (mainNet w) = (\<lambda>_. None)" and "netListen (mainNet w) = (\<lambda>_. None)"
  shows "\<exists>n T' p. New (OptionsFromConfig cfg) (mainOrder w) (mainFiles w) [] (mainClock w) (mainRands w) = (Inr n, T')
    \<and> Start (mainNet w) (new_process n) = (None, p)
    \<and> node_ok n \<and> nid n = cfgNodeID cfg \<and> role n = RoleFollower \<and> durable (mainFiles w) = Inr (currentTerm n, votedFor n)
    \<and> clients (pnode p) = map cfgPeerID (cfgPeers cfg) \<and> conns p = map cfgPeerID (cfgPeers cfg) \<and> RunLoop \<in> set (tasks p)
    \<and> raftnode_main w = (case Stop (mainStop w) (mainLife w p) of
        (None, p') \<Rightarrow> (0, None, Some p') | (Some err, p') \<Rightarrow> (1, Some (StopError err), Some p'))"
proof -
  let ?o = "OptionsFromConfig cfg"
  note ok = FromEnv_ok [OF assms(1)]
  have opts: "optNodeID ?o = cfgNodeID cfg" "optGRPCAddr ?o = cfgGRPCAddr cfg" "optDataDir ?o = cfgDataDir cfg"
    "map peerID (optPeers ?o) = map cfgPeerID (cfgPeers cfg)"
    by (simp_all add: OptionsFromConfig_def)
  obtain n T' where n: "New ?o (mainOrder w) (mainFiles w) [] (mainClock w) (mainRands w) = (Inr n, T')" "node_ok n"
    using New_ok [OF assms(2,3), of ?o "mainClock w" "mainRands w"] ok opts by auto
  note run = New_running [OF n(1) assms(3)] and addr = New_addresses [OF n(1)]
  have ids: "map peerID (peers n) = map cfgPeerID (cfgPeers cfg)" "distinct (map peerID (peers n))"
    using run opts ok by (auto simp: peers_ok_def)
  have "fold add_id (peers n) [] = map cfgPeerID (cfgPeers cfg)"
    using fold_add_id [of "[]" "peers n"] ids by simp
  moreover obtain p where p: "Start (mainNet w) (new_process n) = (None, p)"
    and "clients (pnode p) = fold add_id (peers n) (clients n)" "conns p = fold add_id (peers n) []" "RunLoop \<in> set (tasks p)"
    using Start_ok [of n "mainNet w"] assms(5,6) by auto
  ultimately have "clients (pnode p) = map cfgPeerID (cfgPeers cfg)" "conns p = map cfgPeerID (cfgPeers cfg)"
    using addr by simp_all
  moreover have "raftnode_main w = (case Stop (mainStop w) (mainLife w p) of
        (None, p') \<Rightarrow> (0, None, Some p') | (Some err, p') \<Rightarrow> (1, Some (StopError err), Some p'))"
    by (simp add: raftnode_main_def assms(1,4) n(1) p split: prod.splits option.splits)
  ultimately show ?thesis
    using n p run opts(1) \<open>RunLoop \<in> set (tasks p)\<close> by (intro exI [of _ n] exI [of _ T'] exI [of _ p]) auto
qed

text \<open>The defaults, a new data directory, and a stop in time.\<close>

definition quiet_life :: main_env where
  "quiet_life =
     \<lparr>mainGetenv = (\<lambda>_. []), mainOrder = defaults, mainFiles = empty_tables, mainFaults = [], mainClock = [], mainRands = [],
      mainNet = \<lparr>netDial = \<lambda>_. None, netListen = \<lambda>_. None\<rparr>, mainLife = (\<lambda>p. p),
      mainStop = \<lparr>graceful = True, ctxErr = TransportError, shutdownErr = None, connErr = (\<lambda>_. None)\<rparr>\<rparr>"

theorem raftnode_main_runs_witness:
  "\<exists>cfg n T'. FromEnv (mainGetenv quiet_life) = Inr cfg
     \<and> New (OptionsFromConfig cfg) defaults empty_tables [] [] [] = (Inr n, T') \<and> node_ok n \<and> nid n = ''node1''"
proof -
  obtain cfg where cfg: "FromEnv (\<lambda>_. []) = Inr cfg" "cfgNodeID cfg = ''node1''"
    using FromEnv_defaults by blast
  have w: "mainGetenv quiet_life = (\<lambda>_. [])" "mainOrder quiet_life = defaults" "mainFiles quiet_life = empty_tables"
    "mainFaults quiet_life = []" "mainClock quiet_life = []" "mainRands quiet_life = []"
    "netDial (mainNet quiet_life) = (\<lambda>_. None)" "netListen (mainNet quiet_life) = (\<lambda>_. None)"
    by (simp_all add: quiet_life_def)
  have "FromEnv (mainGetenv quiet_life) = Inr cfg"
    using cfg(1) w(1) by simp
  from raftnode_main_runs [OF this] cfg w show ?thesis
    by auto
qed

end
