(* ===== verification/Codec.thy ===== *)
theory Codec
  imports Raft_Prelude
begin

text \<open>
  \<open>internal/wire/codec.go\<close>: the codec gRPC uses for the messages. The protobuf library is not part
  of the repository: \<open>newproto.Marshal\<close> and \<open>newproto.Unmarshal\<close> are arguments, and so are the two
  directions of \<open>protoadapt.MessageV2Of\<close>, which shows a message of the old interface (all messages
  of \<open>raft.pb.go\<close>) as one of the new interface that shares its memory.
\<close>

section \<open>The codec\<close>

text \<open>A Go value of type \<open>any\<close>, by the cases of the type switches; other values are known by their type.\<close>

datatype ('new, 'old) any_value = NewMessage 'new | OldMessage 'old | OtherValue bytes

record ('new, 'old) proto_lib =
  newproto_Marshal :: "'new \<Rightarrow> bytes result"
  newproto_Unmarshal :: "bytes \<Rightarrow> 'new \<Rightarrow> error option \<times> 'new"
  MessageV2Of :: "'old \<Rightarrow> 'new"
  write_through :: "'old \<Rightarrow> 'new \<Rightarrow> 'old"

definition codec_Name :: bytes where
  "codec_Name = ''proto''"

definition codec_Marshal :: "('new, 'old) proto_lib \<Rightarrow> ('new, 'old) any_value \<Rightarrow> bytes result" where
  "codec_Marshal lib v =
     (case v of
        NewMessage msg \<Rightarrow> newproto_Marshal lib msg
      | OldMessage msg \<Rightarrow> newproto_Marshal lib (MessageV2Of lib msg)
      | OtherValue ty \<Rightarrow> Inl (CannotMarshal ty))"

text \<open>The value that was passed is changed in place; the result is the error and the value afterwards.\<close>

definition codec_Unmarshal :: "('new, 'old) proto_lib \<Rightarrow> bytes \<Rightarrow> ('new, 'old) any_value \<Rightarrow> error option \<times> ('new, 'old) any_value" where
  "codec_Unmarshal lib data v =
     (case v of
        NewMessage msg \<Rightarrow> map_prod id NewMessage (newproto_Unmarshal lib data msg)
      | OldMessage msg \<Rightarrow> map_prod id (\<lambda>m. OldMessage (write_through lib msg m)) (newproto_Unmarshal lib data (MessageV2Of lib msg))
      | OtherValue ty \<Rightarrow> (Some (CannotUnmarshal ty), v))"

section \<open>Round trip\<close>

text \<open>The message a value stands for.\<close>

fun content :: "('new, 'old) proto_lib \<Rightarrow> ('new, 'old) any_value \<Rightarrow> 'new option" where
  "content lib (NewMessage msg) = Some msg"
| "content lib (OldMessage msg) = Some (MessageV2Of lib msg)"
| "content lib (OtherValue ty) = None"

text \<open>
  What protobuf documents: a message that can be written is read back, into any message of its type,
  whatever that held before; and what is written through the adapter is what it then shows.
\<close>

definition proto_laws :: "('new, 'old) proto_lib \<Rightarrow> bool" where
  "proto_laws lib \<longleftrightarrow>
     (\<forall>m data t. newproto_Marshal lib m = Inr data \<longrightarrow> newproto_Unmarshal lib data t = (None, m))
     \<and> (\<forall>msg m. MessageV2Of lib (write_through lib msg m) = m)"

text \<open>
  What one side of a connection marshals, the other side unmarshals to the same message, whatever
  interface either uses; and a value that is no message is refused on both sides and left alone.
\<close>

lemma codec_roundtrip:
  assumes "proto_laws lib" and "codec_Marshal lib v = Inr data" and "content lib t \<noteq> None"
  shows "fst (codec_Unmarshal lib data t) = None \<and> content lib (snd (codec_Unmarshal lib data t)) = content lib v"
  using assms by (cases v; cases t) (auto simp: proto_laws_def codec_Marshal_def codec_Unmarshal_def)

lemma codec_refuses:
  assumes "content lib v = None"
  shows "\<exists>ty. v = OtherValue ty \<and> codec_Marshal lib v = Inl (CannotMarshal ty) \<and> codec_Unmarshal lib data v = (Some (CannotUnmarshal ty), v)"
  using assms by (cases v) (auto simp: codec_Marshal_def codec_Unmarshal_def)

text \<open>The laws can hold, e.g. for messages that are byte strings already.\<close>

definition raw_lib :: "(bytes, bytes) proto_lib" where
  "raw_lib = \<lparr>newproto_Marshal = Inr, newproto_Unmarshal = (\<lambda>data _. (None, data)), MessageV2Of = id, write_through = (\<lambda>_ m. m)\<rparr>"

lemma codec_roundtrip_example:
  "codec_Marshal raw_lib (OldMessage ''abc'') = Inr ''abc'' \<and> snd (codec_Unmarshal raw_lib ''abc'' (OldMessage [])) = OldMessage ''abc''"
proof -
  have "proto_laws raw_lib"
    by (simp add: proto_laws_def raw_lib_def)
  from codec_roundtrip [OF this, of "OldMessage ''abc''" "''abc''" "OldMessage []"] show ?thesis
    by (simp add: codec_Marshal_def codec_Unmarshal_def raw_lib_def)
qed

end
