(* ===== verification/Log_History.thy ===== *)
theory Log_History
  imports Cluster Replication
begin

text \<open>
  The argument for agreement, on logs alone: what is known of the logs of leaders, of the logs
  voters had when they voted, and of what servers have acknowledged, and why an entry that a
  majority has acknowledged in the term of its leader is in the log of every later leader. The
  facts are kept by five kinds of events; \<open>Consistency\<close> shows that the program's steps are such
  events.
\<close>

section \<open>Logs\<close>

type_synonym log = "u64 \<Rightarrow> (u64 \<times> bytes) option"

definition agree :: "log \<Rightarrow> log \<Rightarrow> u64 \<Rightarrow> bool" where
  "agree X Y i \<longleftrightarrow> (\<forall>j \<le> i. X j = Y j)"

lemma agree_refl [simp]: "agree X X i"
  by (simp add: agree_def)

lemma agree_sym: "agree X Y i \<Longrightarrow> agree Y X i"
  by (simp add: agree_def)

lemma agree_trans: "agree X Y i \<Longrightarrow> agree Y Z i \<Longrightarrow> agree X Z i"
  by (simp add: agree_def)

lemma agree_mono: "agree X Y i \<Longrightarrow> j \<le> i \<Longrightarrow> agree X Y j"
  by (auto simp: agree_def intro: order_trans)

lemma agree_at: "agree X Y i \<Longrightarrow> j \<le> i \<Longrightarrow> X j = Y j"
  by (simp add: agree_def)

text \<open>The last index and term of a log, as the votes compare them.\<close>

definition last_is :: "log \<Rightarrow> u64 \<Rightarrow> u64 \<Rightarrow> bool" where
  "last_is X l t \<longleftrightarrow> spans X 0 l \<and> (if l = 0 then t = 0 else \<exists>c. X l = Some (t, c))"

lemma last_is_entry: "last_is X l t \<Longrightarrow> 0 < l \<Longrightarrow> \<exists>c. X l = Some (t, c)"
  by (auto simp: last_is_def)

lemma last_is_spans: "last_is X l t \<Longrightarrow> spans X 0 l"
  by (simp add: last_is_def)

section \<open>What is remembered of the past\<close>

text \<open>
  \<open>llog t\<close> is the log of the leader of term \<open>t\<close>, as long as it led; \<open>clog s t\<close> the log of \<open>s\<close> when it
  became a candidate of term \<open>t\<close>; \<open>wlog v t\<close> the log of \<open>v\<close> when it voted in term \<open>t\<close>; \<open>early\<close> holds the
  votes \<open>(v, t, c)\<close> given before term \<open>t\<close> had a leader; \<open>(v, t, i) \<in> acked\<close> says that \<open>v\<close> has told the
  leader of term \<open>t\<close> that it holds the leader's log up to index \<open>i\<close>.
\<close>

record 's history =
  llog :: "u64 \<Rightarrow> log"
  clog :: "'s \<Rightarrow> u64 \<Rightarrow> log"
  wlog :: "'s \<Rightarrow> u64 \<Rightarrow> log"
  early :: "('s \<times> u64 \<times> 's) set"
  acked :: "('s \<times> u64 \<times> u64) set"

text \<open>Every entry stems from the log of the leader of its term, with all entries before it.\<close>

definition matched :: "(u64 \<Rightarrow> log) \<Rightarrow> u64 set \<Rightarrow> log \<Rightarrow> bool" where
  "matched H E X \<longleftrightarrow> X 0 = None \<and> (\<forall>j m c. X j = Some (m, c) \<longrightarrow> m \<in> E \<and> agree X (H m) j)"

definition terms_upto :: "log \<Rightarrow> u64 \<Rightarrow> bool" where
  "terms_upto X t \<longleftrightarrow> (\<forall>j m c. X j = Some (m, c) \<longrightarrow> m \<le> t)"

text \<open>The log of a voter is not ahead of the candidate's.\<close>

definition not_ahead :: "log \<Rightarrow> log \<Rightarrow> bool" where
  "not_ahead W C \<longleftrightarrow> (\<exists>lw tw lc tc. last_is W lw tw \<and> last_is C lc tc \<and> (tw < tc \<or> tw = tc \<and> lw \<le> lc))"

text \<open>
  A log still holds what was acknowledged in term \<open>t\<close> up to \<open>i\<close>, unless the leader of a later term
  that satisfies \<open>P\<close> disagrees with it.
\<close>

definition holds_below :: "(u64 \<Rightarrow> log) \<Rightarrow> u64 set \<Rightarrow> (u64 \<Rightarrow> bool) \<Rightarrow> log \<Rightarrow> u64 \<Rightarrow> u64 \<Rightarrow> bool" where
  "holds_below H E P X t i \<longleftrightarrow> agree X (H t) i \<or> (\<exists>w \<in> E. t < w \<and> P w \<and> \<not> agree (H w) (H t) i)"

text \<open>A sound log of a server in term \<open>t\<close>.\<close>

definition sound :: "(u64 \<Rightarrow> log) \<Rightarrow> u64 set \<Rightarrow> u64 \<Rightarrow> log \<Rightarrow> bool" where
  "sound H E t X \<longleftrightarrow> matched H E X \<and> terms_upto X t \<and> (\<exists>l. spans X 0 l)"

text \<open>A leader's log began as the log of a candidate, which had older entries only.\<close>

definition began :: "u64 \<Rightarrow> log \<Rightarrow> log \<Rightarrow> bool" where
  "began u C X \<longleftrightarrow> (\<exists>l t. last_is C l t \<and> agree C X l \<and> (t < u \<or> l = 0))"

definition leaders_ok :: "'s history \<Rightarrow> (u64 \<times> 's) set \<Rightarrow> bool" where
  "leaders_ok G L \<longleftrightarrow> (\<forall>(u, a) \<in> L. sound (llog G) (fst ` L) u (llog G u) \<and> began u (clog G a u) (llog G u))"

definition votes_ok :: "('s set \<Rightarrow> bool) \<Rightarrow> 's history \<Rightarrow> (u64 \<times> 's) set \<Rightarrow> ('s \<Rightarrow> u64) \<Rightarrow> bool" where
  "votes_ok Q G L tm \<longleftrightarrow> (\<forall>(u, a) \<in> L. \<exists>A. Q A \<and> (\<forall>v \<in> A. (v, u, a) \<in> early G))
     \<and> (\<forall>(v, u, c) \<in> early G. u \<le> tm v \<and> not_ahead (wlog G v u) (clog G c u) \<and> matched (llog G) (fst ` L) (wlog G v u))"

text \<open>What an acknowledgement \<open>(v, t, i)\<close> is worth, now and at the votes \<open>v\<close> gave later.\<close>

definition ack_ok :: "'s history \<Rightarrow> u64 set \<Rightarrow> ('s \<Rightarrow> u64) \<Rightarrow> ('s \<Rightarrow> log) \<Rightarrow> 's \<Rightarrow> u64 \<Rightarrow> u64 \<Rightarrow> bool" where
  "ack_ok G E tm lg v t i \<longleftrightarrow> t \<le> tm v \<and> t \<in> E \<and> (\<forall>j. 0 < j \<and> j \<le> i \<longrightarrow> llog G t j \<noteq> None)
     \<and> (\<forall>j \<le> i. holds_below (llog G) E (\<lambda>w. w \<le> tm v) (lg v) t j)
     \<and> (\<forall>u c. (v, u, c) \<in> early G \<and> t < u \<longrightarrow> (\<forall>j \<le> i. holds_below (llog G) E (\<lambda>w. w < u) (wlog G v u) t j))"

definition acks_ok :: "'s history \<Rightarrow> (u64 \<times> 's) set \<Rightarrow> ('s \<Rightarrow> u64) \<Rightarrow> ('s \<Rightarrow> log) \<Rightarrow> bool" where
  "acks_ok G L tm lg \<longleftrightarrow> (\<forall>(v, t, i) \<in> acked G. ack_ok G (fst ` L) tm lg v t i)"

definition agreement :: "('s set \<Rightarrow> bool) \<Rightarrow> 's history \<Rightarrow> (u64 \<times> 's) set \<Rightarrow> ('s \<Rightarrow> u64) \<Rightarrow> ('s \<Rightarrow> log) \<Rightarrow> bool" where
  "agreement Q G L tm lg \<longleftrightarrow> leaders_ok G L \<and> votes_ok Q G L tm \<and> acks_ok G L tm lg
     \<and> (\<forall>v. sound (llog G) (fst ` L) (tm v) (lg v))"

text \<open>An entry of its leader's own term that a quorum has acknowledged.\<close>

definition committed :: "('s set \<Rightarrow> bool) \<Rightarrow> 's history \<Rightarrow> (u64 \<times> 's) set \<Rightarrow> u64 \<Rightarrow> u64 \<Rightarrow> bool" where
  "committed Q G L i t \<longleftrightarrow> t \<in> fst ` L \<and> (\<exists>c. llog G t i = Some (t, c)) \<and> (\<exists>A. Q A \<and> (\<forall>v \<in> A. \<exists>j \<ge> i. (v, t, j) \<in> acked G))"

section \<open>Leader completeness\<close>

lemma matchedD: "matched H E X \<Longrightarrow> X j = Some (m, c) \<Longrightarrow> m \<in> E \<and> agree X (H m) j"
  unfolding matched_def by blast

text \<open>Log Matching: logs with an entry of the same term at an index agree up to it.\<close>

lemma matched_agree:
  assumes "matched H E X" and "matched H E Y" and "X i = Some (t, c)" and "Y i = Some (t, d)"
  shows "agree X Y i"
  using matchedD [OF assms(1,3)] matchedD [OF assms(2,4)] agree_sym agree_trans by blast

lemma spans_unique: "spans X a l \<Longrightarrow> spans X a l' \<Longrightarrow> l' = l"
  using spans_iff [of X a l l'] spans_iff [of X a l' l] spans_iff [of X a l l] spans_iff [of X a l' l'] spans_le [of X a l] spans_le [of X a l']
  by (metis order_antisym_conv order_le_less)

lemma last_is_unique: "last_is X l t \<Longrightarrow> last_is X l' t' \<Longrightarrow> l' = l \<and> t' = t"
  using spans_unique [of X 0 l l'] by (auto simp: last_is_def split: if_splits)

lemma last_term_le:
  assumes "last_is X l t" and "matched (llog G) (fst ` L) X" and "leaders_ok G L" and "X i = Some (m, c)"
  shows "m \<le> t"
proof -
  have "0 < i" "i \<le> l"
    using spans_iff [OF last_is_spans [OF assms(1)], of i] assms(4) by auto
  then have "0 < l"
    by simp
  then obtain d where "X l = Some (t, d)"
    using last_is_entry [OF assms(1)] by auto
  then have t: "t \<in> fst ` L" "agree X (llog G t) l"
    using matchedD [OF assms(2)] by auto
  then have "llog G t i = Some (m, c)"
    using agree_at [OF t(2) \<open>i \<le> l\<close>] assms(4) by simp
  with t(1) assms(3) show ?thesis
    by (fastforce simp: leaders_ok_def sound_def began_def terms_upto_def)
qed

context quorum_system
begin

lemma leader_completeness:
  assumes L: "leaders_ok G L" and V: "votes_ok quorum G L tm" and A: "acks_ok G L tm lg"
    and com: "committed quorum G L i t"
  shows "(u, a) \<in> L \<Longrightarrow> t < u \<Longrightarrow> agree (llog G u) (llog G t) i"
proof (induction "unat u" arbitrary: u a rule: less_induct)
  case less
  let ?E = "fst ` L"
  obtain c0 where t: "t \<in> ?E" "llog G t i = Some (t, c0)"
    using com by (auto simp: committed_def)
  obtain a0 where t0: "(t, a0) \<in> L"
    using t(1) by auto
  then obtain l0 where l0: "spans (llog G t) 0 l0" "terms_upto (llog G t) t"
    using L by (auto simp: leaders_ok_def sound_def began_def)
  have i: "0 < i"
    using spans_iff [OF l0(1), of i] t(2) by simp
  obtain AQ where AQ: "quorum AQ" "\<forall>v \<in> AQ. \<exists>j \<ge> i. (v, t, j) \<in> acked G"
    using com by (auto simp: committed_def)
  obtain VQ where VQ: "quorum VQ" "\<forall>v \<in> VQ. (v, u, a) \<in> early G"
    using V less.prems(1) by (fastforce simp: votes_ok_def)
  obtain v j where v: "(v, u, a) \<in> early G" "(v, t, j) \<in> acked G" "i \<le> j"
    using intersect [OF AQ(1) VQ(1)] AQ(2) VQ(2) by blast
  let ?W = "wlog G v u" and ?C = "clog G a u"
  have below: "agree (llog G w) (llog G t) i" if "w \<in> ?E" "t < w" "w < u" for w
    using less.hyps [of w] that by (auto simp: word_less_nat_alt)
  have "ack_ok G ?E tm lg v t j"
    using A v(2) by (auto simp: acks_ok_def)
  then have "holds_below (llog G) ?E (\<lambda>w. w < u) ?W t i"
    using v(1,3) less.prems(2) unfolding ack_ok_def by blast
  with below have W: "agree ?W (llog G t) i"
    by (auto simp: holds_below_def)
  have "not_ahead ?W ?C" and mW: "matched (llog G) ?E ?W"
    using V v(1) by (auto simp: votes_ok_def)
  then obtain lw tw lc tc where lw: "last_is ?W lw tw" and lc: "last_is ?C lc tc" and up: "tw < tc \<or> tw = tc \<and> lw \<le> lc"
    by (auto simp: not_ahead_def)
  obtain lc' tc' where "last_is ?C lc' tc'" "agree ?C (llog G u) lc'" "tc' < u \<or> lc' = 0"
    using L less.prems(1) by (fastforce simp: leaders_ok_def sound_def began_def)
  moreover have "lc' = lc \<and> tc' = tc"
    by (rule last_is_unique [OF lc \<open>last_is ?C lc' tc'\<close>])
  ultimately have C: "agree ?C (llog G u) lc" "tc < u \<or> lc = 0"
    by auto
  have Wi: "?W i = Some (t, c0)"
    using agree_at [OF W order_refl] t(2) by simp
  then have iw: "i \<le> lw"
    using spans_iff [OF last_is_spans [OF lw], of i] by simp
  have mU: "matched (llog G) ?E (llog G u)"
    using L less.prems(1) by (fastforce simp: leaders_ok_def sound_def began_def)
  have tw: "t \<le> tw"
    by (rule last_term_le [OF lw mW L Wi])
  have "0 < lw"
    using i iw by simp
  then obtain cw where Wl: "?W lw = Some (tw, cw)"
    using last_is_entry [OF lw] by blast
  have "lc \<noteq> 0"
    using up tw lc \<open>0 < lw\<close> i iw by (auto simp: last_is_def)
  then obtain cc where Cl: "?C lc = Some (tc, cc)"
    using last_is_entry [OF lc] by (auto simp: word_greater_zero_iff)
  then have Ul: "llog G u lc = Some (tc, cc)"
    using agree_at [OF C(1) order_refl] by simp
  show ?case
  proof (cases "tw = tc")
    case True
    then have "lw \<le> lc"
      using up by simp
    have "agree ?W (llog G tc) lw" "agree (llog G u) (llog G tc) lc"
      using matchedD [OF mW Wl] matchedD [OF mU Ul] True by auto
    then have "agree (llog G u) ?W i"
      using agree_mono iw \<open>lw \<le> lc\<close> agree_sym agree_trans order_trans by meson
    with W show ?thesis
      by (blast intro: agree_trans)
  next
    case False
    then have "t < tc" "tc < u" "tc \<in> ?E"
      using up tw C(2) \<open>lc \<noteq> 0\<close> matchedD [OF mU Ul] by auto
    then have m: "agree (llog G tc) (llog G t) i"
      by (intro below)
    have U: "agree (llog G u) (llog G tc) lc"
      using matchedD [OF mU Ul] by simp
    have "i \<le> lc"
    proof (rule ccontr)
      assume "\<not> i \<le> lc"
      then have "llog G t lc = llog G tc lc"
        using agree_at [OF m, of lc] by simp
      also have "\<dots> = Some (tc, cc)"
        using agree_at [OF U order_refl] Ul by simp
      finally show False
        using l0(2) \<open>t < tc\<close> by (fastforce simp: terms_upto_def)
    qed
    with U m show ?thesis
      by (blast intro: agree_trans agree_mono)
  qed
qed

end

section \<open>Histories that grow\<close>

text \<open>The log of the leader of term \<open>m\<close> only grows, by entries of term \<open>m\<close>.\<close>

definition grows :: "u64 \<Rightarrow> log \<Rightarrow> log \<Rightarrow> bool" where
  "grows m X X' \<longleftrightarrow> (\<forall>j. X j \<noteq> None \<longrightarrow> agree X X' j) \<and> (\<forall>j. X j = None \<longrightarrow> X' j = None \<or> (\<exists>c. X' j = Some (m, c)))"

definition later :: "(u64 \<Rightarrow> log) \<Rightarrow> u64 set \<Rightarrow> (u64 \<Rightarrow> log) \<Rightarrow> u64 set \<Rightarrow> bool" where
  "later H E H' E' \<longleftrightarrow> E \<subseteq> E' \<and> (\<forall>m \<in> E. grows m (H m) (H' m))"

lemma grows_refl [simp]: "grows m X X"
  by (auto simp: grows_def)

lemma grows_agree: "grows m X X' \<Longrightarrow> X j \<noteq> None \<Longrightarrow> agree X X' j"
  by (simp add: grows_def)

lemma later_refl [simp]: "later H E H E"
  by (simp add: later_def)

lemma later_entry: "later H E H' E' \<Longrightarrow> m \<in> E \<Longrightarrow> H m j \<noteq> None \<Longrightarrow> H' m j = H m j"
  using agree_at [OF grows_agree, of m "H m" "H' m" j j] by (auto simp: later_def)

lemma matched_later:
  assumes "matched H E X" and "later H E H' E'"
  shows "matched H' E' X"
proof -
  have "m \<in> E' \<and> agree X (H' m) j" if X: "X j = Some (m, c)" for j m c
  proof -
    have m: "m \<in> E" "agree X (H m) j"
      using matchedD [OF assms(1) X] by auto
    then have "agree (H m) (H' m) j"
      using assms(2) X agree_at [OF m(2) order_refl] by (intro grows_agree) (auto simp: later_def)
    with m assms(2) show ?thesis
      by (auto simp: later_def intro: agree_trans)
  qed
  with assms(1) show ?thesis
    by (simp add: matched_def)
qed

text \<open>Where the earlier log has an entry, a disagreement is not undone by growth.\<close>

lemma disagree_later:
  assumes "\<not> agree (H w) (H t) j" and "w \<in> E" and "t \<in> E" and "later H E H' E'" and "0 < j \<longrightarrow> H t j \<noteq> None"
    and "sound H' E' t (H' t)" and "t < w" and "H w 0 = None" and "H t 0 = None"
  shows "\<not> agree (H' w) (H' t) j"
proof
  assume a: "agree (H' w) (H' t) j"
  have "0 < j"
    using assms(1,8,9) unfolding word_neq_0_conv [symmetric] by (auto simp: agree_def)
  then have t: "agree (H t) (H' t) j" "H t j \<noteq> None"
    using assms(3-5) grows_agree by (auto simp: later_def)
  then obtain m c where e: "H' t j = Some (m, c)"
    using agree_at [OF t(1) order_refl] by (cases "H t j") auto
  then have m: "m \<le> t" "H' w j = Some (m, c)"
    using assms(6) agree_at [OF a order_refl] by (auto simp: sound_def terms_upto_def)
  have "H w j \<noteq> None"
    using assms(2,4,7) m by (fastforce simp: later_def grows_def)
  then have "agree (H w) (H' w) j"
    using assms(2,4) grows_agree by (auto simp: later_def)
  with a t(1) assms(1) show False
    by (blast intro: agree_trans agree_sym)
qed

lemma sound_0: "sound H E t X \<Longrightarrow> X 0 = None"
  by (simp add: sound_def matched_def)

lemma holds_below_later:
  assumes "holds_below H E P X t j" and "later H E H' E'" and "t \<in> E" and "0 < j \<longrightarrow> H t j \<noteq> None"
    and "\<And>m. m \<in> E \<Longrightarrow> sound H E m (H m)" and "sound H' E' t (H' t)"
  shows "holds_below H' E' P X t j"
proof (cases "agree X (H t) j")
  case True
  have "agree (H t) (H' t) j"
  proof (cases "j = 0")
    case True
    then show ?thesis
      using sound_0 [OF assms(5) [OF assms(3)]] sound_0 [OF assms(6)] by (simp add: agree_def)
  next
    case False
    then show ?thesis
      using assms(2-4) grows_agree by (auto simp: later_def word_neq_0_conv)
  qed
  with True show ?thesis
    by (auto simp: holds_below_def intro: agree_trans)
next
  case False
  with assms(1) obtain w where w: "w \<in> E" "t < w" "P w" "\<not> agree (H w) (H t) j"
    by (auto simp: holds_below_def)
  then have "\<not> agree (H' w) (H' t) j"
    using assms sound_0 by (intro disagree_later [OF w(4)]) blast+
  moreover have "w \<in> E'"
    using w(1) assms(2) by (auto simp: later_def)
  ultimately show ?thesis
    using w(2,3) unfolding holds_below_def by blast
qed

lemma holds_below_log: "holds_below H E P X t j \<Longrightarrow> (agree X (H t) j \<Longrightarrow> agree Y (H t) j) \<Longrightarrow> holds_below H E P Y t j"
  unfolding holds_below_def by blast

lemma holds_below_mono: "holds_below H E P X t j \<Longrightarrow> (\<And>w. w \<in> E \<Longrightarrow> P w \<Longrightarrow> P' w) \<Longrightarrow> holds_below H E P' X t j"
  unfolding holds_below_def by blast

section \<open>The events of the protocol\<close>

lemma agreementD:
  assumes "agreement Q G L tm lg"
  shows "leaders_ok G L" and "votes_ok Q G L tm" and "acks_ok G L tm lg" and "sound (llog G) (fst ` L) (tm v) (lg v)"
  using assms by (auto simp: agreement_def)

lemma leaders_sound: "leaders_ok G L \<Longrightarrow> m \<in> fst ` L \<Longrightarrow> sound (llog G) (fst ` L) m (llog G m)"
  by (auto simp: leaders_ok_def)

lemma leaders_okI:
  "(\<And>m. m \<in> fst ` L \<Longrightarrow> sound (llog G) (fst ` L) m (llog G m)) \<Longrightarrow> (\<And>u a. (u, a) \<in> L \<Longrightarrow> began u (clog G a u) (llog G u)) \<Longrightarrow>
     leaders_ok G L"
  unfolding leaders_ok_def by force

lemma ack_okI:
  "t \<le> tm v \<Longrightarrow> t \<in> E \<Longrightarrow> (\<And>j. 0 < j \<Longrightarrow> j \<le> i \<Longrightarrow> llog G t j \<noteq> None) \<Longrightarrow>
   (\<And>j. j \<le> i \<Longrightarrow> holds_below (llog G) E (\<lambda>w. w \<le> tm v) (lg v) t j) \<Longrightarrow>
   (\<And>u c j. (v, u, c) \<in> early G \<Longrightarrow> t < u \<Longrightarrow> j \<le> i \<Longrightarrow> holds_below (llog G) E (\<lambda>w. w < u) (wlog G v u) t j) \<Longrightarrow>
   ack_ok G E tm lg v t i"
  unfolding ack_ok_def by blast

lemma terms_upto_mono: "terms_upto X t \<Longrightarrow> t \<le> t' \<Longrightarrow> terms_upto X t'"
  by (auto simp: terms_upto_def intro: order_trans)

text \<open>Terms advance.\<close>

lemma agreement_bump:
  assumes "agreement Q G L tm lg" and up: "\<And>v. tm v \<le> tm' v"
  shows "agreement Q G L tm' lg"
proof -
  have "ack_ok G E tm' lg v t i" if "ack_ok G E tm lg v t i" for E v t i
    using that up [of v] unfolding ack_ok_def by (blast intro: order_trans holds_below_mono)
  then show ?thesis
    using assms unfolding agreement_def votes_ok_def acks_ok_def sound_def
    by (blast intro: order_trans terms_upto_mono)
qed

text \<open>A server becomes a candidate of a term nobody has voted for it in.\<close>

lemma agreement_candidate:
  assumes "agreement Q G L tm lg" and "(u, c) \<notin> L" and "\<And>v. (v, u, c) \<notin> early G"
  shows "agreement Q (G\<lparr>clog := (clog G)(c := (clog G c)(u := X))\<rparr>) L tm lg"
  using assms unfolding agreement_def leaders_ok_def votes_ok_def acks_ok_def ack_ok_def
  by (auto simp: fun_upd_apply split: if_splits)

text \<open>A vote, given before its term has a leader.\<close>

lemma agreement_vote:
  assumes ag: "agreement Q G L tm lg" and new: "tm v \<notin> fst ` L" "\<And>c'. (v, tm v, c') \<notin> early G"
    and up: "not_ahead (lg v) (clog G c (tm v))"
  shows "agreement Q (G\<lparr>wlog := (wlog G)(v := (wlog G v)(tm v := lg v)), early := insert (v, tm v, c) (early G)\<rparr>) L tm lg"
    (is "agreement Q ?G L tm lg")
proof -
  note A = agreementD [OF ag]
  have "ack_ok ?G (fst ` L) tm lg v' t i" if ack: "ack_ok G (fst ` L) tm lg v' t i" for v' t i
  proof -
    have votes: "holds_below (llog ?G) (fst ` L) (\<lambda>w. w < u) (wlog ?G v' u) t j"
      if "(v', u, c') \<in> early ?G" "t < u" "j \<le> i" for u c' j
    proof (cases "(v', u, c') \<in> early G")
      case True
      then have "wlog ?G v' u = wlog G v' u"
        using new(2) by auto
      with True that(2,3) ack show ?thesis
        unfolding ack_ok_def by auto
    next
      case False
      then have "v' = v" "u = tm v"
        using that(1) by auto
      moreover have "holds_below (llog G) (fst ` L) (\<lambda>w. w \<le> tm v) (lg v) t j"
        using ack that(3) \<open>v' = v\<close> by (auto simp: ack_ok_def)
      then have "holds_below (llog G) (fst ` L) (\<lambda>w. w < tm v) (lg v) t j"
        by (rule holds_below_mono) (use new(1) in \<open>metis order.not_eq_order_implies_strict\<close>)
      ultimately show ?thesis
        by simp
    qed
    show ?thesis
      by (rule ack_okI [OF _ _ _ _ votes]) (use ack in \<open>auto simp: ack_ok_def\<close>)
  qed
  with A(3) have "acks_ok ?G L tm lg"
    by (auto simp: acks_ok_def)
  moreover have "votes_ok Q ?G L tm"
    using A(2) A(4) [of v] up new(2) unfolding votes_ok_def sound_def by (auto 4 3)
  moreover have "leaders_ok ?G L"
    using A(1) by (simp add: leaders_ok_def)
  ultimately show ?thesis
    using A(4) by (simp add: agreement_def)
qed

text \<open>An acknowledgement in the current term.\<close>

lemma agreement_ack:
  assumes ag: "agreement Q G L tm lg" and t: "tm v \<in> fst ` L" and a: "agree (lg v) (llog G (tm v)) i"
    and e: "\<And>j. 0 < j \<Longrightarrow> j \<le> i \<Longrightarrow> llog G (tm v) j \<noteq> None"
  shows "agreement Q (G\<lparr>acked := insert (v, tm v, i) (acked G)\<rparr>) L tm lg"
proof -
  note A = agreementD [OF ag]
  have "ack_ok G (fst ` L) tm lg v (tm v) i"
    using t e agree_mono [OF a] A(2) unfolding ack_ok_def holds_below_def votes_ok_def by (auto 4 3 dest: leD)
  then show ?thesis
    using A unfolding agreement_def acks_ok_def leaders_ok_def votes_ok_def ack_ok_def by auto
qed

text \<open>What is kept of votes and acknowledgements when the logs of leaders grow.\<close>

lemma sound_later: "sound H E t X \<Longrightarrow> later H E H' E' \<Longrightarrow> sound H' E' t X"
  using matched_later by (auto simp: sound_def)

lemma ack_ok_later:
  assumes ack: "ack_ok G E tm lg v t i" and lt: "later (llog G) E (llog G') E'"
    and snd: "\<And>m. m \<in> E \<Longrightarrow> sound (llog G) E m (llog G m)" "\<And>m. m \<in> E' \<Longrightarrow> sound (llog G') E' m (llog G' m)"
    and same: "early G' = early G" "wlog G' = wlog G"
    and own: "\<And>j. j \<le> i \<Longrightarrow> holds_below (llog G') E' (\<lambda>w. w \<le> tm v) (lg v) t j \<Longrightarrow> holds_below (llog G') E' (\<lambda>w. w \<le> tm v) (lg' v) t j"
  shows "ack_ok G' E' tm lg' v t i"
proof -
  have t: "t \<in> E" "t \<in> E'"
    using ack lt by (auto simp: ack_ok_def later_def)
  have e: "0 < j \<longrightarrow> llog G t j \<noteq> None" if "j \<le> i" for j
    using ack that by (simp add: ack_ok_def)
  have hb: "holds_below (llog G') E' P X t j" if "holds_below (llog G) E P X t j" "j \<le> i" for P X j
    by (rule holds_below_later [OF that(1) lt t(1) e [OF that(2)] snd(1) snd(2) [OF t(2)]])
  have "llog G' t j \<noteq> None" if "0 < j" "j \<le> i" for j
    using e [OF that(2)] that(1) later_entry [OF lt t(1)] by auto
  moreover have "holds_below (llog G') E' (\<lambda>w. w \<le> tm v) (lg' v) t j" if "j \<le> i" for j
    using ack that by (intro own hb) (auto simp: ack_ok_def)
  moreover have "holds_below (llog G') E' (\<lambda>w. w < u) (wlog G' v u) t j" if "(v, u, c) \<in> early G'" "t < u" "j \<le> i" for u c j
    using ack that unfolding same by (intro hb) (auto simp: ack_ok_def)
  ultimately show ?thesis
    using ack t(2) unfolding ack_ok_def by blast
qed

lemma votes_ok_later:
  assumes "votes_ok Q G L tm" and "later (llog G) (fst ` L) (llog G') (fst ` L')" and "early G' = early G" "wlog G' = wlog G" "clog G' = clog G"
    and "\<And>u a. (u, a) \<in> L' - L \<Longrightarrow> \<exists>A. Q A \<and> (\<forall>v \<in> A. (v, u, a) \<in> early G)"
  shows "votes_ok Q G' L' tm"
proof -
  have "\<exists>A. Q A \<and> (\<forall>v \<in> A. (v, u, a) \<in> early G)" if "(u, a) \<in> L'" for u a
    using assms(1,6) that by (cases "(u, a) \<in> L") (auto simp: votes_ok_def)
  with assms(1-5) show ?thesis
    unfolding votes_ok_def by (auto intro: matched_later)
qed

text \<open>A candidate wins a term that had no leader.\<close>

lemma agreement_win:
  assumes ag: "agreement Q G L tm lg" and new: "tm a \<notin> fst ` L" and c: "clog G a (tm a) = lg a"
    and q: "Q A" "\<And>v. v \<in> A \<Longrightarrow> (v, tm a, a) \<in> early G"
  shows "agreement Q (G\<lparr>llog := (llog G)(tm a := lg a)\<rparr>) (insert (tm a, a) L) tm lg"
    (is "agreement Q ?G ?L tm lg")
proof -
  note A = agreementD [OF ag]
  have lt: "later (llog G) (fst ` L) (llog ?G) (fst ` ?L)"
    using new by (force simp: later_def)
  have snd: "sound (llog ?G) (fst ` ?L) m (llog ?G m)" if "m \<in> fst ` ?L" for m
  proof (cases "m = tm a")
    case True
    with sound_later [OF A(4) lt, of a] show ?thesis
      by simp
  next
    case False
    with that sound_later [OF leaders_sound [OF A(1)] lt, of m] show ?thesis
      by auto
  qed
  obtain l where l: "spans (lg a) 0 l"
    using A(4) by (auto simp: sound_def)
  have "began (tm a) (lg a) (lg a)"
  proof (cases "l = 0")
    case True
    with l show ?thesis
      unfolding began_def last_is_def by auto
  next
    case False
    then have "lg a l \<noteq> None"
      using spans_iff [OF l, of l] by (simp add: word_neq_0_conv)
    then obtain t d where t: "lg a l = Some (t, d)"
      by auto
    then have "t \<in> fst ` L" "t \<le> tm a"
      using A(4) [of a] by (auto simp: sound_def terms_upto_def dest: matchedD)
    then have "t < tm a"
      using new by (metis order.not_eq_order_implies_strict)
    with t l False show ?thesis
      unfolding began_def last_is_def by (intro exI [of _ l] exI [of _ t]) auto
  qed
  then have "began u (clog ?G b u) (llog ?G u)" if "(u, b) \<in> ?L" for u b
    using that A(1) c new by (cases "(u, b) \<in> L") (force simp: leaders_ok_def)+
  with snd have "leaders_ok ?G ?L"
    by (rule leaders_okI)
  moreover have "votes_ok Q ?G ?L tm"
    by (rule votes_ok_later [OF A(2) lt]) (use q in auto)
  moreover have "acks_ok ?G ?L tm lg"
    using A(3) ack_ok_later [OF _ lt leaders_sound [OF A(1)] snd] unfolding acks_ok_def by auto
  ultimately show ?thesis
    using sound_later [OF A(4) lt] by (simp add: agreement_def)
qed

text \<open>A leader appends an entry of its term to its log.\<close>

lemma spans_upd:
  assumes "spans X 0 l" and "l < l + 1"
  shows "spans (X(l + 1 \<mapsto> e)) 0 (l + 1)"
proof (rule spansI)
  fix i
  have "i \<le> l + 1 \<longleftrightarrow> i = l + 1 \<or> i \<le> l"
    using assms(2) u64_Suc_le [of l i] by (auto simp: not_le order_less_le)
  moreover have "0 < l + 1"
    using assms(2) le_less_trans word_zero_le by blast
  ultimately show "(X(l + 1 \<mapsto> e)) i \<noteq> None \<longleftrightarrow> 0 < i \<and> i \<le> l + 1"
    using spans_iff [OF assms(1), of i] by auto
qed simp

lemma append_grows:
  assumes "spans X 0 l" and "l < l + 1"
  shows "grows m X (X(l + 1 \<mapsto> (m, c)))"
  using assms spans_iff [OF assms(1)] by (auto simp: grows_def agree_def)

lemma agreement_append:
  assumes ag: "agreement Q G L tm lg" and lead: "tm a \<in> fst ` L" "llog G (tm a) = lg a"
    and l: "spans (lg a) 0 l" "l < l + 1" and X_def: "X = (lg a)(l + 1 \<mapsto> (tm a, c))"
  shows "agreement Q (G\<lparr>llog := (llog G)(tm a := X)\<rparr>) L tm (lg(a := X))"
    (is "agreement Q ?G L tm ?lg")
proof -
  note A = agreementD [OF ag]
  have old: "lg a (l + 1) = None"
    using spans_iff [OF l(1), of "l + 1"] l(2) by auto
  have "grows (tm a) (lg a) X"
    unfolding X_def by (rule append_grows [OF l])
  then have keep: "agree (lg a) X j" if "lg a j \<noteq> None" for j
    using that by (rule grows_agree)
  from \<open>grows (tm a) (lg a) X\<close> have lt: "later (llog G) (fst ` L) (llog ?G) (fst ` L)"
    using lead(2) by (auto simp: later_def)
  have X: "sound (llog ?G) (fst ` L) (tm a) X"
  proof -
    have m: "matched (llog ?G) (fst ` L) (lg a)" and t: "terms_upto (lg a) (tm a)"
      using sound_later [OF A(4) lt, of a] by (auto simp: sound_def)
    have "m \<in> fst ` L \<and> agree X (llog ?G m) j" if "X j = Some (m, d)" for j m d
    proof (cases "j = l + 1")
      case True
      with that lead(1) show ?thesis
        by (simp add: X_def)
    next
      case False
      with that have e: "lg a j = Some (m, d)"
        by (simp add: X_def)
      with keep [of j] matchedD [OF m e] show ?thesis
        by (blast intro: agree_trans agree_sym)
    qed
    moreover have "0 < l + 1"
      using l(2) le_less_trans word_zero_le by blast
    ultimately have "matched (llog ?G) (fst ` L) X"
      using m by (auto simp: matched_def X_def)
    moreover have "terms_upto X (tm a)"
      using t by (auto simp: terms_upto_def X_def)
    moreover note spans_upd [OF l]
    ultimately show ?thesis
      by (auto simp: sound_def X_def)
  qed
  have snd: "sound (llog ?G) (fst ` L) m (llog ?G m)" if "m \<in> fst ` L" for m
    using X sound_later [OF leaders_sound [OF A(1) that] lt] by simp
  have "began u (clog G b u) (llog ?G u)" if "began u (clog G b u) (llog G u)" for u b
  proof (cases "u = tm a")
    case True
    from that obtain k t where k: "last_is (clog G b u) k t" "agree (clog G b u) (lg a) k" "t < u \<or> k = 0"
      using True lead(2) by (auto simp: began_def)
    have "agree (lg a) X k"
    proof (cases "k = 0")
      case True
      with old show ?thesis
        using \<open>grows (tm a) (lg a) X\<close> sound_0 [OF A(4), of a] sound_0 [OF X] by (auto simp: agree_def)
    next
      case False
      then have "lg a k \<noteq> None"
        using last_is_entry [OF k(1)] agree_at [OF k(2) order_refl] by (auto simp: word_neq_0_conv)
      then show ?thesis
        by (rule keep)
    qed
    with k True show ?thesis
      unfolding began_def by (auto intro: agree_trans)
  qed (use that in simp)
  moreover have "began u (clog G b u) (llog G u)" if "(u, b) \<in> L" for u b
    using that A(1) by (auto simp: leaders_ok_def)
  ultimately have "began u (clog ?G b u) (llog ?G u)" if "(u, b) \<in> L" for u b
    using that by simp
  with snd have "leaders_ok ?G L"
    by (rule leaders_okI)
  moreover have "votes_ok Q ?G L tm"
    by (rule votes_ok_later [OF A(2) lt]) auto
  moreover have "ack_ok ?G (fst ` L) tm ?lg v t i" if ack: "ack_ok G (fst ` L) tm lg v t i" for v t i
  proof (rule ack_ok_later [OF ack lt leaders_sound [OF A(1)] snd])
    fix j
    assume j: "j \<le> i" and h: "holds_below (llog ?G) (fst ` L) (\<lambda>w. w \<le> tm v) (lg v) t j"
    have "agree X (llog ?G t) j" if "v = a" "agree (lg a) (llog ?G t) j"
    proof (cases "j = 0")
      case True
      then show ?thesis
        using agree_at [OF that(2), of 0] sound_0 [OF A(4), of a] sound_0 [OF X] by (auto simp: agree_def)
    next
      case False
      have "lg a j \<noteq> None"
        using ack j False later_entry [OF lt, of t j] agree_at [OF that(2) order_refl]
        by (auto simp: ack_ok_def word_neq_0_conv)
      then show ?thesis
        using keep that(2) by (blast intro: agree_trans agree_sym)
    qed
    then have "agree (?lg v) (llog ?G t) j" if "agree (lg v) (llog ?G t) j"
      using that by (cases "v = a") auto
    with h show "holds_below (llog ?G) (fst ` L) (\<lambda>w. w \<le> tm v) (?lg v) t j"
      by (rule holds_below_log)
  qed auto
  with A(3) have "acks_ok ?G L tm ?lg"
    using A(3) by (auto simp: acks_ok_def)
  moreover have "sound (llog ?G) (fst ` L) (tm v) (?lg v)" for v
    using X sound_later [OF A(4) lt] by simp
  ultimately show ?thesis
    unfolding agreement_def by blast
qed

text \<open>
  A server takes over its leader's log up to an index, when its own log agrees with the
  leader's up to \<open>q\<close> and ends there or differs at the next index.
\<close>

definition log_upto :: "u64 \<Rightarrow> log \<Rightarrow> log" where
  "log_upto s X = (\<lambda>j. if j \<le> s then X j else None)"

lemma log_upto_agree [simp]: "j \<le> s \<Longrightarrow> agree (log_upto s X) X j"
  by (auto simp: agree_def log_upto_def)

lemma sound_log_upto:
  assumes "sound H E t X" and "s = 0 \<or> X s \<noteq> None"
  shows "sound H E t (log_upto s X)" and "spans (log_upto s X) 0 s"
proof -
  obtain l where l: "spans X 0 l"
    using assms(1) by (auto simp: sound_def)
  have sl: "s \<le> l"
    using assms(2) spans_iff [OF l, of s] by auto
  show sp: "spans (log_upto s X) 0 s"
    by (rule spansI) (use spans_iff [OF l] sl in \<open>auto simp: log_upto_def\<close>)
  have m: "matched H E X" "terms_upto X t"
    using assms(1) by (auto simp: sound_def)
  have "m \<in> E \<and> agree (log_upto s X) (H m) j" if "log_upto s X j = Some (m, c)" for j m c
  proof -
    have "X j = Some (m, c)" "j \<le> s"
      using that by (auto simp: log_upto_def split: if_splits)
    with matchedD [OF m(1)] log_upto_agree [of j s X] show ?thesis
      by (blast intro: agree_trans)
  qed
  moreover have "log_upto s X 0 = None"
    using sound_0 [OF assms(1)] by (simp add: log_upto_def)
  ultimately have "matched H E (log_upto s X)"
    by (simp add: matched_def)
  moreover have "terms_upto (log_upto s X) t"
    using m(2) by (auto simp: terms_upto_def log_upto_def)
  ultimately show "sound H E t (log_upto s X)"
    using sp by (auto simp: sound_def)
qed

definition takes :: "log \<Rightarrow> u64 \<Rightarrow> log \<Rightarrow> log \<Rightarrow> bool" where
  "takes H s X Y \<longleftrightarrow> Y = log_upto s H \<and> (s = 0 \<or> H s \<noteq> None)
     \<and> (\<exists>q \<le> s. agree X H q \<and> (spans X 0 q \<or> q < q + 1 \<and> X (q + 1) \<noteq> H (q + 1)))"

lemma agreement_accept:
  assumes ag: "agreement Q G L tm lg" and t: "tm v \<in> fst ` L" and takes: "takes (llog G (tm v)) s (lg v) Y"
  shows "agreement Q G L tm (lg(v := Y))"
    (is "agreement Q G L tm ?lg")
proof -
  note A = agreementD [OF ag]
  let ?Y = "log_upto s (llog G (tm v))"
  have Y_def: "Y = ?Y" and s: "s = 0 \<or> llog G (tm v) s \<noteq> None"
    using takes by (simp_all add: takes_def)
  obtain q where q: "q \<le> s" "agree (lg v) (llog G (tm v)) q"
    and stop: "spans (lg v) 0 q \<or> q < q + 1 \<and> lg v (q + 1) \<noteq> llog G (tm v) (q + 1)"
    using takes by (auto simp: takes_def)
  have Y: "sound (llog G) (fst ` L) (tm v) ?Y"
    by (rule sound_log_upto [OF leaders_sound [OF A(1) t] s])
  have hb: "holds_below (llog G) (fst ` L) (\<lambda>w. w \<le> tm v) ?Y t' j"
    if ack: "ack_ok G (fst ` L) tm lg v t' i" and j: "j \<le> i" for t' i j
  proof -
    have h: "holds_below (llog G) (fst ` L) (\<lambda>w. w \<le> tm v) (lg v) t' j" and t': "t' \<le> tm v"
      and e: "0 < j \<longrightarrow> llog G t' j \<noteq> None"
      using ack j by (auto simp: ack_ok_def)
    show ?thesis
    proof (cases "agree (lg v) (llog G t') j \<and> \<not> j \<le> q")
      case False
      have "agree ?Y (llog G t') j" if "agree (lg v) (llog G t') j"
      proof -
        have "j \<le> q"
          using that False by simp
        then have "agree ?Y (llog G (tm v)) j" "agree (llog G (tm v)) (lg v) j"
          using q by (auto intro: agree_mono agree_sym order_trans)
        with that show ?thesis
          by (blast intro: agree_trans)
      qed
      with h show ?thesis
        by (rule holds_below_log)
    next
      case True
      then have "q < j" "0 < j"
        by (auto simp: not_le intro: le_less_trans [OF word_zero_le])
      have "lg v j \<noteq> None"
        using True e \<open>0 < j\<close> agree_at [of "lg v" "llog G t'" j j] by simp
      then have "\<not> spans (lg v) 0 q"
        using True spans_iff [of "lg v" 0 q j] by auto
      then have c: "lg v (q + 1) \<noteq> llog G (tm v) (q + 1)" "q + 1 \<le> j"
        using stop u64_Suc_le [OF \<open>q < j\<close>] by auto
      then have d: "llog G t' (q + 1) \<noteq> llog G (tm v) (q + 1)"
        using True agree_at [of "lg v" "llog G t'" j "q + 1"] by simp
      then have "t' \<noteq> tm v"
        by auto
      moreover have "\<not> agree (llog G (tm v)) (llog G t') j"
        using d c(2) by (auto simp: agree_def)
      ultimately show ?thesis
        using t t' unfolding holds_below_def by (metis order.not_eq_order_implies_strict order_refl)
    qed
  qed
  have "ack_ok G (fst ` L) tm ?lg v' t' i" if ack: "ack_ok G (fst ` L) tm lg v' t' i" for v' t' i
  proof (cases "v' = v")
    case True
    show ?thesis
      by (rule ack_okI) (use ack hb [of t' i] True Y_def in \<open>auto simp: ack_ok_def\<close>)
  next
    case False
    with ack show ?thesis
      by (simp add: ack_ok_def)
  qed
  with A(3) have "acks_ok G L tm ?lg"
    by (auto simp: acks_ok_def)
  with A Y Y_def show ?thesis
    by (simp add: agreement_def)
qed

end
