(* ===== verification/Node_Log.thy ===== *)
theory Node_Log
  imports Raft_Snapshot Replication Log_History
begin

text \<open>
  What each operation of a node does to its log when the node takes no snapshots
  (\<open>snapshotThreshold = 0\<close>): only \<open>AppendEntries\<close> and \<open>Write\<close> change it, the first towards the log
  of the leader that sent the request, the second by one entry at its end.
\<close>

section \<open>The threshold never changes\<close>

lemma threshold_on_store: "on_store m n = (r, n') \<Longrightarrow> snapshotThreshold n' = snapshotThreshold n"
  by (auto elim: on_storeE)

lemma threshold_store_only: "store_only n n' \<Longrightarrow> snapshotThreshold n' = snapshotThreshold n"
  by (auto simp: store_only_def)

lemma threshold_reset [simp]: "snapshotThreshold (resetElectionDeadlineLocked n) = snapshotThreshold n"
  by (auto simp: resetElectionDeadlineLocked_def rand_Int63n_def time_Now_def Let_def split: prod.splits list.splits)

lemma threshold_refresh [simp]: "snapshotThreshold (refreshMetricsLocked n) = snapshotThreshold n"
  by (auto simp: refreshMetricsLocked_def split: prod.splits dest!: threshold_on_store)

lemma threshold_snd_store [simp]: "snapshotThreshold (snd (on_store m n)) = snapshotThreshold n"
  by (cases "on_store m n") (auto dest: threshold_on_store)

lemma threshold_stepDown [simp]: "snapshotThreshold (stepDownLocked t l n) = snapshotThreshold n"
  by (simp add: stepDownLocked_def Let_def)

lemma threshold_inc_rpc [simp]: "snapshotThreshold (inc_rpc m r n) = snapshotThreshold n"
  by (simp add: inc_rpc_def)

lemma threshold_apply_loop: "apply_loop n = (b, n') \<Longrightarrow> snapshotThreshold n' = snapshotThreshold n"
  by (erule apply_loop_invariant [where P = "\<lambda>m. snapshotThreshold m = snapshotThreshold n"]) (auto dest: threshold_on_store)

lemma threshold_compact [simp]: "snapshotThreshold (compactIfNeededLocked n) = snapshotThreshold n"
  using compactIfNeeded_cases [of n] threshold_store_only by blast

lemma threshold_applyCommitted [simp]: "snapshotThreshold (applyCommittedLocked n) = snapshotThreshold n"
  by (auto simp: applyCommittedLocked_def split: prod.splits dest: threshold_apply_loop)

lemma threshold_advance_loop: "snapshotThreshold (snd (advance_loop k i left n)) = snapshotThreshold n"
proof (induction left arbitrary: i n)
  case (Suc left)
  obtain r n1 where t: "on_store (Term i) n = (r, n1)"
    by force
  from Suc threshold_on_store [OF t] show ?case
    by (auto simp: t split: sum.splits)
qed simp

lemma threshold_advanceCommit [simp]: "snapshotThreshold (advanceCommitLocked n) = snapshotThreshold n"
proof -
  obtain r n1 where t: "on_store LastIndexAndTerm n = (r, n1)"
    by force
  have "snapshotThreshold n2 = snapshotThreshold n1" if "advance_loop k i left n1 = (b, n2)" for k i left b n2
    using threshold_advance_loop [of k i left n1] that by simp
  with threshold_on_store [OF t] show ?thesis
    by (auto simp: advanceCommitLocked_def t Let_def simp del: advance_loop.simps split: sum.splits prod.splits)
qed

lemma threshold_becomeLeader_peers [simp]: "snapshotThreshold (fold (becomeLeader_peer i) ps n) = snapshotThreshold n"
  by (induction ps arbitrary: n) (simp_all add: becomeLeader_peer_def)

lemma threshold_becomeLeader [simp]: "snapshotThreshold (becomeLeaderLocked n) = snapshotThreshold n"
  by (auto simp: becomeLeaderLocked_def Let_def split: prod.splits sum.splits dest!: threshold_on_store)

lemma threshold_begin: "startElection_begin n = (e, n') \<Longrightarrow> snapshotThreshold n' = snapshotThreshold n"
  by (auto simp: startElection_begin_def Let_def split: if_splits prod.splits sum.splits dest!: threshold_on_store)

lemma threshold_RequestVote: "RequestVote req n = (r, n') \<Longrightarrow> snapshotThreshold n' = snapshotThreshold n"
  by (auto simp: RequestVote_def Let_def split: if_splits prod.splits sum.splits dest!: threshold_on_store)

lemma threshold_vote_reply: "startElection_reply resp e n = (e', n') \<Longrightarrow> snapshotThreshold n' = snapshotThreshold n"
  by (auto simp: startElection_reply_def Let_def split: if_splits)

lemma threshold_append_end:
  "append_reject x n = (r, n') \<Longrightarrow> snapshotThreshold n' = snapshotThreshold n"
  "append_error e n = (r, n') \<Longrightarrow> snapshotThreshold n' = snapshotThreshold n"
  "append_commit req m n = (r, n') \<Longrightarrow> snapshotThreshold n' = snapshotThreshold n"
  by (auto simp: append_reject_def append_error_def append_commit_def Let_def split: if_splits prod.splits sum.splits dest!: threshold_on_store)

lemma threshold_AppendEntries_rpc: "AppendEntries_rpc req n = (r, n') \<Longrightarrow> snapshotThreshold n' = snapshotThreshold n"
  by (auto simp: AppendEntries_rpc_def Let_def split: if_splits prod.splits sum.splits
      dest!: threshold_on_store threshold_append_end threshold_store_only [OF store_only_append_store])

lemma threshold_prepare: "replicatePeer_prepare p n = (a, n') \<Longrightarrow> snapshotThreshold n' = snapshotThreshold n"
  by (auto simp: replicatePeer_prepare_def Let_def split: if_splits prod.splits sum.splits dest!: threshold_on_store)

lemma threshold_append_reply: "replicatePeer_append_reply p t sent resp n = (b, n') \<Longrightarrow> snapshotThreshold n' = snapshotThreshold n"
  by (auto simp: replicatePeer_append_reply_def Let_def split: if_splits prod.splits sum.splits dest!: threshold_on_store)

lemma threshold_Write_begin: "Write_begin req n = (w, n') \<Longrightarrow> snapshotThreshold n' = snapshotThreshold n"
  by (auto simp: Write_begin_def Let_def split: if_splits prod.splits sum.splits dest!: threshold_on_store)


section \<open>Operations that leave the log alone\<close>

abbreviation same_files_log :: "Node \<Rightarrow> Node \<Rightarrow> bool" where
  "same_files_log n n' \<equiv> same_log (db (store n)) (db (store n'))"

lemma same_log_trans: "same_log T T' \<Longrightarrow> same_log T' T'' \<Longrightarrow> same_log T T''"
  by (simp add: same_log_def)

lemma same_log_db: "gf n \<Longrightarrow> db (store n') = db (store n) \<Longrightarrow> same_files_log n n'"
  by (simp add: same_log_refl gap_free_wf)

lemma compact_off: "snapshotThreshold n = 0 \<Longrightarrow> compactIfNeededLocked n = n"
  by (simp add: compactIfNeededLocked_def)

lemma applyCommitted_same_log:
  assumes "snapshotThreshold n = 0" and "wf_tables (db (store n))"
  shows "same_files_log n (applyCommittedLocked n)"
proof -
  obtain b m where a: "apply_loop n = (b, m)"
    by force
  have "same_files_log n m"
    by (rule apply_loop_same_log [OF a assms(2)])
  with threshold_apply_loop [OF a] assms(1) show ?thesis
    by (simp add: applyCommittedLocked_def a compact_off refresh_store)
qed

lemma advanceCommit_same_log:
  assumes "snapshotThreshold n = 0" and "wf_tables (db (store n))"
  shows "same_files_log n (advanceCommitLocked n)"
proof -
  obtain r n1 where t: "on_store LastIndexAndTerm n = (r, n1)"
    by force
  have n1: "db (store n1) = db (store n)" "snapshotThreshold n1 = 0"
    using reads_db(1) [OF t] threshold_on_store [OF t] assms(1) by simp_all
  have adv: "db (store n2) = db (store n) \<and> snapshotThreshold n2 = 0" if "advance_loop k i left n1 = (b, n2)" for k i left b n2
    using db_advance_loop [of k i left n1] threshold_advance_loop [of k i left n1] that n1 by simp
  have "same_files_log n (applyCommittedLocked n2)" if "db (store n2) = db (store n)" "snapshotThreshold n2 = 0" for n2
    using applyCommitted_same_log [OF that(2)] assms(2) that(1) by simp
  with adv n1 assms(2) show ?thesis
    by (auto simp: advanceCommitLocked_def t Let_def same_log_refl simp del: advance_loop.simps split: sum.splits prod.splits)
qed

lemma SaveTermVote_same_log:
  assumes "on_store (SaveTermVote t v) n = (r, n')" and "wf_tables (db (store n))"
  shows "same_files_log n n'"
proof -
  have "snap_pos (save_term_vote t v T) = snap_pos T" for T
    by (simp add: snap_pos_def save_term_vote_def meta_uint_other split: sum.splits)
  moreover have "log_entries (save_term_vote t v T) = log_entries T" for T
    by (simp add: save_term_vote_def)
  ultimately show ?thesis
    using on_store_db [OF assms(1) implements_SaveTermVote] assms(2) by (auto simp: same_log_def)
qed

lemma vote_base_same_log: "wf_tables (db (store n)) \<Longrightarrow> same_files_log n (vote_base req n)"
  by (simp add: vote_base_def stepDown_same_log same_log_refl)

lemma grant_vote_same_log: "grant_vote c n = (r, n') \<Longrightarrow> wf_tables (db (store n)) \<Longrightarrow> same_files_log n n'"
  by (auto simp: grant_vote_def Let_def refresh_store inc_rpc_def split: prod.splits sum.splits dest!: SaveTermVote_same_log)

lemma RequestVote_same_log:
  assumes "RequestVote req n = (r, n')" and "wf_tables (db (store n))"
  shows "same_files_log n n'"
proof (cases "RequestVoteRequest_GetTerm req < currentTerm n")
  case True
  with assms show ?thesis
    by (auto simp: RequestVote_def inc_rpc_def same_log_refl)
next
  case False
  obtain q m where q: "on_store LastIndexAndTerm (vote_base req n) = (q, m)"
    by force
  have m: "same_files_log n m"
    using vote_base_same_log [OF assms(2)] reads_db(1) [OF q] by simp
  then have "wf_tables (db (store m))"
    by (simp add: same_log_def)
  with m assms(1) RequestVote_cases [OF False q] show ?thesis
    by (auto simp: inc_rpc_def split: sum.splits if_splits dest!: grant_vote_same_log intro: same_log_trans)
qed

lemma begin_same_log:
  assumes "startElection_begin n = (e, n')" and "wf_tables (db (store n))"
  shows "same_files_log n n'"
proof -
  let ?n1 = "n\<lparr>role := RoleCandidate, currentTerm := currentTerm n + 1, votedFor := nid n, leaderID := []\<rparr>"
  obtain x n2 where s: "on_store (SaveTermVote (currentTerm n + 1) (nid n)) ?n1 = (x, n2)"
    by force
  then have "same_files_log n n2"
    using SaveTermVote_same_log [OF s] assms(2) by simp
  moreover obtain y n3 where t: "on_store LastIndexAndTerm n2 = (y, n3)"
    by force
  ultimately have "same_files_log n n3"
    using reads_db(1) [OF t] by simp
  with \<open>same_files_log n n2\<close> assms s t show ?thesis
    by (auto simp: startElection_begin_def Let_def refresh_store same_log_refl split: sum.splits if_splits)
qed

lemma vote_reply_same_log:
  assumes "startElection_reply resp e n = (e', n')" and "wf_tables (db (store n))"
  shows "same_files_log n n'"
  using assms by (auto simp: startElection_reply_def Let_def stepDown_same_log same_log_refl split: if_splits)

lemma last_index_frame:
  "on_store LastIndexAndTerm n = (r, n') \<Longrightarrow> db (store n') = db (store n) \<and> snapshotThreshold n' = snapshotThreshold n"
  using reads_db(1) threshold_on_store by blast

lemma append_reply_same_log:
  assumes "replicatePeer_append_reply p t sent resp n = (b, n')" and "wf_tables (db (store n))" and "snapshotThreshold n = 0"
  shows "same_files_log n n'"
proof -
  have "same_files_log n (advanceCommitLocked m)" if "db (store m) = db (store n)" "snapshotThreshold m = 0" for m
    using advanceCommit_same_log [OF that(2)] assms(2) that(1) by simp
  with assms show ?thesis
    by (auto simp: replicatePeer_append_reply_def Let_def stepDown_same_log same_log_refl refresh_store
        split: if_splits prod.splits sum.splits dest!: last_index_frame)
qed


section \<open>The follower's handler\<close>

lemma AppendEntries_rpc_follow:
  "AppendEntries_rpc req n =
     (if AppendEntriesRequest_GetTerm req < currentTerm n then append_reject ''stale_term'' n
      else
        case on_store SnapshotIndexTerm (follow (AppendEntriesRequest_GetTerm req) (AppendEntriesRequest_GetLeaderId req) n) of
          (Inl err, n3) \<Rightarrow> append_error err n3
        | (Inr (snapIndex, _), n3) \<Rightarrow>
            if AppendEntriesRequest_GetPrevLogIndex req < snapIndex then
              let n4 = inc_rpc ''AppendEntries'' ''behind_snapshot'' n3 in
              (Inr \<lparr>aerTerm = currentTerm n4, aerSuccess = False, aerMatchIndex = snapIndex\<rparr>, n4)
            else
              (case on_store (Term (AppendEntriesRequest_GetPrevLogIndex req)) n3 of
                 (Inl err, n4) \<Rightarrow> append_error err n4
               | (Inr (prevTerm, ok), n4) \<Rightarrow>
                   if \<not> ok \<or> prevTerm \<noteq> AppendEntriesRequest_GetPrevLogTerm req
                     then append_reject ''log_mismatch'' n4
                   else
                     (case collect_incoming snapIndex (AppendEntriesRequest_GetEntries req)
                             (AppendEntriesRequest_GetPrevLogIndex req) of (matchIdx, incoming) \<Rightarrow>
                      case append_store incoming n4 of
                        (Inl err, n5) \<Rightarrow> append_error err n5
                      | (Inr _, n5) \<Rightarrow> append_commit req matchIdx n5)))"
  by (simp add: AppendEntries_rpc_def follow_def Let_def)

text \<open>Where the log is cut: the entries before agree in their terms, the one there does not.\<close>

lemma find_conflict_cut:
  assumes "find_conflict es n = (r, n')"
  shows "db (store n') = db (store n)
    \<or> (\<exists>es1 e es2 t. es = es1 @ e # es2 \<and> term_pos (entryIndex e) (db (store n)) = Inr (t, True) \<and> t \<noteq> entryTerm e
        \<and> (\<forall>d \<in> set es1. term_pos (entryIndex d) (db (store n)) = Inr (entryTerm d, True))
        \<and> db (store n') = delete_log_from (entryIndex e) (db (store n)))"
  using assms
proof (induction es arbitrary: n)
  case (Cons e es)
  obtain x n1 where t: "on_store (Term (entryIndex e)) n = (x, n1)"
    by force
  note n1 = reads_db(3) [OF t]
  have x: "x = term_pos (entryIndex e) (db (store n))" if "x = Inr y" for y
    using on_store_db [OF t implements_Term] that by auto
  obtain y n2 where d: "on_store (DeleteFrom (entryIndex e)) n1 = (y, n2)"
    by force
  have d2: "db (store n2) \<in> {db (store n), delete_log_from (entryIndex e) (db (store n))}"
    using on_store_db [OF d implements_DeleteFrom] n1 by auto
  from Cons.prems t d consider "n' = n1" | tm where "x = Inr (tm, True)" "tm \<noteq> entryTerm e" "n' = n2"
    | "x = Inr (entryTerm e, True)" "find_conflict es n1 = (r, n')"
    by (auto split: sum.splits if_splits prod.splits)
  then show ?case
  proof cases
    case 1
    with n1 show ?thesis
      by simp
  next
    case 2
    have "term_pos (entryIndex e) (db (store n)) = Inr (tm, True)"
      using x 2(1) by simp
    with 2 d2 show ?thesis
      by fastforce
  next
    case 3
    have e: "term_pos (entryIndex e) (db (store n)) = Inr (entryTerm e, True)"
      using x 3(1) by simp
    from Cons.IH [OF 3(2)] n1 consider "db (store n') = db (store n)"
      | es1 f es2 t where "es = es1 @ f # es2" "term_pos (entryIndex f) (db (store n)) = Inr (t, True)" "t \<noteq> entryTerm f"
        "\<forall>d \<in> set es1. term_pos (entryIndex d) (db (store n)) = Inr (entryTerm d, True)"
        "db (store n') = delete_log_from (entryIndex f) (db (store n))"
      by auto
    then show ?thesis
    proof cases
      case 1
      then show ?thesis ..
    next
      case (2 es1 f es2 t)
      have "e # es = (e # es1) @ f # es2" "\<forall>d \<in> set (e # es1). term_pos (entryIndex d) (db (store n)) = Inr (entryTerm d, True)"
        using 2 e by auto
      with 2 show ?thesis
        by blast
    qed
  qed
qed simp


section \<open>The effect on the log\<close>

lemma agree_0: "X 0 = None \<Longrightarrow> Y 0 = None \<Longrightarrow> agree X Y 0"
  by (simp add: agree_def)

lemma spans_0: "spans X 0 l \<Longrightarrow> X 0 = None"
  using spans_iff [of X 0 l 0] by simp

text \<open>Two logs that agree wherever they have an entry of the same term at the same index.\<close>

definition matching :: "log \<Rightarrow> log \<Rightarrow> bool" where
  "matching X H \<longleftrightarrow> (\<forall>i m c d. X i = Some (m, c) \<and> H i = Some (m, d) \<longrightarrow> agree X H i)"

definition carried :: "log \<Rightarrow> Entry list \<Rightarrow> bool" where
  "carried H es \<longleftrightarrow> (\<forall>e \<in> set es. H (entryIndex e) = Some (entryTerm e, entryCommand e))"

lemma consecutive_split:
  "consecutive p (es @ e # es') \<Longrightarrow> consecutive p es \<and> entryIndex e = last_index p es + 1 \<and> ok_index (last_index p es + 1)"
proof (induction es arbitrary: p)
  case (Cons d es)
  then have "consecutive (p + 1) es \<and> entryIndex e = last_index (p + 1) es + 1 \<and> ok_index (last_index (p + 1) es + 1)"
    by simp
  moreover have "last_index p (d # es) = last_index (p + 1) es"
    using Cons.prems by (simp add: last_index_def)
  ultimately show ?case
    using Cons.prems by simp
qed (simp add: last_index_def)

lemma carried_last:
  assumes "consecutive p es" and "carried H es" and "p = 0 \<or> H p \<noteq> None"
  shows "last_index p es = 0 \<or> H (last_index p es) \<noteq> None"
  using assms by (cases "es = []") (auto simp: last_index_def carried_def)

context replicated_log
begin

lemma app_log_upto:
  assumes "consecutive p es" and "spans (look t) 0 p" and "agree (look t) H p" and "carried H es"
  shows "look (app es t) = log_upto (last_index p es) H"
proof
  fix i
  note r = consecutive_range [OF assms(1), of i]
  show "look (app es t) i = log_upto (last_index p es) H i"
  proof (cases "i \<in> entryIndex ` set es")
    case True
    then obtain e where "e \<in> set es" "i = entryIndex e"
      by blast
    then have "look (app es t) i = H i"
      using look_app_inside [OF consecutive_distinct [OF assms(1)], of e t] assms(4) by (simp add: carried_def)
    with True r show ?thesis
      by (simp add: log_upto_def)
  next
    case False
    then have "look (app es t) i = look t i"
      by (intro look_app_outside) auto
    moreover have "look t i = (if i \<le> p then H i else None)"
      using agree_at [OF assms(3), of i] spans_iff [OF assms(2), of i] by auto
    moreover have "i \<le> p \<longleftrightarrow> i \<le> last_index p es"
      using False r by auto
    ultimately show ?thesis
      by (simp add: log_upto_def)
  qed
qed

lemma trunc_log_upto:
  assumes "linv t" and "ok_index (q + 1)" and "agree (look t) H q"
  shows "look (trunc (q + 1) t) = log_upto q H"
proof
  fix i
  have "q + 1 \<le> i \<longleftrightarrow> \<not> i \<le> q"
    using ok_index_Suc [OF assms(2)] u64_Suc_le [of q i] by auto
  with look_trunc [OF assms(1,2), of i] agree_at [OF assms(3), of i] show "look (trunc (q + 1) t) i = log_upto q H i"
    by (simp add: log_upto_def)
qed

lemma reconcile_takes:
  "linv t \<Longrightarrow> consecutive p es \<Longrightarrow> spans (look t) 0 b \<Longrightarrow> p \<le> b \<Longrightarrow> agree (look t) H p \<Longrightarrow> carried H es \<Longrightarrow>
   matching (look t) H \<Longrightarrow>
     look (reconcile look app trunc es t) = look t \<and> agree (look t) H (last_index p es)
     \<or> takes H (last_index p es) (look t) (look (reconcile look app trunc es t))"
proof (induction es arbitrary: p)
  case (Cons e es)
  let ?s = "last_index p (e # es)"
  have e: "entryIndex e = p + 1" "ok_index (p + 1)" "p < p + 1"
    using Cons.prems ok_index_Suc [of p] by auto
  have p: "p = 0 \<or> H p \<noteq> None"
  proof (cases "p = 0")
    case False
    then have "look t p \<noteq> None"
      using spans_iff [OF Cons.prems(3), of p] Cons.prems(4) by (simp add: word_neq_0_conv)
    then show ?thesis
      using agree_at [OF Cons.prems(5) order_refl] by simp
  qed simp
  have s: "p \<le> ?s" "?s = 0 \<or> H ?s \<noteq> None"
    using consecutive_range [OF Cons.prems(2), of 0] carried_last [OF Cons.prems(2,6) p] by auto
  have H: "H (p + 1) = Some (entryTerm e, entryCommand e)"
    using Cons.prems(6) e(1) by (simp add: carried_def)
  show ?case
  proof (cases "look t (p + 1)")
    case None
    have "p = b"
    proof (rule ccontr)
      assume "p \<noteq> b"
      then have "p + 1 \<le> b"
        using Cons.prems(4) by (intro u64_Suc_le) simp
      moreover have "0 < p + 1"
        using e(2) by (simp add: ok_index_def)
      ultimately show False
        using None spans_iff [OF Cons.prems(3), of "p + 1"] by simp
    qed
    then have "takes H ?s (look t) (look (app (e # es) t))"
      using app_log_upto [OF Cons.prems(2) _ Cons.prems(5,6)] Cons.prems(3,5) s by (auto simp: takes_def)
    with None e(1) show ?thesis
      by simp
  next
    case (Some x)
    obtain tm c where x: "x = (tm, c)"
      by force
    show ?thesis
    proof (cases "tm = entryTerm e")
      case True
      then have "agree (look t) H (p + 1)"
        using Cons.prems(7) Some x H by (auto simp: matching_def)
      moreover have "p + 1 \<le> b"
        using Some Cons.prems(3) by (auto simp: spans_def)
      moreover have "?s = last_index (p + 1) es"
        using e(1) by (simp add: last_index_def)
      ultimately show ?thesis
        using Cons.IH [of "p + 1"] Cons.prems True Some x e by (simp add: carried_def)
    next
      case False
      have t': "look (trunc (p + 1) t) = log_upto p H"
        by (rule trunc_log_upto [OF Cons.prems(1) e(2) Cons.prems(5)])
      have "spans (look (trunc (p + 1) t)) 0 p"
        using Cons.prems e by (intro trunc_spans) auto
      then have "look (app (e # es) (trunc (p + 1) t)) = log_upto ?s H"
        using Cons.prems(2,6) by (intro app_log_upto) (auto simp: t')
      moreover have "look t (p + 1) \<noteq> H (p + 1)"
        using Some x H False by simp
      ultimately have "takes H ?s (look t) (look (app (e # es) (trunc (p + 1) t)))"
        using Cons.prems(5) s e(3) by (auto simp: takes_def)
      with False Some x e(1) show ?thesis
        by simp
    qed
  qed
qed (auto simp: last_index_def)

end


text \<open>What a request needs to be part of the log \<open>H\<close>.\<close>

definition request_of :: "log \<Rightarrow> AppendEntriesRequest \<Rightarrow> bool" where
  "request_of H req \<longleftrightarrow> carried H (request_entries (Some req)) \<and> consecutive (aePrevLogIndex req) (request_entries (Some req))
     \<and> (if aePrevLogIndex req = 0 then aePrevLogTerm req = 0 else \<exists>c. H (aePrevLogIndex req) = Some (aePrevLogTerm req, c))"

abbreviation node_log :: "Node \<Rightarrow> log" where
  "node_log n \<equiv> log_entry (db (store n))"

text \<open>The whole log is in the table: no snapshot was ever taken.\<close>

definition whole :: "tables \<Rightarrow> bool" where
  "whole T \<longleftrightarrow> gap_free T \<and> snap_pos T = Inr (0, 0)"

lemma whole_spans: "whole T \<Longrightarrow> \<exists>l. spans (log_entry T) 0 l \<and> l < 2 ^ 63"
  unfolding whole_def by (auto elim!: gap_freeE)

lemma whole_same_log: "whole T \<Longrightarrow> same_log T T' \<Longrightarrow> whole T'"
  using gap_free_same_log [of T T'] by (simp add: whole_def same_log_def)

lemma whole_wf: "whole T \<Longrightarrow> wf_tables T"
  by (simp add: whole_def gap_free_wf)

lemma whole_term:
  assumes "whole T" and "term_pos i T = Inr (t, True)" and "i \<noteq> 0"
  shows "\<exists>c. log_entry T i = Some (t, c)"
  using assms term_pos_log [of T 0 0 i] by (auto simp: whole_def word_neq_0_conv split: option.splits)

text \<open>The previous index and term of a request, checked against the log.\<close>

lemma prev_agrees:
  assumes "whole T" and "request_of H req" and "matching (log_entry T) H" and "spans H 0 h"
    and "term_pos (aePrevLogIndex req) T = Inr (aePrevLogTerm req, True)"
  shows "agree (log_entry T) H (aePrevLogIndex req)" and "spans (log_entry T) 0 b \<Longrightarrow> aePrevLogIndex req \<le> b"
proof -
  obtain l where l: "spans (log_entry T) 0 l"
    using whole_spans [OF assms(1)] by blast
  show "agree (log_entry T) H (aePrevLogIndex req)"
  proof (cases "aePrevLogIndex req = 0")
    case True
    then show ?thesis
      using spans_0 [OF l] spans_0 [OF assms(4)] by (simp add: agree_0)
  next
    case False
    then obtain c d where "log_entry T (aePrevLogIndex req) = Some (aePrevLogTerm req, c)" "H (aePrevLogIndex req) = Some (aePrevLogTerm req, d)"
      using whole_term [OF assms(1,5)] assms(2) by (auto simp: request_of_def)
    with assms(3) show ?thesis
      unfolding matching_def by blast
  qed
  show "aePrevLogIndex req \<le> b" if "spans (log_entry T) 0 b"
    using whole_term [OF assms(1,5)] spans_iff [OF that, of "aePrevLogIndex req"] by (cases "aePrevLogIndex req = 0") auto
qed

lemma append_store_takes:
  assumes "append_store es n = (r, n')" and "whole (db (store n))" and "consecutive p es" and "carried H es"
    and "matching (node_log n) H" and "agree (node_log n) H p" and "p = 0 \<or> H p \<noteq> None"
    and "\<And>b. spans (node_log n) 0 b \<Longrightarrow> p \<le> b"
  shows "node_log n' = node_log n \<or> (\<exists>s. takes H s (node_log n) (node_log n'))"
    and "r = Inr () \<Longrightarrow> agree (node_log n') H (last_index p es)"
proof -
  obtain b where b: "spans (node_log n) 0 b"
    using whole_spans [OF assms(2)] by blast
  have sp: "snap_pos (db (store n)) = Inr (0, 0)" and wf: "wf_tables (db (store n))"
    using assms(2) by (auto simp: whole_def gap_free_wf)
  have pos: "0 < entryIndex e" if "e \<in> set es" for e
    using consecutive_bounds [OF assms(3) that] by (simp add: ok_index_def)
  have ok: "node_log n' = node_log n \<and> agree (node_log n) H (last_index p es) \<or> takes H (last_index p es) (node_log n) (node_log n')"
    if "r = Inr ()"
  proof -
    have "db (store n') = reconcile log_entry append_entries delete_log_from es (db (store n))"
      by (rule append_store_reconcile [OF assms(1) [unfolded that] sp pos])
    with sql_log.reconcile_takes [OF wf assms(3) b assms(8) [OF b] assms(6,4,5)] show ?thesis
      by simp
  qed
  show "agree (node_log n') H (last_index p es)" if "r = Inr ()"
    using ok [OF that] by (auto simp: takes_def)
  show "node_log n' = node_log n \<or> (\<exists>s. takes H s (node_log n) (node_log n'))"
  proof (cases r)
    case (Inr u)
    with ok show ?thesis
      by auto
  next
    case (Inl err)
    obtain x n1 where f: "find_conflict es n = (x, n1)"
      by force
    have n1: "db (store n') = db (store n1)"
      using assms(1) Inl f
      by (auto simp: append_store_def split: sum.splits if_splits dest!: on_store_db [OF _ implements_AppendEntries])
    from find_conflict_cut [OF f] consider "db (store n1) = db (store n)"
      | es1 e es2 t where "es = es1 @ e # es2" "term_pos (entryIndex e) (db (store n)) = Inr (t, True)" "t \<noteq> entryTerm e"
        "\<forall>d \<in> set es1. term_pos (entryIndex d) (db (store n)) = Inr (entryTerm d, True)"
        "db (store n1) = delete_log_from (entryIndex e) (db (store n))"
      by blast
    then show ?thesis
    proof cases
      case 1
      with n1 show ?thesis
        by simp
    next
      case (2 es1 e es2 t)
      let ?q = "last_index p es1"
      have q: "consecutive p es1" "entryIndex e = ?q + 1" "ok_index (?q + 1)"
        using consecutive_split assms(3) 2(1) by blast+
      have c: "carried H es1" "H (?q + 1) = Some (entryTerm e, entryCommand e)"
        using assms(4) 2(1) q(2) by (auto simp: carried_def)
      have a: "agree (node_log n) H ?q"
      proof (cases "es1 = []")
        case True
        with assms(6) show ?thesis
          by (simp add: last_index_def)
      next
        case False
        then have l: "last es1 \<in> set es1"
          by simp
        then have "entryIndex (last es1) \<noteq> 0"
          using pos 2(1) by fastforce
        then obtain d where "node_log n (entryIndex (last es1)) = Some (entryTerm (last es1), d)"
          using whole_term [OF assms(2)] 2(4) l by blast
        moreover have "H (entryIndex (last es1)) = Some (entryTerm (last es1), entryCommand (last es1))"
          using c(1) l by (simp add: carried_def)
        ultimately show ?thesis
          using assms(5) False unfolding matching_def last_index_def by auto
      qed
      obtain d where "node_log n (?q + 1) = Some (t, d)"
        using whole_term [OF assms(2) 2(2)] q(2,3) by (metis ok_index_def order.irrefl)
      then have "node_log n (?q + 1) \<noteq> H (?q + 1)"
        using 2(3) c(2) by simp
      moreover have "node_log n' = log_upto ?q H"
        using sql_log.trunc_log_upto [OF wf q(3) a] n1 2(5) q(2) by simp
      ultimately have "takes H ?q (node_log n) (node_log n')"
        using a ok_index_Suc [OF q(3)] carried_last [OF q(1) c(1) assms(7)] by (auto simp: takes_def)
      then show ?thesis
        by blast
    qed
  qed
qed


lemma append_end_db:
  "append_error e n = (r, n') \<Longrightarrow> db (store n') = db (store n) \<and> (\<forall>resp. r = Inr resp \<longrightarrow> \<not> aerSuccess resp)"
  "append_reject q n = (r, n') \<Longrightarrow> db (store n') = db (store n) \<and> (\<forall>resp. r = Inr resp \<longrightarrow> \<not> aerSuccess resp)"
  by (auto simp: append_error_def append_reject_def inc_rpc_def split: prod.splits dest!: reads_db(1))

lemma snap_pos_append_store:
  assumes "append_store es n = (r, n')"
  shows "snap_pos (db (store n')) = snap_pos (db (store n))"
proof -
  obtain x n1 where f: "find_conflict es n = (x, n1)"
    by force
  have "snap_pos (db (store n1)) = snap_pos (db (store n))"
    using find_conflict_cut [OF f] by auto
  with assms f show ?thesis
    by (auto simp: append_store_def split: sum.splits if_splits dest!: on_store_db [OF _ implements_AppendEntries])
qed

lemma append_commit_same_log:
  assumes "append_commit req m n = (r, n')" and "wf_tables (db (store n))" and "snapshotThreshold n = 0"
  shows "same_files_log n n'"
proof -
  have "same_files_log n (applyCommittedLocked (k\<lparr>commitIndex := c\<rparr>))" if "db (store k) = db (store n)" "snapshotThreshold k = 0" for k c
    using applyCommitted_same_log [of "k\<lparr>commitIndex := c\<rparr>"] assms(2) that by simp
  with assms show ?thesis
    by (auto simp: append_commit_def append_error_def inc_rpc_def Let_def same_log_refl refresh_store
        split: if_splits prod.splits sum.splits dest!: last_index_frame)
qed

lemma view_follow: "view (follow t l n) = view (if t > currentTerm n \<or> role n \<noteq> RoleFollower then stepDownLocked t l n else n)"
  by (simp add: follow_def)

lemma AppendEntries_rpc_view:
  assumes "AppendEntries_rpc req n = (r, n')" and "\<not> AppendEntriesRequest_GetTerm req < currentTerm n"
  shows "view n' = view (follow (AppendEntriesRequest_GetTerm req) (AppendEntriesRequest_GetLeaderId req) n)"
  using assms unfolding AppendEntries_rpc_follow
  by (auto simp: Let_def split: if_splits prod.splits sum.splits dest!: view_append view_store)

text \<open>
  The handler on a request that is part of the log \<open>H\<close>: the log stays as it is, or takes over \<open>H\<close>
  up to some index; after a success it agrees with \<open>H\<close> as far as the request goes.
\<close>

lemma AppendEntries_rpc_takes:
  assumes run: "AppendEntries_rpc (Some req) n = (r, n')" and w: "whole (db (store n))" and off: "snapshotThreshold n = 0"
    and req: "request_of H req" and H: "matching (node_log n) H" "spans H 0 h" and cur: "\<not> aeTerm req < currentTerm n"
  defines "sent \<equiv> last_index (aePrevLogIndex req) (request_entries (Some req))"
  shows "node_log n' = node_log n \<or> (\<exists>s. takes H s (node_log n) (node_log n'))" and "snap_pos (db (store n')) = Inr (0, 0)"
    and "\<And>resp. r = Inr resp \<Longrightarrow> aerSuccess resp \<Longrightarrow> agree (node_log n') H sent \<and> aerMatchIndex resp = sent"
proof -
  let ?p = "aePrevLogIndex req" and ?es = "request_entries (Some req)"
  have g [simp]: "AppendEntriesRequest_GetTerm (Some req) = aeTerm req" "AppendEntriesRequest_GetPrevLogIndex (Some req) = ?p"
    "AppendEntriesRequest_GetPrevLogTerm (Some req) = aePrevLogTerm req"
    by (simp_all add: AppendEntriesRequest_GetTerm_def AppendEntriesRequest_GetPrevLogIndex_def AppendEntriesRequest_GetPrevLogTerm_def)
  define n2 where "n2 = follow (aeTerm req) (AppendEntriesRequest_GetLeaderId (Some req)) n"
  have s2: "same_files_log n n2" and off2: "snapshotThreshold n2 = 0"
    using follow_log [OF whole_wf [OF w]] off by (simp_all add: n2_def) (simp add: follow_def)
  obtain x n3 where s3: "on_store SnapshotIndexTerm n2 = (x, n3)"
    by force
  have n3: "same_files_log n n3" "snapshotThreshold n3 = 0" and x: "x = Inr (0, 0) \<or> (\<exists>e. x = Inl e)"
    using s2 off2 on_store_db [OF s3 implements_SnapshotIndexTerm] threshold_on_store [OF s3] w
    by (auto simp: same_log_def whole_def)
  obtain y n4 where s4: "on_store (Term ?p) n3 = (y, n4)"
    by force
  have n4: "same_files_log n n4" "snapshotThreshold n4 = 0" and y: "y = term_pos ?p (db (store n)) \<or> (\<exists>e. y = Inl e)"
    using n3 on_store_db [OF s4 implements_Term] threshold_on_store [OF s4] same_log_reads(3) [OF n3(1), of ?p] by auto
  have c: "collect_incoming 0 (AppendEntriesRequest_GetEntries (Some req)) ?p = (sent, ?es)"
    using collect_incoming_consecutive [of ?p "AppendEntriesRequest_GetEntries (Some req)" 0] req
    by (auto simp: request_of_def sent_def last_index_def request_entries_def)
  obtain z n5 where a: "append_store ?es n4 = (z, n5)"
    by force
  note R = run [unfolded AppendEntries_rpc_follow g n2_def [symmetric] s3 s4]
  let ?goal = "(node_log n' = node_log n \<or> (\<exists>s. takes H s (node_log n) (node_log n'))) \<and> snap_pos (db (store n')) = Inr (0, 0)
    \<and> (\<forall>resp. r = Inr resp \<and> aerSuccess resp \<longrightarrow> agree (node_log n') H sent \<and> aerMatchIndex resp = sent)"
  have ?goal
  proof (cases "x = Inr (0, 0) \<and> y = Inr (aePrevLogTerm req, True)")
    case True
    then have tp: "term_pos ?p (db (store n)) = Inr (aePrevLogTerm req, True)"
      using y by auto
    have w4: "whole (db (store n4))" and l4: "node_log n4 = node_log n"
      using whole_same_log [OF w n4(1)] same_log_reads(1) [OF n4(1)] by auto
    have p: "?p = 0 \<or> H ?p \<noteq> None"
      using req by (auto simp: request_of_def split: if_splits)
    note T = append_store_takes [where p = ?p and H = H, OF a w4, unfolded l4]
    have t5: "node_log n5 = node_log n \<or> (\<exists>s. takes H s (node_log n) (node_log n5))" "z = Inr () \<Longrightarrow> agree (node_log n5) H sent"
      using T p H(1) req prev_agrees [OF w req H tp] by (simp_all add: request_of_def sent_def)
    have off5: "snapshotThreshold n5 = 0"
      using threshold_store_only [OF store_only_append_store [OF a]] n4(2) by simp
    have g5: "gf n5"
      using gf_append_store [OF a _ _ _ _, of 0 0 ?p] w4 req tp same_log_reads(3) [OF n4(1), of ?p] by (auto simp: whole_def request_of_def)
    have sp5: "snap_pos (db (store n5)) = Inr (0, 0)"
      using snap_pos_append_store [OF a] w4 by (simp add: whole_def)
    show ?thesis
    proof (cases z)
      case (Inl e)
      with R cur True c a have "(r, n') = append_error e n5"
        by (simp add: s4)
      with t5(1) sp5 show ?thesis
        by (auto simp: append_error_def inc_rpc_def)
    next
      case (Inr u)
      with R cur True c a have ac: "append_commit (Some req) sent n5 = (r, n')"
        by (simp add: s4)
      have "same_files_log n5 n'"
        by (rule append_commit_same_log [OF ac gap_free_wf [OF g5] off5])
      then have "node_log n' = node_log n5" "snap_pos (db (store n')) = Inr (0, 0)"
        using same_log_reads(1) sp5 by (auto simp: same_log_def)
      moreover have "aerMatchIndex resp = sent" if "r = Inr resp" for resp
        using append_commit_ok [OF ac [unfolded that] gap_free_wf [OF g5]] by simp
      ultimately show ?thesis
        using t5 Inr by auto
    qed
  next
    case False
    from False x R cur have "(\<exists>e. append_error e n3 = (r, n')) \<or> (\<exists>e. append_error e n4 = (r, n')) \<or> (\<exists>q. append_reject q n4 = (r, n'))"
      by (auto simp: s4 split: sum.splits prod.splits if_splits)
    then have "same_files_log n n' \<and> (\<forall>resp. r = Inr resp \<longrightarrow> \<not> aerSuccess resp)"
      using n3(1) n4(1) append_end_db by metis
    with w show ?thesis
      using same_log_reads(1) by (auto simp: same_log_def whole_def)
  qed
  then show "node_log n' = node_log n \<or> (\<exists>s. takes H s (node_log n) (node_log n'))" "snap_pos (db (store n')) = Inr (0, 0)"
    "\<And>resp. r = Inr resp \<Longrightarrow> aerSuccess resp \<Longrightarrow> agree (node_log n') H sent \<and> aerMatchIndex resp = sent"
    by blast+
qed


lemma AppendEntries_rpc_stale:
  assumes "AppendEntries_rpc req n = (r, n')" and "AppendEntriesRequest_GetTerm req < currentTerm n"
  shows "db (store n') = db (store n) \<and> view n' = view n \<and> (\<forall>resp. r = Inr resp \<longrightarrow> \<not> aerSuccess resp)"
  using assms append_end_db(2) view_append_reject by (auto simp: AppendEntries_rpc_follow)

section \<open>A leader's append\<close>

text \<open>The new entry of a write, once it is in the log; everything else leaves the log as it was.\<close>

lemma Write_begin_log:
  assumes "Write_begin req n = (w, n')" and "whole (db (store n))" and "room (db (store n))" and "snapshotThreshold n = 0"
  shows "same_files_log n n'
    \<or> (\<exists>l c. role n = RoleLeader \<and> spans (node_log n) 0 l \<and> ok_index (l + 1)
        \<and> node_log n' = (node_log n)(l + 1 \<mapsto> (currentTerm n, c)) \<and> whole (db (store n')))"
proof -
  note wf = whole_wf [OF assms(2)]
  obtain x n1 where s: "on_store LastIndexAndTerm n = (x, n1)"
    by force
  have n1: "db (store n1) = db (store n)" "snapshotThreshold n1 = 0" "currentTerm n1 = currentTerm n"
    and x: "x = last_pos (db (store n)) \<or> (\<exists>e. x = Inl e)"
    using on_store_db [OF s implements_LastIndexAndTerm] threshold_on_store [OF s] assms(4) view_currentTerm [OF view_store(4) [OF s]]
    by auto
  obtain l where l: "spans (node_log n) 0 l" "l < 2 ^ 63"
    using whole_spans [OF assms(2)] by blast
  then obtain t where lp: "last_pos (db (store n)) = Inr (l, t)"
    using gap_free_last [of "db (store n)" 0 0 l] assms(2) by (auto simp: whole_def)
  then have ok: "ok_index (l + 1)"
    using assms(3) by (simp add: room_def)
  define e where "e = \<lparr>entryIndex = l + 1, entryTerm = currentTerm n,
    entryCommand = encodeSetCommand (ClientWriteRequest_GetKey req) (ClientWriteRequest_GetValue req)\<rparr>"
  obtain y n2 where a: "on_store (AppendEntries [e]) n1 = (y, n2)"
    by force
  have n2: "snapshotThreshold n2 = 0" "db (store n2) = append_entries [e] (db (store n)) \<or> (\<exists>z. y = Inl z) \<and> db (store n2) = db (store n)"
    using on_store_db [OF a implements_AppendEntries] threshold_on_store [OF a] n1 by auto
  let ?D = "append_entries [e] (db (store n))"
  have D: "whole ?D" "log_entry ?D = (node_log n)(l + 1 \<mapsto> (currentTerm n, entryCommand e))"
    using gap_free_append [OF _ lp ok, of e] assms(2) by (auto simp: whole_def e_def log_entry_append)
  have "same_files_log n n2 \<or> same_log ?D (db (store n2))"
    using n2(2) wf whole_wf [OF D(1)] by (auto simp: same_log_refl)
  moreover from this have "wf_tables (db (store n2))"
    by (auto simp: same_log_def)
  then have "same_files_log n2 (advanceCommitLocked (n2\<lparr>matchIndex := f\<rparr>))" for f
    using advanceCommit_same_log [of "n2\<lparr>matchIndex := f\<rparr>"] n2(1) by simp
  ultimately have upd: "same_files_log n (advanceCommitLocked (n2\<lparr>matchIndex := f\<rparr>)) \<or> same_log ?D (db (store (advanceCommitLocked (n2\<lparr>matchIndex := f\<rparr>))))"
      "same_files_log n n2 \<or> same_log ?D (db (store n2))" for f
    using same_log_trans by blast+
  have "db (store n') = db (store n) \<or> role n = RoleLeader
     \<and> (db (store n') = db (store n2) \<or> (\<exists>f. db (store n') = db (store (advanceCommitLocked (n2\<lparr>matchIndex := f\<rparr>)))))"
    using assms(1) x lp n1 a s by (auto simp: Write_begin_def Let_def e_def refresh_store split: if_splits sum.splits prod.splits)
  with upd wf have "same_files_log n n' \<or> role n = RoleLeader \<and> same_log ?D (db (store n'))"
    by (metis same_log_refl)
  then show ?thesis
    using D l(1) ok whole_same_log [OF D(1)] same_log_reads(1) [of ?D] by auto
qed


section \<open>What a leader knows of its peers\<close>

lemma matchIndex_on_store: "on_store m n = (r, n') \<Longrightarrow> matchIndex n' = matchIndex n"
  by (auto elim: on_storeE)

lemma matchIndex_prepare: "replicatePeer_prepare p n = (a, n') \<Longrightarrow> matchIndex n' = matchIndex n"
  by (auto simp: replicatePeer_prepare_def Let_def split: if_splits prod.splits sum.splits dest!: matchIndex_on_store)

lemma matchIndex_Write_begin:
  "Write_begin req n = (w, n') \<Longrightarrow> p \<noteq> nid n \<Longrightarrow> matchIndex n' p = matchIndex n p"
proof -
  assume run: "Write_begin req n = (w, n')" and p: "p \<noteq> nid n"
  have st: "matchIndex m' = matchIndex m \<and> nid m' = nid m" if "on_store a m = (r, m')" for a :: "(Store, 'b) action" and m r m'
    using that by (auto elim: on_storeE)
  from run p show ?thesis
    by (auto simp: Write_begin_def Let_def split: if_splits prod.splits sum.splits dest!: st)
qed

lemma becomeLeader_matchIndex:
  assumes "p \<in> peerID ` set (peers n)" and "p \<noteq> nid n" and "role n \<noteq> RoleLeader" and "role (becomeLeaderLocked n) = RoleLeader"
  shows "matchIndex (becomeLeaderLocked n) p = 0"
proof -
  have reset: "matchIndex (fold (becomeLeader_peer i) ps m) p = (if p \<in> peerID ` set ps then 0 else matchIndex m p)"
    "nid (fold (becomeLeader_peer i) ps m) = nid m" for i ps m
    by (induction ps arbitrary: m) (auto simp: becomeLeader_peer_def)
  obtain r n1 where s: "on_store LastIndexAndTerm n = (r, n1)"
    by force
  then have "role n1 = role n" "peers n1 = peers n" "nid n1 = nid n"
    by (auto elim: on_storeE)
  with assms s show ?thesis
    by (auto simp: becomeLeaderLocked_def Let_def reset split: sum.splits)
qed

lemma append_reply_matchIndex:
  assumes "replicatePeer_append_reply peer t sent (Some resp) n = (b, n')" and "role n' = RoleLeader"
  shows "role n = RoleLeader \<and> currentTerm n' = currentTerm n
    \<and> (matchIndex n' = matchIndex n
       \<or> currentTerm n = t \<and> aerSuccess resp
         \<and> matchIndex n' = (matchIndex n)(peer := max (matchIndex n peer) (max sent (aerMatchIndex resp))))"
proof (cases "AppendEntriesResponse_GetTerm (Some resp) > currentTerm n")
  case True
  with assms show ?thesis
    by (auto simp: replicatePeer_append_reply_def)
next
  case False
  have "calm n n'"
    by (rule calm_append_reply [OF assms(1)])
  then have "role n = RoleLeader \<and> currentTerm n' = currentTerm n"
    using assms(2) by (auto simp: calm_def Let_def)
  moreover have "aerSuccess resp = AppendEntriesResponse_GetSuccess (Some resp)" "aerMatchIndex resp = AppendEntriesResponse_GetMatchIndex (Some resp)"
    by (simp_all add: AppendEntriesResponse_GetSuccess_def AppendEntriesResponse_GetMatchIndex_def)
  moreover have "AppendEntriesResponse_GetTerm (Some resp) \<le> currentTerm n"
    using False by simp
  note append_reply_updates [OF assms(1) this]
  ultimately show ?thesis
    by (auto split: if_splits)
qed

end
