(* ===== verification/System.thy ===== *)
theory System
  imports Cluster Node_Log
begin

text \<open>
  The cluster with its replication traffic: the AppendEntries requests leaders have built and the
  answers followers have given. A follower only receives requests that were sent, any number of
  times and in any order, and a leader only answers that were given. Together with the
  elections, crashes and restarts of \<open>Cluster\<close> this is the whole system, for servers that take no
  snapshots.
\<close>

section \<open>Files after a restart\<close>

text \<open>The tables once the defaults are in; on complete tables nothing changes.\<close>

definition opened :: "tables \<Rightarrow> tables" where
  "opened T = fill_defaults defaults T"

definition stored :: "tables \<Rightarrow> bool" where
  "stored T \<longleftrightarrow> wf_table (metadata T) \<and> whole (opened T)"

lemma tables_eqI:
  assumes "wf_table (metadata T)" and "wf_table (metadata T')" and "map_of (metadata T) = map_of (metadata T')"
    and "log_entries T = log_entries T'" and "kv T = kv T'" and "snapshot_row T = snapshot_row T'"
  shows "T = (T' :: tables)"
  using assms wf_table_eqI [of "metadata T" "metadata T'"] by simp

lemma fill_permuted:
  assumes "wf_table (metadata T)" and "set order = set defaults"
  shows "fill_defaults order T = opened T"
  unfolding opened_def
  by (rule tables_eqI) (use assms in \<open>auto simp: fun_eq_iff map_of_fill_defaults map_of_permuted_defaults [OF assms(2)] split: option.splits\<close>)

lemma opened_log [simp]: "log_entries (opened T) = log_entries T" "log_entry (opened T) = log_entry T"
  by (simp_all add: opened_def log_entry_def fun_eq_iff)

lemma wf_insert_default: "wf_table (metadata T) \<Longrightarrow> wf_table (metadata (insert_or_ignore_meta k v T))"
  by (simp add: insert_or_ignore_meta_def)

lemma opened_default:
  assumes "wf_table (metadata T)" and "(k, v) \<in> set defaults"
  shows "opened (insert_or_ignore_meta k v T) = opened T"
proof (rule tables_eqI)
  show "wf_table (metadata (opened (insert_or_ignore_meta k v T)))" "wf_table (metadata (opened T))"
    using assms(1) wf_insert_default [OF assms(1)] by (simp_all add: opened_def)
  have "map_of defaults k = Some v"
    using assms(2) by (auto simp: defaults_def)
  then show "map_of (metadata (opened (insert_or_ignore_meta k v T))) = map_of (metadata (opened T))"
    by (auto simp: fun_eq_iff opened_def map_of_fill_defaults insert_or_ignore_meta_def table_simps split: option.splits)
qed (simp_all add: opened_def insert_or_ignore_meta_def)

lemma whole_opened: "whole T \<Longrightarrow> opened T = T"
  using fill_defaults_ok [of T defaults] wf_tables_meta [OF whole_wf, of T] by (simp add: opened_def)

lemma whole_stored: "whole T \<Longrightarrow> stored T"
  using whole_wf [of T] by (simp add: stored_def whole_opened wf_tables_def)

lemma stored_spans: "stored T \<Longrightarrow> \<exists>l. spans (log_entry T) 0 l"
  using whole_spans [of "opened T"] by (auto simp: stored_def)

lemma stored_empty: "stored empty_tables"
  using gap_free_fresh snap_pos_fresh by (simp add: stored_def whole_def opened_def fresh_store_def empty_tables_def)

text \<open>A start that fails half way leaves files that open to the same tables.\<close>

definition opens_to :: "tables \<Rightarrow> tables \<Rightarrow> bool" where
  "opens_to D T \<longleftrightarrow> wf_table (metadata T) \<and> opened T = D"

lemma exec_all_preserves:
  assumes "exec_all fs s = (r, s')" and "\<And>f T. f \<in> set fs \<Longrightarrow> P T \<Longrightarrow> P (f T)" and "P (db s)"
  shows "P (db s')"
  using assms
proof (induction fs arbitrary: s)
  case (Cons f fs)
  have f: "P (db t)" if "exec f s = (q, t)" for q t
    using that Cons.prems(2,3) by (auto simp: exec_def split: prod.splits if_splits dest: db_call_cases)
  from Cons.prems(1) have "and_then (exec f) (\<lambda>_. exec_all fs) s = (r, s')"
    by simp
  then show ?case
  proof (cases rule: and_then_cases)
    case (err e)
    with f show ?thesis by blast
  next
    case (ok x t)
    show ?thesis
      by (rule Cons.IH [OF ok(2)]) (use Cons.prems(2) f [OF ok(1)] in auto)
  qed
qed (simp add: ret_def)

lemma init_opens_to:
  assumes "init order s = (r, s')" and "set order = set defaults" and "opens_to D (db s)"
  shows "opens_to D (db s')"
proof -
  have d: "opens_to D ((case p of (key, v) \<Rightarrow> insert_or_ignore_meta key v) T)" if "p \<in> set order" "opens_to D T" for p T
    by (cases p, use that assms(2) in \<open>auto simp: opens_to_def opened_default wf_insert_default\<close>)
  have pragmas: "opens_to D (db t)" if "exec_all (replicate 6 (\<lambda>T. T)) s = (q, t)" for q t
    by (rule exec_all_preserves [where P = "opens_to D", OF that _ assms(3)]) auto
  have rows: "opens_to D (db t')"
    if "exec_all (map (\<lambda>(key, v). insert_or_ignore_meta key v) order) t = (q, t')" "opens_to D (db t)" for q t t'
    by (rule exec_all_preserves [where P = "opens_to D", OF that(1) _ that(2)]) (use d in auto)
  from assms(1) show ?thesis
    unfolding init_def
  proof (cases rule: and_then_cases)
    case (err e)
    with pragmas show ?thesis by blast
  next
    case (ok x t)
    with pragmas [OF ok(1)] rows [OF ok(2)] show ?thesis by simp
  qed
qed

lemma Open_opens_to:
  assumes "Open order T script = (r, T')" and "set order = set defaults" and "opens_to D T"
  shows "opens_to D T'"
proof -
  let ?s = "\<lparr>db = T, faults = script, is_open = True\<rparr>"
  obtain q t where q: "and_then (exec (\<lambda>T. T)) (\<lambda>_. exec (\<lambda>T. T)) ?s = (q, t)"
    by force
  then have "db t = T"
    using exec_invariant [where Q = "\<lambda>T. T" and f = "\<lambda>T. T"] by (elim and_then_cases) fastforce+
  with q assms show ?thesis
    by (auto simp: Open_def Let_def split: sum.splits prod.splits dest: init_opens_to)
qed

lemma New_failed_stored:
  assumes "New opts order T script clk rnd = (Inl e, T')" and "set order = set defaults" and "stored T"
  shows "stored T' \<and> opened T' = opened T"
proof -
  have "opens_to (opened T) T"
    using assms(3) by (simp add: opens_to_def stored_def)
  with assms(1,2) have "opens_to (opened T) T'"
    using Open_opens_to [OF _ assms(2), of T script]
    by (auto simp: New_def Let_def db_Close split: if_splits prod.splits sum.splits
        dest!: CurrentTermVote.on_error CurrentTermVote.on_success LastApplied.on_error dest: Open_success)
  with assms(3) show ?thesis
    by (simp add: opens_to_def stored_def)
qed

lemma New_stored:
  assumes "New opts order T script clk rnd = (Inr n, T')" and "set order = set defaults" and "stored T"
  shows "db (store n) = opened T \<and> snapshotThreshold n = optSnapshotThreshold opts
    \<and> commitIndex n = lastApplied n \<and> meta_uint (opened T) ''last_applied'' = Inr (lastApplied n)"
proof -
  obtain s T1 where o: "Open order T script = (Inr s, T1)"
    using assms(1) by (auto simp: New_def split: if_splits prod.splits sum.splits)
  then have T: "db s = opened T"
    using assms(3) fill_permuted [OF _ assms(2), of T] by (simp add: Open_success stored_def)
  obtain t v s1 a s2 where c: "CurrentTermVote s = (Inr (t, v), s1)" and l: "LastApplied s1 = (Inr a, s2)"
    using assms(1) o by (auto simp: New_def split: if_splits prod.splits sum.splits)
  have s2: "db s2 = opened T" "meta_uint (opened T) ''last_applied'' = Inr a"
    using CurrentTermVote.on_success [OF c] LastApplied.on_success [OF l] T by auto
  obtain n0 where "n = refreshMetricsLocked (resetElectionDeadlineLocked n0)" "store n0 = s2"
    "snapshotThreshold n0 = optSnapshotThreshold opts" "commitIndex n0 = a" "lastApplied n0 = a"
    using assms(1) by (auto simp: New_def o c l Let_def split: if_splits)
  with s2 show ?thesis
    by (simp add: refresh_store)
qed

section \<open>The system\<close>

text \<open>
  \<open>requests\<close> holds \<open>(leader, peer, lastSent, request)\<close>, and \<open>answers\<close> \<open>(leader, peer, term, lastSent, response)\<close>
  with the term and last index of the request that is answered.
\<close>

record system =
  core :: cluster
  requests :: "(bytes \<times> bytes \<times> u64 \<times> AppendEntriesRequest) set"
  answers :: "(bytes \<times> bytes \<times> u64 \<times> u64 \<times> AppendEntriesResponse) set"

abbreviation put :: "bytes \<Rightarrow> Node \<Rightarrow> cluster \<Rightarrow> cluster" where
  "put s n C \<equiv> C\<lparr>servers := (servers C)(s := Up n)\<rparr>"

definition sends :: "bytes \<Rightarrow> bytes \<Rightarrow> Attempt \<Rightarrow> (bytes \<times> bytes \<times> u64 \<times> AppendEntriesRequest) set" where
  "sends s p a = (case a of SendAppend sent req \<Rightarrow> {(s, p, sent, req)} | _ \<Rightarrow> {})"

inductive idle_step :: "Node \<Rightarrow> Node \<Rightarrow> bool" where
  client_read: "Read_finish req k n = (r, n') \<Longrightarrow> idle_step n n'"
| client_status: "Status n = (r, n') \<Longrightarrow> idle_step n n'"
| dial: "idle_step n (Start_dial n)"
| tick: "idle_step n (snd (run_tick h n))"
| environment: "idle_step n (n\<lparr>store := (store n)\<lparr>faults := fs\<rparr>, clock := cs, rands := rs\<rparr>)"

inductive system_step :: "bytes set \<Rightarrow> (bytes \<Rightarrow> Options) \<Rightarrow> system \<Rightarrow> system \<Rightarrow> bool" for M opts where
  idle: "servers (core S) s = Up n \<Longrightarrow> idle_step n n' \<Longrightarrow> system_step M opts S (S\<lparr>core := put s n' (core S)\<rparr>)"
| send: "servers (core S) s = Up n \<Longrightarrow> p \<in> peerID ` set (peers n) \<Longrightarrow> replicatePeer_prepare p n = (a, n') \<Longrightarrow>
    system_step M opts S (S\<lparr>core := put s n' (core S), requests := sends s p a \<union> requests S\<rparr>)"
| receive: "(l, p, sent, req) \<in> requests S \<Longrightarrow> servers (core S) p = Up n \<Longrightarrow> AppendEntries_rpc (Some req) n = (r, n') \<Longrightarrow>
    system_step M opts S (S\<lparr>core := put p n' (core S),
      answers := (case r of Inl _ \<Rightarrow> answers S | Inr resp \<Rightarrow> insert (l, p, aeTerm req, sent, resp) (answers S))\<rparr>)"
| settle: "(l, p, t, sent, resp) \<in> answers S \<Longrightarrow> servers (core S) l = Up n \<Longrightarrow>
    replicatePeer_append_reply p t sent (Some resp) n = (b, n') \<Longrightarrow> system_step M opts S (S\<lparr>core := put l n' (core S)\<rparr>)"
| client_write: "servers (core S) s = Up n \<Longrightarrow> Write_begin req n = (w, n') \<Longrightarrow> system_step M opts S (S\<lparr>core := put s n' (core S)\<rparr>)"
| elections: "election_step M opts (core S) C \<Longrightarrow> system_step M opts S (S\<lparr>core := C\<rparr>)"

lemma idle_local: "idle_step n n' \<Longrightarrow> local_step n n'"
  by (induction rule: idle_step.induct) (auto intro: local_step.intros)

lemma system_step_core: "system_step M opts S S' \<Longrightarrow> step M opts (core S) (core S')"
  by (induction rule: system_step.induct) (simp, blast intro: step.intros local_step.intros idle_local)+

text \<open>
  The conditions under which the logs are compared: the term a running server acts in is in its
  files, and no log has reached the last index the database can hold.
\<close>

definition steady :: "cluster \<Rightarrow> bool" where
  "steady C \<longleftrightarrow> (\<forall>s. room (files (servers C s)))
     \<and> (\<forall>s n. servers C s = Up n \<longrightarrow> (\<exists>v. durable (db (store n)) = Inr (currentTerm n, v)))"

inductive system_reachable :: "bytes set \<Rightarrow> (bytes \<Rightarrow> Options) \<Rightarrow> system \<Rightarrow> bool" for M opts where
  start: "system_reachable M opts \<lparr>core = initial, requests = {}, answers = {}\<rparr>"
| next_step: "system_reachable M opts S \<Longrightarrow> system_step M opts S S' \<Longrightarrow> steady (core S') \<Longrightarrow> system_reachable M opts S'"

lemma system_reachable_core: "system_reachable M opts S \<Longrightarrow> reachable M opts (core S)"
  by (induction rule: system_reachable.induct) (auto intro: reachable.intros system_step_core)

lemma system_reachable_steady: "system_reachable M opts S \<Longrightarrow> steady (core S)"
  by (induction rule: system_reachable.induct)
    (auto simp: steady_def initial_def room_def last_pos_def empty_tables_def snap_pos_def meta_uint_def)

end
