(* ===== verification/Consistency.thy ===== *)
theory Consistency
  imports System
begin

text \<open>
  The logs of the servers agree: in every reachable state of the system the histories of
  \<open>Log_History\<close> exist, with the facts kept by its events. Each step of the system is one or more of
  these events. What follows is Log Matching and leader completeness for the program.
\<close>

section \<open>The invariant\<close>

definition term_of :: "tables \<Rightarrow> u64" where
  "term_of T = (case durable T of Inl _ \<Rightarrow> 0 | Inr (t, _) \<Rightarrow> t)"

abbreviation terms :: "cluster \<Rightarrow> bytes \<Rightarrow> u64" where
  "terms C \<equiv> \<lambda>s. term_of (files (servers C s))"

abbreviation logs :: "cluster \<Rightarrow> bytes \<Rightarrow> log" where
  "logs C \<equiv> \<lambda>s. log_entry (files (servers C s))"

text \<open>A leader has its term's log, all of it acknowledged by itself, and what it knows of a peer the peer has acknowledged.\<close>

definition leader_node :: "bytes history \<Rightarrow> bytes \<Rightarrow> Node \<Rightarrow> bool" where
  "leader_node G s n \<longleftrightarrow> llog G (currentTerm n) = node_log n
     \<and> (\<exists>l. spans (node_log n) 0 l \<and> (s, currentTerm n, l) \<in> acked G)
     \<and> (\<forall>p \<in> peerID ` set (peers n). matchIndex n p = 0 \<or> (p, currentTerm n, matchIndex n p) \<in> acked G)"

definition candidate_node :: "bytes history \<Rightarrow> (u64 \<times> bytes) set \<Rightarrow> bytes \<Rightarrow> Node \<Rightarrow> bool" where
  "candidate_node G L s n \<longleftrightarrow> (currentTerm n, s) \<notin> L \<and> clog G s (currentTerm n) = node_log n"

definition node_consistent :: "bytes history \<Rightarrow> (u64 \<times> bytes) set \<Rightarrow> bytes \<Rightarrow> Node \<Rightarrow> bool" where
  "node_consistent G L s n \<longleftrightarrow> snapshotThreshold n = 0 \<and> whole (db (store n)) \<and> term_of (db (store n)) = currentTerm n
     \<and> (role n = RoleCandidate \<longrightarrow> candidate_node G L s n) \<and> (role n = RoleLeader \<longrightarrow> leader_node G s n)"

definition votes_recorded :: "bytes history \<Rightarrow> cluster \<Rightarrow> bool" where
  "votes_recorded G C \<longleftrightarrow> early G \<subseteq> cast C
     \<and> (\<forall>v u c. (v, u, c) \<in> cast C \<longrightarrow> u \<le> terms C c \<and> (u \<notin> fst ` elected C \<longrightarrow> (v, u, c) \<in> early G))"

definition request_ok :: "bytes history \<Rightarrow> (u64 \<times> bytes) set \<Rightarrow> bytes \<times> bytes \<times> u64 \<times> AppendEntriesRequest \<Rightarrow> bool" where
  "request_ok G L = (\<lambda>(l, p, sent, req). (aeTerm req, l) \<in> L \<and> p \<noteq> l \<and> request_of (llog G (aeTerm req)) req
     \<and> sent = last_index (aePrevLogIndex req) (request_entries (Some req)))"

definition answer_ok :: "bytes history \<Rightarrow> bytes \<times> bytes \<times> u64 \<times> u64 \<times> AppendEntriesResponse \<Rightarrow> bool" where
  "answer_ok G = (\<lambda>(l, p, t, sent, resp). aerSuccess resp \<longrightarrow> aerMatchIndex resp = sent \<and> (p, t, sent) \<in> acked G)"

definition election_recorded :: "bytes history \<Rightarrow> Election \<Rightarrow> bool" where
  "election_recorded G e \<longleftrightarrow> last_is (clog G (eCandidate e) (eTerm e)) (eLastLogIndex e) (eLastLogTerm e)"

definition servers_ok :: "bytes history \<Rightarrow> cluster \<Rightarrow> bool" where
  "servers_ok G C \<longleftrightarrow> (\<forall>s. stored (files (servers C s)) \<and> (\<forall>n. servers C s = Up n \<longrightarrow> node_consistent G (elected C) s n))"

definition traffic_ok :: "bytes history \<Rightarrow> system \<Rightarrow> bool" where
  "traffic_ok G S \<longleftrightarrow> (\<forall>E \<in> set (elections (core S)). election_recorded G (election E))
     \<and> (\<forall>x \<in> requests S. request_ok G (elected (core S)) x) \<and> (\<forall>x \<in> answers S. answer_ok G x)"

definition consistent :: "bytes set \<Rightarrow> bytes history \<Rightarrow> system \<Rightarrow> bool" where
  "consistent M G S \<longleftrightarrow> agreement (majority_of M) G (elected (core S)) (terms (core S)) (logs (core S))
     \<and> servers_ok G (core S) \<and> votes_recorded G (core S) \<and> traffic_ok G S"

text \<open>The history only grows.\<close>

definition evolves :: "bytes history \<Rightarrow> (u64 \<times> bytes) set \<Rightarrow> bytes history \<Rightarrow> (u64 \<times> bytes) set \<Rightarrow> bool" where
  "evolves G L G' L' \<longleftrightarrow> later (llog G) (fst ` L) (llog G') (fst ` L') \<and> acked G \<subseteq> acked G'"

lemma evolves_refl [simp]: "evolves G L G L"
  by (simp add: evolves_def)

lemma evolves_same: "llog G' = llog G \<Longrightarrow> acked G \<subseteq> acked G' \<Longrightarrow> evolves G L G' L"
  by (simp add: evolves_def)

lemma consistentD:
  assumes "consistent M G S"
  shows "agreement (majority_of M) G (elected (core S)) (terms (core S)) (logs (core S))" and "servers_ok G (core S)"
    and "votes_recorded G (core S)" and "traffic_ok G S"
  using assms by (simp_all add: consistent_def)

lemma consistent_node: "consistent M G S \<Longrightarrow> servers (core S) s = Up n \<Longrightarrow> node_consistent G (elected (core S)) s n"
  by (simp add: consistent_def servers_ok_def)

section \<open>Steps without a new entry, vote or leader\<close>

text \<open>What is left to show when one server moves on and the history stays as it is.\<close>

lemma logs_put: "servers C s = Up n \<Longrightarrow> same_files_log n n' \<Longrightarrow> logs (put s n' C) = logs C"
  using same_log_reads(1) [of "db (store n)" "db (store n')"] by (auto simp: fun_eq_iff)

lemma votes_recorded_mono:
  assumes "votes_recorded G C" and "\<And>v. terms C v \<le> terms C' v" and "elected C' = elected C" and "cast C' = cast C"
  shows "votes_recorded G C'"
  using assms(1,2) order_trans unfolding votes_recorded_def assms(3,4) by blast

lemma system_eta:
  "S\<lparr>core := C\<rparr> = \<lparr>core = C, requests = requests S, answers = answers S\<rparr>"
  "S\<lparr>core := C, requests := R\<rparr> = \<lparr>core = C, requests = R, answers = answers S\<rparr>"
  "S\<lparr>core := C, answers := A\<rparr> = \<lparr>core = C, requests = requests S, answers = A\<rparr>"
  by simp_all

lemma consistent_put:
  assumes con: "consistent M G S" and up: "servers (core S) s = Up n" and n': "node_consistent G (elected (core S)) s n'"
    and log: "same_files_log n n'" and t: "currentTerm n \<le> currentTerm n'"
    and C: "servers C = (servers (core S))(s := Up n')" "elected C = elected (core S)" "cast C = cast (core S)"
    and tr: "traffic_ok G \<lparr>core = C, requests = R, answers = A\<rparr>"
  shows "consistent M G \<lparr>core = C, requests = R, answers = A\<rparr>"
proof -
  note D = consistentD [OF con]
  have tm: "terms (core S) v \<le> terms C v" for v
    using consistent_node [OF con up] n' t up by (simp add: C node_consistent_def)
  have lg: "logs C = logs (core S)"
    using logs_put [OF up log] by (simp add: C)
  have "agreement (majority_of M) G (elected C) (terms C) (logs C)"
    unfolding lg C(2) by (rule agreement_bump [OF D(1) tm])
  moreover have "servers_ok G C"
    using D(2) n' whole_stored by (auto simp: servers_ok_def C node_consistent_def)
  moreover have "votes_recorded G C"
    by (rule votes_recorded_mono [OF D(3) tm C(2,3)])
  ultimately show ?thesis
    using tr by (simp add: consistent_def)
qed

text \<open>The role changes at most to follower.\<close>

definition keeps_role :: "Node \<Rightarrow> Node \<Rightarrow> bool" where
  "keeps_role n n' \<longleftrightarrow> peers n' = peers n \<and> (role n' \<noteq> RoleFollower \<longrightarrow> role n' = role n \<and> currentTerm n' = currentTerm n)"

lemma calm_keeps_role: "calm n n' \<Longrightarrow> keeps_role n n'"
  by (auto simp: calm_def keeps_role_def Let_def)

lemma role_consistent:
  assumes n: "node_consistent G L s n" and c: "keeps_role n n'" and log: "same_files_log n n'"
    and s: "snapshotThreshold n' = snapshotThreshold n" "term_of (db (store n')) = currentTerm n'"
    and m: "\<And>p. role n' = RoleLeader \<Longrightarrow> p \<in> peerID ` set (peers n) \<Longrightarrow>
        matchIndex n' p = matchIndex n p \<or> (p, currentTerm n, matchIndex n' p) \<in> acked G"
  shows "node_consistent G L s n'"
proof -
  have l: "node_log n' = node_log n" and p: "peers n' = peers n"
    using same_log_reads(1) [OF log] c by (auto simp: keeps_role_def)
  have same: "role n = role n' \<and> currentTerm n' = currentTerm n" if "role n' \<noteq> RoleFollower"
    using c that by (auto simp: keeps_role_def)
  have "leader_node G s n'" if r: "role n' = RoleLeader"
  proof -
    have "leader_node G s n" "currentTerm n' = currentTerm n"
      using n same r by (auto simp: node_consistent_def)
    with m [OF r] show ?thesis
      unfolding leader_node_def l p by metis
  qed
  moreover have "candidate_node G L s n'" if r: "role n' = RoleCandidate"
    using n same r by (simp add: node_consistent_def candidate_node_def l)
  ultimately show ?thesis
    using n s whole_same_log [OF _ log] by (simp add: node_consistent_def)
qed

lemmas calm_consistent = role_consistent [OF _ calm_keeps_role]

lemma steady_term: "steady C \<Longrightarrow> servers C s = Up n \<Longrightarrow> term_of (db (store n)) = currentTerm n"
  by (force simp: steady_def term_of_def)

lemma steady_room: "steady C \<Longrightarrow> servers C s = Up n \<Longrightarrow> room (db (store n))"
  unfolding steady_def by (metis files.simps(2))

text \<open>Reads, ticks and the like; and the answers a leader takes in.\<close>

lemma read_frame:
  assumes "on_store m n = (r, n')" and "implements m (\<lambda>T. (q T, T))"
  shows "db (store n') = db (store n) \<and> snapshotThreshold n' = snapshotThreshold n \<and> matchIndex n' = matchIndex n"
  using on_store_read_db [OF assms] threshold_on_store [OF assms(1)] matchIndex_on_store [OF assms(1)] by simp

lemma idle_frame:
  "idle_step n n' \<Longrightarrow> db (store n') = db (store n) \<and> snapshotThreshold n' = snapshotThreshold n \<and> matchIndex n' = matchIndex n"
proof (induction rule: idle_step.induct)
  case (client_read req k n r n')
  then show ?case
    by (auto simp: Read_finish_def split: if_splits prod.splits sum.splits dest!: read_frame [OF _ implements_Get])
next
  case (client_status n r n')
  then show ?case
    by (auto simp: Status_def split: prod.splits sum.splits dest!: read_frame [OF _ implements_LastIndexAndTerm])
qed (auto simp: Start_dial_def run_tick_def time_Now_def Let_def split: list.splits prod.splits)

lemma step_idle:
  assumes con: "consistent M G S" and up: "servers (core S) s = Up n" and run: "idle_step n n'" and st: "steady (put s n' (core S))"
  shows "consistent M G (S\<lparr>core := put s n' (core S)\<rparr>)"
proof -
  note n = consistent_node [OF con up] and f = idle_frame [OF run] and c = local_step_calm [OF idle_local [OF run]]
  have "wf_tables (db (store n))"
    using n by (simp add: node_consistent_def whole_wf)
  then have log: "same_files_log n n'"
    using f by (simp add: same_log_refl)
  have t: "term_of (db (store n')) = currentTerm n'"
    using steady_term [OF st, of s n'] by simp
  have "node_consistent G (elected (core S)) s n'"
    using f by (intro calm_consistent [OF n c log _ t]) auto
  then show ?thesis
    using consistent_put [OF con up _ log calm_term [OF c]] consistentD(4) [OF con] by (simp add: system_eta traffic_ok_def)
qed

lemma step_settle:
  assumes con: "consistent M G S" and ans: "(l, p, t, sent, resp) \<in> answers S" and up: "servers (core S) l = Up n"
    and run: "replicatePeer_append_reply p t sent (Some resp) n = (b, n')" and st: "steady (put l n' (core S))"
  shows "consistent M G (S\<lparr>core := put l n' (core S)\<rparr>)"
proof -
  note n = consistent_node [OF con up] and c = calm_append_reply [OF run]
  have log: "same_files_log n n'"
    using n by (intro append_reply_same_log [OF run]) (auto simp: node_consistent_def whole_wf)
  have tm: "term_of (db (store n')) = currentTerm n'"
    using steady_term [OF st, of l n'] by simp
  have "aerSuccess resp \<Longrightarrow> aerMatchIndex resp = sent \<and> (p, t, sent) \<in> acked G"
    using consistentD(4) [OF con] ans by (auto simp: traffic_ok_def answer_ok_def)
  then have "matchIndex n' q = matchIndex n q \<or> (q, currentTerm n, matchIndex n' q) \<in> acked G" if "role n' = RoleLeader" for q
    using append_reply_matchIndex [OF run that] by (auto simp: max_def)
  then have "node_consistent G (elected (core S)) l n'"
    by (intro calm_consistent [OF n c log threshold_append_reply [OF run] tm])
  then show ?thesis
    using consistent_put [OF con up _ log calm_term [OF c]] consistentD(4) [OF con] by (simp add: system_eta traffic_ok_def)
qed

text \<open>A request a leader builds is part of its log.\<close>

lemma peer_other:
  assumes "config_ok M opts" and "inv M opts C" and "servers C s = Up n" and "p \<in> peerID ` set (peers n)"
  shows "p \<noteq> s" and "p \<in> M" and "s \<in> M"
proof -
  have s: "s \<in> M" "peers n = optPeers (opts s)"
    using assms(2,3) by (auto simp: inv_def server_ok_def)
  then have "set (map peerID (optPeers (opts s))) = M - {s}"
    using assms(1) by (auto simp: config_ok_def)
  with s assms(4) show "p \<noteq> s" "p \<in> M" "s \<in> M"
    by auto
qed

lemma prepare_frame:
  assumes "replicatePeer_prepare p n = (a, n')"
  shows "db (store n') = db (store n) \<and> snapshotThreshold n' = snapshotThreshold n \<and> matchIndex n' = matchIndex n"
  using threshold_prepare [OF assms] matchIndex_prepare [OF assms] assms
  by (auto simp: replicatePeer_prepare_def Let_def split: prod.splits sum.splits if_splits dest!: reads_db)

lemma sent_request_ok:
  assumes cfg: "config_ok M opts" and inv: "inv M opts C" and up: "servers C s = Up n" and p: "p \<in> peerID ` set (peers n)"
    and n: "node_consistent G (elected C) s n" and room: "room (db (store n))"
    and run: "replicatePeer_prepare p n = (SendAppend sent req, n')"
  shows "request_ok G (elected C) (s, p, sent, req)"
proof -
  have w: "whole (db (store n))" and g: "gf n"
    using n by (auto simp: node_consistent_def whole_def)
  note E = prepare_entries [OF run g room]
  obtain lead: "role n = RoleLeader" and t: "aeTerm req = currentTerm n"
    and tp: "term_pos (aePrevLogIndex req) (db (store n)) = Inr (aePrevLogTerm req, True)"
    and sent: "sent = last_index (aePrevLogIndex req) (request_entries (Some req))"
    by (rule prepare_sends [OF run g])
  have L: "(currentTerm n, s) \<in> elected C"
    using inv up lead by (force simp: inv_def server_ok_def)
  have log: "llog G (aeTerm req) = node_log n"
    using n lead t by (simp add: node_consistent_def leader_node_def)
  have "if aePrevLogIndex req = 0 then aePrevLogTerm req = 0 else \<exists>c. node_log n (aePrevLogIndex req) = Some (aePrevLogTerm req, c)"
    using whole_term [OF w tp] tp by (auto simp: term_pos_def)
  then have "request_of (llog G (aeTerm req)) req"
    using E(1,2) unfolding log by (auto simp: request_of_def carried_def entry_at_def wf_append_def AppendEntriesRequest_GetPrevLogIndex_def)
  with L t sent peer_other(1) [OF cfg inv up p] show ?thesis
    by (simp add: request_ok_def)
qed

lemma step_send:
  assumes con: "consistent M G S" and cfg: "config_ok M opts" and inv: "inv M opts (core S)" and st: "steady (core S)"
    and up: "servers (core S) s = Up n" and p: "p \<in> peerID ` set (peers n)" and run: "replicatePeer_prepare p n = (a, n')"
  shows "consistent M G (S\<lparr>core := put s n' (core S), requests := sends s p a \<union> requests S\<rparr>)"
proof -
  note n = consistent_node [OF con up] and f = prepare_frame [OF run] and v = view_prepare [OF run]
  note c = calm_view [OF v]
  have "wf_tables (db (store n))"
    using n by (simp add: node_consistent_def whole_wf)
  then have log: "same_files_log n n'"
    using f by (simp add: same_log_refl)
  have t: "term_of (db (store n')) = currentTerm n'"
    using n f view_currentTerm [OF v] by (simp add: node_consistent_def)
  have n': "node_consistent G (elected (core S)) s n'"
    using f by (intro calm_consistent [OF n c log _ t]) auto
  note steady_room [OF st up]
  then have "request_ok G (elected (core S)) x" if "x \<in> sends s p a" for x
    using that run sent_request_ok [OF cfg inv up p n] by (auto simp: sends_def split: Attempt.splits)
  then have "traffic_ok G \<lparr>core = put s n' (core S), requests = sends s p a \<union> requests S, answers = answers S\<rparr>"
    using consistentD(4) [OF con] by (simp add: traffic_ok_def) blast
  from consistent_put [OF con up n' log calm_term [OF c] _ _ _ this] show ?thesis
    by (simp add: system_eta)
qed

section \<open>Votes and candidates\<close>

text \<open>A vote is part of the history, unless its term has a leader already or it was given before.\<close>

lemma consistent_vote:
  assumes con: "consistent M G S" and t: "terms (core S) v = u" and c: "u \<le> terms (core S) c"
    and up: "not_ahead (logs (core S) v) (clog G c u)" and once: "votes_once (insert (v, u, c) (cast (core S)))"
  shows "\<exists>G'. consistent M G' (S\<lparr>core := (core S)\<lparr>cast := insert (v, u, c) (cast (core S))\<rparr>\<rparr>) \<and> llog G' = llog G \<and> acked G' = acked G"
proof -
  note D = consistentD [OF con]
  let ?S = "S\<lparr>core := (core S)\<lparr>cast := insert (v, u, c) (cast (core S))\<rparr>\<rparr>"
  show ?thesis
  proof (cases "u \<in> fst ` elected (core S) \<or> (\<exists>c'. (v, u, c') \<in> early G)")
    case True
    have "(v, u, c) \<in> early G" if "u \<notin> fst ` elected (core S)"
    proof -
      from True that obtain c' where "(v, u, c') \<in> early G"
        by blast
      moreover from this have "(v, u, c') \<in> cast (core S)"
        using D(3) by (auto simp: votes_recorded_def)
      ultimately show ?thesis
        using once unfolding votes_once_def by blast
    qed
    then have "votes_recorded G (core ?S)"
      using D(3) c unfolding votes_recorded_def by auto
    with D show ?thesis
      by (intro exI [of _ G]) (simp add: consistent_def servers_ok_def traffic_ok_def)
  next
    case False
    let ?G = "G\<lparr>wlog := (wlog G)(v := (wlog G v)(u := logs (core S) v)), early := insert (v, u, c) (early G)\<rparr>"
    have "agreement (majority_of M) ?G (elected (core S)) (terms (core S)) (logs (core S))"
      using agreement_vote [OF D(1), of v c] False t up by simp
    moreover have "votes_recorded ?G (core ?S)"
      using D(3) c unfolding votes_recorded_def by auto
    moreover have "node_consistent ?G L s n = node_consistent G L s n" "request_ok ?G L x = request_ok G L x" "answer_ok ?G y = answer_ok G y"
      "election_recorded ?G e = election_recorded G e" for L s n x y e
      by (simp_all add: node_consistent_def candidate_node_def leader_node_def request_ok_def answer_ok_def election_recorded_def)
    ultimately show ?thesis
      using D by (intro exI [of _ ?G]) (simp add: consistent_def servers_ok_def traffic_ok_def)
  qed
qed

text \<open>The votes compare logs as \<open>not_ahead\<close> does.\<close>

lemma last_pos_is:
  assumes "whole T" and "last_pos T = Inr (l, t)"
  shows "last_is (log_entry T) l t"
proof -
  obtain b where b: "spans (log_entry T) 0 b"
    using whole_spans [OF assms(1)] by blast
  have sp: "gap_free T" "snap_pos T = Inr (0, 0)" and lo: "log_ok T"
    using assms(1) by (auto simp: whole_def gap_free_wf wf_tables_log)
  have l: "l = b"
    using gap_free_last [OF sp b] assms(2) by auto
  show ?thesis
  proof (cases "log_entries T = []")
    case True
    with assms(2) sp(2) b l show ?thesis
      by (simp add: last_pos_def last_is_def)
  next
    case False
    obtain k x c where r: "last (log_entries T) = (k, x, c)"
      by (cases "last (log_entries T)") auto
    then have "(k, x, c) \<in> set (log_entries T)"
      using False last_in_set by metis
    then have "map_of (log_entries T) k = Some (x, c)" "0 < k" "k < 2 ^ 63"
      using lo by (auto simp: log_ok_def wf_table_distinct)
    moreover have "l = uint64_of k" "t = uint64_of x"
      using assms(2) False r by (auto simp: last_pos_def)
    ultimately have "log_entry T l = Some (t, c)"
      using int64_of_uint64_of [of k] by (simp add: log_entry_def)
    moreover from this have "l \<noteq> 0"
      using spans_0 [OF b] by auto
    ultimately show ?thesis
      using b l by (auto simp: last_is_def)
  qed
qed

lemma matchIndex_helpers [simp]:
  "matchIndex (resetElectionDeadlineLocked n) = matchIndex n" "matchIndex (inc_rpc m r n) = matchIndex n"
  by (auto simp: resetElectionDeadlineLocked_def rand_Int63n_def time_Now_def inc_rpc_def Let_def split: prod.splits list.splits)

lemma matchIndex_snd_store [simp]: "matchIndex (snd (on_store m n)) = matchIndex n"
  by (cases "on_store m n") (auto dest: matchIndex_on_store)

lemma matchIndex_stepDown [simp]: "matchIndex (stepDownLocked t l n) = matchIndex n"
  by (simp add: stepDownLocked_def Let_def)

lemma matchIndex_RequestVote: "RequestVote req n = (r, n') \<Longrightarrow> matchIndex n' = matchIndex n"
  by (auto simp: RequestVote_def Let_def split: if_splits prod.splits sum.splits dest!: matchIndex_on_store)

lemma RequestVote_keeps_role: "RequestVote req n = (r, n') \<Longrightarrow> keeps_role n n'"
  by (drule RequestVote_view) (auto simp: keeps_role_def view_def calm_def Let_def)

lemma RequestVote_up_to_date:
  assumes "RequestVote req n = (r, n')" and "granted r" and "wf_tables (db (store n))"
  shows "\<exists>pos. last_pos (db (store n)) = Inr pos \<and> up_to_date req pos"
proof -
  have nlt: "\<not> RequestVoteRequest_GetTerm req < currentTerm n"
    using assms(1,2) by (auto simp: RequestVote_def granted_def)
  obtain q m where q: "on_store LastIndexAndTerm (vote_base req n) = (q, m)"
    by force
  have "last_pos (db (store (vote_base req n))) = last_pos (db (store n))"
    by (rule same_log_reads(4) [OF vote_base_same_log [OF assms(3)]])
  then have "q = last_pos (db (store n)) \<or> (\<exists>e. q = Inl e)"
    using on_store_db [OF q implements_LastIndexAndTerm] by auto
  moreover obtain pos where "q = Inr pos" "up_to_date req pos"
    using assms(1,2) RequestVote_cases [OF nlt q] by (auto simp: granted_def split: sum.splits if_splits)
  ultimately show ?thesis
    by (metis Inl_Inr_False)
qed

lemma up_to_date_not_ahead:
  assumes "whole T" and "last_pos T = Inr pos" and "up_to_date req pos"
    and "last_is C (RequestVoteRequest_GetLastLogIndex req) (RequestVoteRequest_GetLastLogTerm req)"
  shows "not_ahead (log_entry T) C"
proof -
  have "last_is (log_entry T) (fst pos) (snd pos)"
    using last_pos_is [OF assms(1)] assms(2) by simp
  with assms(3,4) show ?thesis
    unfolding not_ahead_def up_to_date_def less_eq_log_position_iff by blast
qed

lemma inv_election_vote:
  assumes "inv M opts C" and "E \<in> set (elections C)"
  shows "(eCandidate (election E), eTerm (election E), eCandidate (election E)) \<in> cast C"
  using assms by (auto simp: inv_def election_ok_def Let_def)

lemma step_deliver:
  assumes con: "consistent M G S" and inv: "inv M opts (core S)" and i: "i < length (elections (core S))" "e = election (elections (core S) ! i)"
    and up: "servers (core S) p = Up n" and run: "RequestVote (Some (election_request e)) n = (r, n')"
    and C: "C = (core S)\<lparr>servers := (servers (core S))(p := Up n'), replies := R,
      cast := (if granted r then insert (p, eTerm e, eCandidate e) (cast (core S)) else cast (core S))\<rparr>"
    and inv': "inv M opts C" and st: "steady C"
  shows "\<exists>G'. consistent M G' (S\<lparr>core := C\<rparr>) \<and> evolves G (elected (core S)) G' (elected C)"
proof -
  let ?C = "(core S)\<lparr>servers := (servers (core S))(p := Up n'), replies := R\<rparr>"
  note n = consistent_node [OF con up] and log = RequestVote_same_log [OF run]
  have w: "whole (db (store n))" "wf_tables (db (store n))"
    using n by (auto simp: node_consistent_def whole_wf)
  have tm: "term_of (db (store n')) = currentTerm n'"
    using steady_term [OF st, of p n'] by (simp add: C)
  have E: "elections (core S) ! i \<in> set (elections (core S))"
    using i(1) by simp
  have n': "node_consistent G (elected (core S)) p n'"
    by (rule role_consistent [OF n RequestVote_keeps_role [OF run] log [OF w(2)] threshold_RequestVote [OF run] tm])
      (simp add: matchIndex_RequestVote [OF run])
  have con1: "consistent M G (S\<lparr>core := ?C\<rparr>)"
    unfolding system_eta
    by (rule consistent_put [OF con up n' log [OF w(2)] RequestVote_term [OF run]])
      (use consistentD(4) [OF con] in \<open>simp_all add: traffic_ok_def\<close>)
  show ?thesis
  proof (cases "granted r")
    case False
    with con1 show ?thesis
      by (auto simp: C)
  next
    case True
    note V = inv_election_vote [OF inv E, folded i(2)]
    have "eCandidate e \<noteq> []"
      using inv_candidate [OF inv i(1)] i(2) by simp
    then have "durable (db (store n')) = Inr (eTerm e, eCandidate e)"
      using RequestVote_vote_ok(3) [OF run _ _ True] inv_server [OF inv up] by (simp add: election_request_def)
    then have t: "terms (core (S\<lparr>core := ?C\<rparr>)) p = eTerm e"
      by (simp add: term_of_def)
    have le: "eTerm e \<le> terms (core (S\<lparr>core := ?C\<rparr>)) (eCandidate e)"
      using consistentD(3) [OF con1] V unfolding votes_recorded_def by simp
    have "last_is (clog G (eCandidate e) (eTerm e)) (eLastLogIndex e) (eLastLogTerm e)"
      using consistentD(4) [OF con] E i(2) by (auto simp: traffic_ok_def election_recorded_def)
    moreover obtain pos where "last_pos (db (store n)) = Inr pos" "up_to_date (Some (election_request e)) pos"
      using RequestVote_up_to_date [OF run True w(2)] by blast
    ultimately have "not_ahead (node_log n) (clog G (eCandidate e) (eTerm e))"
      by (intro up_to_date_not_ahead [where req = "Some (election_request e)", OF w(1)]) (simp_all add: election_request_def)
    then have ahead: "not_ahead (logs (core (S\<lparr>core := ?C\<rparr>)) p) (clog G (eCandidate e) (eTerm e))"
      using same_log_reads(1) [OF log [OF w(2)]] by simp
    have "votes_once (insert (p, eTerm e, eCandidate e) (cast (core (S\<lparr>core := ?C\<rparr>))))"
      using inv' True by (simp add: inv_def C)
    from consistent_vote [OF con1 t le ahead this] True show ?thesis
      by (auto simp: C intro: evolves_same)
  qed
qed

text \<open>A server that becomes a candidate moves to a term no vote and no leader of its own belongs to.\<close>

lemma elected_terms:
  assumes "consistent M G S" and "inv M opts (core S)" and "(u, a) \<in> elected (core S)"
  shows "u \<le> terms (core S) a"
proof -
  have "majority_of M {v. (v, u, a) \<in> cast (core S)}"
    using assms(2,3) by (auto simp: inv_def elected_ok_def)
  then obtain v where "(v, u, a) \<in> cast (core S)"
    using majority.intersect by fastforce
  with consistentD(3) [OF assms(1)] show ?thesis
    by (simp add: votes_recorded_def)
qed

definition remember_candidate :: "bytes \<Rightarrow> u64 \<Rightarrow> log \<Rightarrow> bytes history \<Rightarrow> bytes history" where
  "remember_candidate s u X G = G\<lparr>clog := (clog G)(s := (clog G s)(u := X))\<rparr>"

lemma evolves_candidate: "evolves G L (remember_candidate s u X G) L"
  by (simp add: remember_candidate_def evolves_same)

lemma consistent_candidate:
  assumes con: "consistent M G S" and inv: "inv M opts (core S)" and u: "terms (core S) s < u"
  shows "consistent M (remember_candidate s u X G) S"
proof -
  note D = consistentD [OF con]
  let ?G = "remember_candidate s u X G"
  have cast: "(v, u, s) \<notin> cast (core S)" for v
    using D(3) u by (auto simp: votes_recorded_def not_le [symmetric])
  have el: "(u, s) \<notin> elected (core S)"
    using elected_terms [OF con inv] u by (auto simp: not_le [symmetric])
  have "agreement (majority_of M) ?G (elected (core S)) (terms (core S)) (logs (core S))"
    unfolding remember_candidate_def using D(3) cast el by (intro agreement_candidate [OF D(1)]) (auto simp: votes_recorded_def)
  moreover have "node_consistent ?G (elected (core S)) v n" if "servers (core S) v = Up n" for v n
  proof -
    have "node_consistent G (elected (core S)) v n"
      by (rule consistent_node [OF con that])
    moreover from this have "v = s \<Longrightarrow> currentTerm n \<noteq> u"
      using that u by (auto simp: node_consistent_def)
    ultimately show ?thesis
      by (auto simp: node_consistent_def candidate_node_def leader_node_def remember_candidate_def)
  qed
  moreover have "election_recorded ?G (election E)" if "E \<in> set (elections (core S))" for E
  proof -
    have "eCandidate (election E) \<noteq> s \<or> eTerm (election E) \<noteq> u"
      using inv_election_vote [OF inv that] cast by auto
    with D(4) that show ?thesis
      by (auto simp: traffic_ok_def election_recorded_def remember_candidate_def)
  qed
  ultimately show ?thesis
    using D by (simp add: consistent_def servers_ok_def traffic_ok_def votes_recorded_def request_ok_def answer_ok_def remember_candidate_def)
qed

lemma begin_consistent:
  assumes con: "consistent M G S" and inv: "inv M opts (core S)" and up: "servers (core S) s = Up n"
    and t: "currentTerm n \<noteq> - 1" and run: "startElection_begin n = (e, n')" and nl: "role n \<noteq> RoleLeader"
    and tm: "term_of (db (store n')) = currentTerm n'"
  defines "G' \<equiv> remember_candidate s (currentTerm n') (node_log n) G"
  shows "consistent M G' (S\<lparr>core := put s n' (core S)\<rparr>)"
proof -
  note n = consistent_node [OF con up]
  have u: "role n' = RoleCandidate" "currentTerm n' = currentTerm n + 1" "currentTerm n < currentTerm n'"
    using startElection_begin_view [OF run nl] t by (auto simp: u64_less_Suc word_order.not_eq_extremum)
  have w: "whole (db (store n))" "terms (core S) s = currentTerm n"
    using n up by (auto simp: node_consistent_def)
  have con': "consistent M G' S"
    unfolding G'_def by (rule consistent_candidate [OF con inv]) (use w(2) u(3) in simp)
  have log: "same_files_log n n'"
    by (rule begin_same_log [OF run whole_wf [OF w(1)]])
  have "(currentTerm n', s) \<notin> elected (core S)"
    using elected_terms [OF con inv, of "currentTerm n'" s] w(2) u(3) by (auto simp: not_le [symmetric])
  then have n': "node_consistent G' (elected (core S)) s n'"
    using n u(1) tm threshold_begin [OF run] whole_same_log [OF w(1) log] same_log_reads(1) [OF log]
    by (simp add: node_consistent_def candidate_node_def G'_def remember_candidate_def)
  show ?thesis
    unfolding system_eta
    by (rule consistent_put [OF con' up n' log]) (use consistentD(4) [OF con'] u(3) in \<open>simp_all add: traffic_ok_def\<close>)
qed

lemma step_timeout:
  assumes con: "consistent M G S" and inv: "inv M opts (core S)" and up: "servers (core S) s = Up n"
    and t: "currentTerm n \<noteq> - 1" and run: "startElection_begin n = (None, n')" and st: "steady (put s n' (core S))"
  shows "\<exists>G'. consistent M G' (S\<lparr>core := put s n' (core S)\<rparr>) \<and> evolves G (elected (core S)) G' (elected (core S))"
proof (cases "role n = RoleLeader")
  case True
  then have "n' = n"
    using run by (simp add: startElection_begin_leader)
  then have "put s n' (core S) = core S"
    using up by (simp add: fun_upd_idem)
  with con show ?thesis
    by (intro exI [of _ G]) simp
next
  case False
  have "term_of (db (store n')) = currentTerm n'"
    using steady_term [OF st, of s n'] by simp
  from begin_consistent [OF con inv up t run False this] show ?thesis
    using evolves_candidate by blast
qed

lemma begin_last_pos:
  assumes "startElection_begin n = (Some e, n')" and "wf_tables (db (store n))"
  shows "last_pos (db (store n)) = Inr (eLastLogIndex e, eLastLogTerm e)"
proof -
  let ?n1 = "n\<lparr>role := RoleCandidate, currentTerm := currentTerm n + 1, votedFor := nid n, leaderID := []\<rparr>"
  obtain x n2 where s: "on_store (SaveTermVote (currentTerm n + 1) (nid n)) ?n1 = (x, n2)"
    by force
  have log: "same_files_log n n2"
    using SaveTermVote_same_log [OF s] assms(2) by simp
  obtain y n3 where t: "on_store LastIndexAndTerm n2 = (y, n3)"
    by force
  have "y = Inr (eLastLogIndex e, eLastLogTerm e)"
    using assms(1) s t by (auto simp: startElection_begin_def Let_def split: sum.splits if_splits)
  then have "last_pos (db (store n2)) = Inr (eLastLogIndex e, eLastLogTerm e)"
    using on_store_db [OF t implements_LastIndexAndTerm] by auto
  then show ?thesis
    using same_log_reads(4) [OF log] by simp
qed

lemma step_campaign:
  assumes con: "consistent M G S" and inv: "inv M opts (core S)" and up: "servers (core S) s = Up n"
    and t: "currentTerm n \<noteq> - 1" and run: "startElection_begin n = (Some e, n')"
    and C: "C = (core S)\<lparr>servers := (servers (core S))(s := Up n'), elections := elections (core S) @ [E],
      cast := insert (s, eTerm e, eCandidate e) (cast (core S))\<rparr>" and E: "election E = e"
    and inv': "inv M opts C" and st: "steady C"
  shows "\<exists>G'. consistent M G' (S\<lparr>core := C\<rparr>) \<and> evolves G (elected (core S)) G' (elected C)"
proof -
  note e = startElection_begin_election [OF run]
  have nl: "role n \<noteq> RoleLeader" and sid: "eCandidate e = s"
    using e inv_server [OF inv up] by auto
  have v: "currentTerm n' = eTerm e"
    using startElection_begin_view [OF run nl] e by simp
  have tm: "term_of (db (store n')) = currentTerm n'"
    using steady_term [OF st, of s n'] by (simp add: C)
  have w: "whole (db (store n))"
    using consistent_node [OF con up] by (simp add: node_consistent_def)
  define G1 where "G1 = remember_candidate s (currentTerm n') (node_log n) G"
  note con1 = begin_consistent [OF con inv up t run nl tm, folded G1_def]
  have cl: "clog G1 s (eTerm e) = node_log n"
    by (simp add: G1_def remember_candidate_def v)
  have last: "last_is (node_log n) (eLastLogIndex e) (eLastLogTerm e)"
    by (rule last_pos_is [OF w begin_last_pos [OF run whole_wf [OF w]]])
  let ?S = "S\<lparr>core := (put s n' (core S))\<lparr>elections := elections (core S) @ [E]\<rparr>\<rparr>"
  have "election_recorded G1 e"
    using last by (simp add: election_recorded_def sid cl)
  then have con2: "consistent M G1 ?S"
    using con1 by (auto simp: consistent_def servers_ok_def votes_recorded_def traffic_ok_def E)
  have log: "node_log n' = node_log n"
    by (rule same_log_reads(1) [OF begin_same_log [OF run whole_wf [OF w]]])
  have tms: "terms (core ?S) s = eTerm e"
    using tm v by simp
  have ahead: "not_ahead (logs (core ?S) s) (clog G1 s (eTerm e))"
    using last log by (auto simp: cl not_ahead_def)
  have "votes_once (insert (s, eTerm e, s) (cast (core ?S)))"
    using inv' by (simp add: inv_def C sid)
  from consistent_vote [OF con2 tms _ ahead this] tms show ?thesis
    by (auto simp: C sid G1_def remember_candidate_def intro: evolves_same)
qed

section \<open>Elections won\<close>

text \<open>The new leader's log becomes the log of its term, and the leader acknowledges it.\<close>

lemma request_of_later: "request_of (H t) req \<Longrightarrow> later H E H' E' \<Longrightarrow> t \<in> E \<Longrightarrow> request_of (H' t) req"
  using later_entry [of H E H' E' t] by (auto simp: request_of_def carried_def split: if_splits)

lemma request_ok_later:
  assumes "request_ok G L x" and "later (llog G) (fst ` L) (llog G') (fst ` L')" and "L \<subseteq> L'"
  shows "request_ok G' L' x"
proof -
  obtain l p sent req where x: "x = (l, p, sent, req)"
    by (cases x) auto
  have r: "(aeTerm req, l) \<in> L" "request_of (llog G (aeTerm req)) req"
    using assms(1) by (auto simp: request_ok_def x)
  then have "aeTerm req \<in> fst ` L"
    by force
  with request_of_later [OF r(2) assms(2)] assms r(1) show ?thesis
    by (auto simp: request_ok_def x)
qed

definition remember_log :: "bytes \<Rightarrow> u64 \<Rightarrow> log \<Rightarrow> u64 \<Rightarrow> bytes history \<Rightarrow> bytes history" where
  "remember_log s u X l G = G\<lparr>llog := (llog G)(u := X), acked := insert (s, u, l) (acked G)\<rparr>"

lemma step_win:
  assumes con: "consistent M G S" and inv: "inv M opts (core S)" and up: "servers (core S) s = Up n"
    and lead: "leads n n'" and db: "db (store n') = db (store n)" and thr: "snapshotThreshold n' = 0"
    and mi: "\<And>p. p \<in> peerID ` set (peers n) \<Longrightarrow> matchIndex n' p = 0"
    and C: "C = (core S)\<lparr>servers := (servers (core S))(s := Up n'), elections := Es, elected := insert (currentTerm n', s) (elected (core S))\<rparr>"
    and Es: "\<And>E. E \<in> set Es \<Longrightarrow> election_recorded G (election E)"
    and inv': "inv M opts C"
  shows "\<exists>G'. consistent M G' (S\<lparr>core := C\<rparr>) \<and> evolves G (elected (core S)) G' (elected C)"
proof -
  note D = consistentD [OF con] and n = consistent_node [OF con up]
  have n': "role n = RoleCandidate" "role n' = RoleLeader" "currentTerm n' = currentTerm n" "peers n' = peers n"
    using lead by (auto simp: leads_def view_def)
  let ?u = "currentTerm n"
  have w: "whole (db (store n))" "terms (core S) s = ?u" "clog G s ?u = node_log n" and notL: "(?u, s) \<notin> elected (core S)"
    using n up n'(1) by (auto simp: node_consistent_def candidate_node_def)
  have tms: "terms C = terms (core S)" and lgs: "logs C = logs (core S)"
    using up db by (auto simp: C fun_eq_iff)
  have new: "?u \<notin> fst ` elected (core S)"
  proof
    assume "?u \<in> fst ` elected (core S)"
    then obtain b where b: "(?u, b) \<in> elected (core S)"
      by force
    then have "b = s"
      using majority.one_winner [of "cast C" M ?u b s] inv' by (auto simp: inv_def votes_once_def elected_ok_def C n'(3))
    with b notL show False
      by simp
  qed
  have maj: "majority_of M {v. (v, ?u, s) \<in> cast (core S)}"
    using inv' by (auto simp: inv_def elected_ok_def C n'(3))
  have early: "(v, ?u, s) \<in> early G" if "v \<in> {v. (v, ?u, s) \<in> cast (core S)}" for v
    using D(3) that new unfolding votes_recorded_def by blast
  obtain l where l: "spans (node_log n) 0 l"
    using whole_spans [OF w(1)] by blast
  let ?G1 = "G\<lparr>llog := (llog G)(?u := node_log n)\<rparr>"
  let ?L = "insert (?u, s) (elected (core S))"
  have a1: "agreement (majority_of M) ?G1 ?L (terms (core S)) (logs (core S))"
    using agreement_win [OF D(1), of s "{v. (v, ?u, s) \<in> cast (core S)}"] new w early maj up by simp
  define G' where "G' = remember_log s ?u (node_log n) l G"
  have G'1: "G' = ?G1\<lparr>acked := insert (s, ?u, l) (acked ?G1)\<rparr>"
    by (simp add: G'_def remember_log_def)
  have "agreement (majority_of M) G' ?L (terms (core S)) (logs (core S))"
    unfolding G'1 using agreement_ack [OF a1, of s l] w(2) up spans_iff [OF l] by simp
  then have ag: "agreement (majority_of M) G' (elected C) (terms C) (logs C)"
    unfolding tms lgs by (simp add: C n'(3))
  have lt: "later (llog G) (fst ` elected (core S)) (llog G') (fst ` ?L)"
    using new by (force simp: later_def G'_def remember_log_def)
  have old: "llog G' t = llog G t" if "t \<in> fst ` elected (core S)" for t
  proof -
    have "t \<noteq> ?u"
      using new that by blast
    then show ?thesis
      by (simp add: G'_def remember_log_def)
  qed
  have "node_consistent G' (elected C) v m" if m: "servers C v = Up m" for v m
  proof (cases "v = s")
    case True
    then have "m = n'"
      using m by (simp add: C)
    with n n' thr db w(2) up mi l True show ?thesis
      by (auto simp: node_consistent_def leader_node_def G'_def remember_log_def)
  next
    case False
    then have up': "servers (core S) v = Up m"
      using m by (simp add: C)
    have "llog G' (currentTerm m) = llog G (currentTerm m)" if "role m = RoleLeader"
      using inv up' that by (intro old) (force simp: inv_def server_ok_def)
    with consistent_node [OF con up'] False show ?thesis
      by (auto simp: node_consistent_def leader_node_def candidate_node_def C) (auto simp: G'_def remember_log_def)
  qed
  then have "servers_ok G' C"
    using D(2) db whole_stored [OF w(1)] by (auto simp: servers_ok_def C)
  moreover have "traffic_ok G' (S\<lparr>core := C\<rparr>)"
  proof -
    have "request_ok G' (elected C) x" if "x \<in> requests S" for x
    proof -
      have r: "request_ok G (elected (core S)) x" "elected C = ?L"
        using D(4) that by (simp_all add: traffic_ok_def C n'(3))
      show ?thesis
        unfolding r(2) by (rule request_ok_later [OF r(1) lt subset_insertI])
    qed
    moreover have "answer_ok G' x" if "x \<in> answers S" for x
      using D(4) that by (auto simp: traffic_ok_def answer_ok_def G'_def remember_log_def)
    moreover have "election_recorded G' (election E)" if "E \<in> set Es" for E
      using Es [OF that] by (simp add: election_recorded_def G'_def remember_log_def)
    ultimately show ?thesis
      by (simp add: traffic_ok_def C)
  qed
  moreover have "votes_recorded G' C"
  proof -
    have "terms C c = terms (core S) c" for c
      using fun_cong [OF tms] .
    with D(3) show ?thesis
      unfolding votes_recorded_def by (auto simp: G'_def remember_log_def) (auto simp: C)
  qed
  moreover have "evolves G (elected (core S)) G' (elected C)"
    using lt by (auto simp: evolves_def C n'(3) G'_def remember_log_def)
  ultimately show ?thesis
    using ag by (auto simp: consistent_def)
qed

text \<open>Answers to votes, and a cluster of one server.\<close>

lemma leads_becomeLeader:
  assumes "leads n (becomeLeaderLocked n)"
  shows "db (store (becomeLeaderLocked n)) = db (store n)" and "snapshotThreshold (becomeLeaderLocked n) = snapshotThreshold n"
    and "\<And>p. p \<in> peerID ` set (peers n) \<Longrightarrow> p \<noteq> nid n \<Longrightarrow> matchIndex (becomeLeaderLocked n) p = 0"
proof -
  have "role n \<noteq> RoleLeader" "role (becomeLeaderLocked n) = RoleLeader"
    using assms by (simp_all add: leads_def view_def)
  then show "\<And>p. p \<in> peerID ` set (peers n) \<Longrightarrow> p \<noteq> nid n \<Longrightarrow> matchIndex (becomeLeaderLocked n) p = 0"
    by (intro becomeLeader_matchIndex)
qed simp_all

lemma reply_runs:
  assumes "startElection_reply resp e n = (e', n')" and "leads n n'"
  shows "n' = becomeLeaderLocked n"
proof -
  have "role n = RoleCandidate" "role n' = RoleLeader"
    using assms(2) by (simp_all add: leads_def view_def)
  with assms(1) show ?thesis
    by (auto simp: startElection_reply_def Let_def split: if_splits)
qed

lemma reply_election:
  assumes "startElection_reply resp e n = (e', n')"
  shows "eLastLogIndex e' = eLastLogIndex e \<and> eLastLogTerm e' = eLastLogTerm e \<and> eCandidate e' = eCandidate e \<and> eTerm e' = eTerm e"
  using assms by (auto simp: startElection_reply_def Let_def split: if_splits)

lemma matchIndex_reply:
  assumes "startElection_reply resp e n = (e', n')" and "calm n n'" and "role n' = RoleLeader"
  shows "matchIndex n' = matchIndex n"
proof -
  have "role n = RoleLeader"
    using assms(2,3) by (auto simp: calm_def Let_def)
  with assms(1) show ?thesis
    by (auto simp: startElection_reply_def split: if_splits)
qed

lemma step_candidate_move:
  assumes con: "consistent M G S" and cfg: "config_ok M opts" and inv: "inv M opts (core S)" and up: "servers (core S) s = Up n"
    and run: "calm n n' \<and> (role n' = RoleLeader \<longrightarrow> matchIndex n' = matchIndex n) \<or> leads n n' \<and> n' = becomeLeaderLocked n"
    and log: "same_files_log n n'" and thr: "snapshotThreshold n' = snapshotThreshold n"
    and C: "C = (core S)\<lparr>servers := (servers (core S))(s := Up n'), elections := Es, elected := record_leader n n' (elected (core S))\<rparr>"
    and Es: "\<And>E. E \<in> set Es \<Longrightarrow> election_recorded G (election E)"
    and inv': "inv M opts C" and st: "steady C"
  shows "\<exists>G'. consistent M G' (S\<lparr>core := C\<rparr>) \<and> evolves G (elected (core S)) G' (elected C)"
  using run
proof
  note n = consistent_node [OF con up]
  have tm: "term_of (db (store n')) = currentTerm n'"
    using steady_term [OF st, of s n'] by (simp add: C)
  assume c: "calm n n' \<and> (role n' = RoleLeader \<longrightarrow> matchIndex n' = matchIndex n)"
  then have L: "record_leader n n' (elected (core S)) = elected (core S)"
    by (auto simp: record_leader_def calm_def Let_def)
  have n': "node_consistent G (elected (core S)) s n'"
    using c by (intro calm_consistent [OF n _ log thr tm]) auto
  have "consistent M G (S\<lparr>core := C\<rparr>)"
    unfolding system_eta
    by (rule consistent_put [OF con up n' log]) (use c consistentD(4) [OF con] Es in \<open>auto simp: C L traffic_ok_def calm_term\<close>)
  then show ?thesis
    by (auto simp: C L)
next
  assume l: "leads n n' \<and> n' = becomeLeaderLocked n"
  note b = leads_becomeLeader [of n]
  have "record_leader n n' (elected (core S)) = insert (currentTerm n', s) (elected (core S))"
    using l inv_server [OF inv up] by (auto simp: record_leader_def leads_def view_def)
  then have C': "C = (core S)\<lparr>servers := (servers (core S))(s := Up n'), elections := Es, elected := insert (currentTerm n', s) (elected (core S))\<rparr>"
    by (simp add: C)
  have "snapshotThreshold n' = 0"
    using consistent_node [OF con up] thr by (simp add: node_consistent_def)
  moreover have "matchIndex n' p = 0" if "p \<in> peerID ` set (peers n)" for p
    using b(3) [of p] l that peer_other(1) [OF cfg inv up that] inv_server [OF inv up] by auto
  ultimately show ?thesis
    using b(1) l by (intro step_win [OF con inv up _ _ _ _ C' Es inv']) auto
qed

lemma step_answer:
  assumes con: "consistent M G S" and cfg: "config_ok M opts" and inv: "inv M opts (core S)" and E: "i < length (elections (core S))" "elections (core S) ! i = E"
    and up: "servers (core S) s = Up n" and run: "startElection_reply resp (election E) n = (e', n')"
    and C: "C = (core S)\<lparr>servers := (servers (core S))(s := Up n'), elections := (elections (core S))[i := E\<lparr>election := e', waiting := W\<rparr>],
      elected := record_leader n n' (elected (core S))\<rparr>"
    and inv': "inv M opts C" and st: "steady C"
  shows "\<exists>G'. consistent M G' (S\<lparr>core := C\<rparr>) \<and> evolves G (elected (core S)) G' (elected C)"
proof -
  have wf: "wf_tables (db (store n))"
    using consistent_node [OF con up] by (simp add: node_consistent_def whole_wf)
  have "calm n n' \<and> (role n' = RoleLeader \<longrightarrow> matchIndex n' = matchIndex n) \<or> leads n n' \<and> n' = becomeLeaderLocked n"
    using startElection_reply_cases [OF run] matchIndex_reply [OF run] reply_runs [OF run] by blast
  moreover have "election_recorded G (election X)" if "X \<in> set ((elections (core S))[i := E\<lparr>election := e', waiting := W\<rparr>])" for X
  proof -
    have rec: "election_recorded G (election Y)" if "Y \<in> set (elections (core S))" for Y
      using consistentD(4) [OF con] that by (simp add: traffic_ok_def)
    have "X \<in> set (elections (core S)) \<or> X = E\<lparr>election := e', waiting := W\<rparr>"
      using that set_update_subset_insert by fastforce
    moreover have "election_recorded G e'"
      using rec [of E] E reply_election [OF run] by (auto simp: election_recorded_def)
    ultimately show ?thesis
      using rec by auto
  qed
  ultimately show ?thesis
    by (rule step_candidate_move [OF con cfg inv up _ vote_reply_same_log [OF run wf] threshold_vote_reply [OF run] C _ inv' st])
qed

lemma step_single:
  assumes con: "consistent M G S" and cfg: "config_ok M opts" and inv: "inv M opts (core S)" and up: "servers (core S) s = Up n"
    and n': "n' = startElection_single e n"
    and C: "C = (core S)\<lparr>servers := (servers (core S))(s := Up n'), elected := record_leader n n' (elected (core S))\<rparr>"
    and inv': "inv M opts C" and st: "steady C"
  shows "\<exists>G'. consistent M G' (S\<lparr>core := C\<rparr>) \<and> evolves G (elected (core S)) G' (elected C)"
proof -
  have wf: "wf_tables (db (store n))"
    using consistent_node [OF con up] by (simp add: node_consistent_def whole_wf)
  have run: "calm n n' \<and> (role n' = RoleLeader \<longrightarrow> matchIndex n' = matchIndex n) \<or> leads n n' \<and> n' = becomeLeaderLocked n"
  proof (cases "leads n n'")
    case True
    then have "role n = RoleCandidate" "role n' = RoleLeader"
      by (simp_all add: leads_def view_def)
    with True show ?thesis
      by (auto simp: n' startElection_single_def split: if_splits)
  next
    case False
    then have c: "calm n n'"
      using startElection_single_cases [of n e] n' by auto
    moreover have "matchIndex n' = matchIndex n" if "role n' = RoleLeader"
    proof -
      have "role n = RoleLeader"
        using c that by (auto simp: calm_def Let_def)
      then show ?thesis
        by (simp add: n' startElection_single_def)
    qed
    ultimately show ?thesis
      by blast
  qed
  have log: "same_files_log n n'" and thr: "snapshotThreshold n' = snapshotThreshold n"
    using wf by (simp_all add: n' startElection_single_def same_log_refl)
  have C': "C = (core S)\<lparr>servers := (servers (core S))(s := Up n'), elections := elections (core S), elected := record_leader n n' (elected (core S))\<rparr>"
    by (simp add: C)
  show ?thesis
    by (rule step_candidate_move [OF con cfg inv up run log thr C' _ inv' st])
      (use consistentD(4) [OF con] in \<open>simp add: traffic_ok_def\<close>)
qed

section \<open>Crashes and restarts\<close>

lemma consistent_server:
  assumes con: "consistent M G S" and S': "stored (files D)" "log_entry (files D) = logs (core S) s" "term_of (files D) = terms (core S) s"
    and n': "\<And>n. D = Up n \<Longrightarrow> node_consistent G (elected (core S)) s n"
    and C: "servers C = (servers (core S))(s := D)" "elected C = elected (core S)" "cast C = cast (core S)"
      "\<And>E. E \<in> set (elections C) \<Longrightarrow> election E \<in> election ` set (elections (core S))"
  shows "consistent M G (S\<lparr>core := C\<rparr>)"
proof -
  note K = consistentD [OF con]
  have lgs: "logs C = logs (core S)" and tms: "terms C = terms (core S)"
    using S' by (auto simp: C fun_eq_iff)
  have "agreement (majority_of M) G (elected C) (terms C) (logs C)"
    using K(1) unfolding lgs tms C(2) .
  moreover have "servers_ok G C"
    using K(2) S'(1) n' by (auto simp: servers_ok_def C)
  moreover have "votes_recorded G C"
  proof -
    have "terms C c = terms (core S) c" for c
      using fun_cong [OF tms] .
    with K(3) show ?thesis
      unfolding votes_recorded_def C(2,3) by auto
  qed
  moreover have "traffic_ok G (S\<lparr>core := C\<rparr>)"
    using K(4) C(2,4) unfolding traffic_ok_def by fastforce
  ultimately show ?thesis
    by (simp add: consistent_def)
qed

lemma step_crash:
  assumes con: "consistent M G S" and up: "servers (core S) s = Up n"
    and C: "C = (core S)\<lparr>servers := (servers (core S))(s := Down (db (store n))), elections := map f (elections (core S))\<rparr>"
    and f: "\<And>E. election (f E) = election E"
  shows "consistent M G (S\<lparr>core := C\<rparr>)"
  by (rule consistent_server [OF con, of "Down (db (store n))" s])
    (use consistent_node [OF con up] up in \<open>auto simp: C f node_consistent_def whole_stored\<close>)

lemma server_stored: "consistent M G S \<Longrightarrow> stored (files (servers (core S) s))"
  by (simp add: consistent_def servers_ok_def)

lemma step_restart:
  assumes con: "consistent M G S" and down: "servers (core S) s = Down T" and order: "set order = set defaults"
    and run: "New (opts s) order T script clk rnd = (Inr n, T')" and off: "optSnapshotThreshold (opts s) = 0"
  shows "consistent M G (S\<lparr>core := put s n (core S)\<rparr>)"
proof -
  have st: "stored T"
    using server_stored [OF con, of s] down by simp
  note R = New_running [OF run order] and N = New_stored [OF run order st]
  have w: "whole (db (store n))"
    using N st by (simp add: stored_def)
  have n: "node_consistent G (elected (core S)) s n"
    using R N off w by (simp add: node_consistent_def term_of_def)
  show ?thesis
    by (rule consistent_server [OF con, of "Up n" s]) (use down R N n w in \<open>auto simp: whole_stored term_of_def\<close>)
qed

lemma step_failed_start:
  assumes con: "consistent M G S" and down: "servers (core S) s = Down T" and order: "set order = set defaults"
    and run: "New (opts s) order T script clk rnd = (Inl err, T')"
  shows "consistent M G (S\<lparr>core := (core S)\<lparr>servers := (servers (core S))(s := Down T')\<rparr>\<rparr>)"
proof -
  have st: "stored T"
    using server_stored [OF con, of s] down by simp
  note N = New_failed_stored [OF run order st] and R = New_failed [OF run order]
  have "log_entry T' = log_entry T"
    using N opened_log(2) by metis
  then show ?thesis
    by (intro consistent_server [OF con, of "Down T'" s]) (use down R N in \<open>auto simp: term_of_def\<close>)
qed

section \<open>Replication\<close>

definition remember_ack :: "bytes \<Rightarrow> u64 \<Rightarrow> u64 \<Rightarrow> bytes history \<Rightarrow> bytes history" where
  "remember_ack v t i G = G\<lparr>acked := insert (v, t, i) (acked G)\<rparr>"

lemma evolves_ack: "evolves G L (remember_ack v t i G) L"
  by (auto simp: remember_ack_def intro: evolves_same)

lemma consistent_ack:
  assumes con: "consistent M G S" and t: "t = terms (core S) v" "t \<in> fst ` elected (core S)"
    and a: "agree (logs (core S) v) (llog G t) i" and e: "\<And>j. 0 < j \<Longrightarrow> j \<le> i \<Longrightarrow> llog G t j \<noteq> None"
  shows "consistent M (remember_ack v t i G) S"
proof -
  note K = consistentD [OF con]
  let ?G = "remember_ack v t i G"
  have "agreement (majority_of M) ?G (elected (core S)) (terms (core S)) (logs (core S))"
    unfolding remember_ack_def t(1) by (rule agreement_ack [OF K(1)]) (use t a e in auto)
  moreover have "node_consistent ?G L s n" if "node_consistent G L s n" for L s n
    using that by (auto simp: node_consistent_def candidate_node_def leader_node_def remember_ack_def)
  moreover have "answer_ok ?G x" if "answer_ok G x" for x
    using that by (auto simp: answer_ok_def remember_ack_def)
  moreover have "request_ok ?G = request_ok G" "election_recorded ?G = election_recorded G"
    by (auto simp: fun_eq_iff request_ok_def election_recorded_def remember_ack_def)
  moreover have "votes_recorded ?G = votes_recorded G"
    by (auto simp: fun_eq_iff votes_recorded_def remember_ack_def)
  ultimately show ?thesis
    using K by (simp add: consistent_def servers_ok_def traffic_ok_def)
qed

text \<open>A server in the term of a leader takes over a part of the leader's log.\<close>

lemma consistent_take:
  assumes con: "consistent M G S" and up: "servers (core S) p = Up n" and t: "t \<in> fst ` elected (core S)"
    and n': "node_consistent G (elected (core S)) p n'" "currentTerm n' = t" "currentTerm n \<le> t"
    and log: "node_log n' = node_log n \<or> (\<exists>s. takes (llog G t) s (node_log n) (node_log n'))"
  shows "consistent M G (S\<lparr>core := put p n' (core S)\<rparr>)"
proof -
  note K = consistentD [OF con]
  let ?C = "put p n' (core S)"
  have tp: "terms ?C p = t" and tn: "terms (core S) p = currentTerm n"
    using n' consistent_node [OF con up] up by (auto simp: node_consistent_def)
  have tm: "terms (core S) v \<le> terms ?C v" for v
    using n'(3) tp tn by (cases "v = p") auto
  have bump: "agreement (majority_of M) G (elected (core S)) (terms ?C) (logs (core S))"
    by (rule agreement_bump [OF K(1) tm])
  have lg: "logs ?C = (logs (core S))(p := node_log n')"
    by (auto simp: fun_eq_iff)
  have "agreement (majority_of M) G (elected (core S)) (terms ?C) ((logs (core S))(p := node_log n'))"
    using log
  proof (elim disjE exE)
    assume "node_log n' = node_log n"
    then have "(logs (core S))(p := node_log n') = logs (core S)"
      using up by (auto simp: fun_eq_iff)
    with bump show ?thesis
      by (simp only:)
  next
    fix s assume "takes (llog G t) s (node_log n) (node_log n')"
    then show ?thesis
      by (intro agreement_accept [OF bump, of p s]) (use t tp up in simp_all)
  qed
  then have "agreement (majority_of M) G (elected ?C) (terms ?C) (logs ?C)"
    unfolding lg by simp
  moreover have "servers_ok G ?C"
    using K(2) n'(1) whole_stored by (auto simp: servers_ok_def node_consistent_def)
  moreover have "votes_recorded G ?C"
    by (rule votes_recorded_mono [OF K(3) tm]) simp_all
  moreover have "traffic_ok G (S\<lparr>core := ?C\<rparr>)"
    using K(4) by (simp add: traffic_ok_def)
  ultimately show ?thesis
    by (simp add: consistent_def)
qed

lemma consistent_matching:
  assumes con: "consistent M G S" and t: "t \<in> fst ` elected (core S)"
  shows "matching (logs (core S) s) (llog G t)" and "\<exists>h. spans (llog G t) 0 h"
proof -
  note A = agreementD [OF consistentD(1) [OF con]]
  have "sound (llog G) (fst ` elected (core S)) t (llog G t)" "sound (llog G) (fst ` elected (core S)) (terms (core S) s) (logs (core S) s)"
    using leaders_sound [OF A(1) t] A(4) [of s] by auto
  then show "matching (logs (core S) s) (llog G t)" "\<exists>h. spans (llog G t) 0 h"
    unfolding matching_def sound_def using matched_agree by blast+
qed

lemma consistent_answer:
  assumes "consistent M G (S\<lparr>core := C\<rparr>)" and "\<And>x. x \<in> A \<Longrightarrow> answer_ok G x"
  shows "consistent M G (S\<lparr>core := C, answers := A\<rparr>)"
  using assms by (simp add: consistent_def traffic_ok_def)

lemma step_receive:
  assumes con: "consistent M G S" and req: "(l, p, sent, req) \<in> requests S" and up: "servers (core S) p = Up n"
    and run: "AppendEntries_rpc (Some req) n = (r, n')" and st: "steady (put p n' (core S))"
    and A: "A = (case r of Inl _ \<Rightarrow> answers S | Inr resp \<Rightarrow> insert (l, p, aeTerm req, sent, resp) (answers S))"
  shows "\<exists>G'. consistent M G' (S\<lparr>core := put p n' (core S), answers := A\<rparr>) \<and> evolves G (elected (core S)) G' (elected (core S))"
proof -
  note n = consistent_node [OF con up]
  let ?t = "aeTerm req" and ?C = "put p n' (core S)"
  have w: "whole (db (store n))" "snapshotThreshold n = 0"
    using n by (auto simp: node_consistent_def)
  have R: "(?t, l) \<in> elected (core S)" "request_of (llog G ?t) req" "sent = last_index (aePrevLogIndex req) (request_entries (Some req))"
    using consistentD(4) [OF con] req by (auto simp: traffic_ok_def request_ok_def)
  then have tE: "?t \<in> fst ` elected (core S)"
    by force
  obtain h where h: "spans (llog G ?t) 0 h" and m: "matching (node_log n) (llog G ?t)"
    using consistent_matching(1) [OF con tE, of p] consistent_matching(2) [OF con tE] up by auto
  have tm: "term_of (db (store n')) = currentTerm n'"
    using steady_term [OF st, of p n'] by simp
  have olds: "answer_ok G x" if "x \<in> answers S" for x
    using consistentD(4) [OF con] that by (simp add: traffic_ok_def)
  show ?thesis
  proof (cases "?t < currentTerm n")
    case True
    note s = AppendEntries_rpc_stale [OF run]
    have f: "db (store n') = db (store n)" "view n' = view n" "\<And>resp. r = Inr resp \<Longrightarrow> \<not> aerSuccess resp"
      using s True by simp_all
    have log: "same_files_log n n'"
      using f(1) whole_wf [OF w(1)] by (simp add: same_log_refl)
    have "append_reject ''stale_term'' n = (r, n')"
      using run True by (simp add: AppendEntries_rpc_def)
    then have "matchIndex n' = matchIndex n"
      by (auto simp: append_reject_def split: prod.splits dest!: matchIndex_on_store)
    then have n': "node_consistent G (elected (core S)) p n'"
      by (intro calm_consistent [OF n calm_view [OF f(2)] log threshold_AppendEntries_rpc [OF run] tm]) simp
    have "answer_ok G x" if "x \<in> A" for x
      using that olds f(3) by (auto simp: A answer_ok_def split: sum.splits)
    then have "traffic_ok G \<lparr>core = ?C, requests = requests S, answers = A\<rparr>"
      using consistentD(4) [OF con] by (simp add: traffic_ok_def)
    from consistent_put [OF con up n' log _ _ _ _ this] view_currentTerm [OF f(2)] show ?thesis
      by (auto simp: system_eta)
  next
    case False
    note T = AppendEntries_rpc_takes [OF run w R(2) m h False, folded R(3)]
    have v: "view n' = view (follow ?t (AppendEntriesRequest_GetLeaderId (Some req)) n)"
      using AppendEntries_rpc_view [OF run] False by simp
    have f: "currentTerm n' = ?t" "role n' = RoleFollower"
      using follow_fields(1,2) [OF leI [OF False]] view_currentTerm [OF v] view_role [OF v] by simp_all
    have "gf n'"
      using gf_AppendEntries_rpc [OF run] w(1) R(2) by (simp add: whole_def wf_append_def request_of_def)
    then have n': "node_consistent G (elected (core S)) p n'"
      using T(2) f tm w(2) threshold_AppendEntries_rpc [OF run] by (simp add: node_consistent_def whole_def)
    have con1: "consistent M G (S\<lparr>core := ?C\<rparr>)"
      by (rule consistent_take [OF con up tE n' f(1) _ T(1)]) (use False in simp)
    show ?thesis
    proof (cases "\<exists>resp. r = Inr resp \<and> aerSuccess resp")
      case no: False
      then have "answer_ok G x" if "x \<in> A" for x
        using that olds by (auto simp: A answer_ok_def split: sum.splits)
      from consistent_answer [OF con1 this] show ?thesis
        by (intro exI [of _ G]) simp
    next
      case True
      then obtain resp where resp: "r = Inr resp" "aerSuccess resp"
        by blast
      let ?G = "remember_ack p ?t sent G"
      have "aePrevLogIndex req = 0 \<or> llog G ?t (aePrevLogIndex req) \<noteq> None"
        using R(2) by (auto simp: request_of_def split: if_splits)
      then have "sent = 0 \<or> llog G ?t sent \<noteq> None"
        using carried_last [of "aePrevLogIndex req" "request_entries (Some req)" "llog G ?t"] R(2,3) unfolding request_of_def by blast
      then have e: "llog G ?t j \<noteq> None" if "0 < j" "j \<le> sent" for j
        using that spans_iff [OF h, of j] spans_iff [OF h, of sent] by (auto intro: order_trans)
      have "consistent M ?G (S\<lparr>core := ?C\<rparr>)"
        by (rule consistent_ack [OF con1]) (use T(3) [OF resp] tE f tm e in auto)
      moreover have "answer_ok ?G x" if "x \<in> A" for x
        using that olds T(3) [OF resp] resp by (auto simp: A answer_ok_def remember_ack_def)
      ultimately show ?thesis
        using consistent_answer [where G = ?G and S = S and C = ?C and A = A] evolves_ack by blast
    qed
  qed
qed

text \<open>A write: the log of the leader's term grows by one entry.\<close>

lemma step_write:
  assumes con: "consistent M G S" and cfg: "config_ok M opts" and inv: "inv M opts (core S)" and st: "steady (core S)"
    and up: "servers (core S) s = Up n" and run: "Write_begin req n = (w, n')"
  shows "\<exists>G'. consistent M G' (S\<lparr>core := put s n' (core S)\<rparr>) \<and> evolves G (elected (core S)) G' (elected (core S))"
proof -
  note n = consistent_node [OF con up] and K = consistentD [OF con]
  note v = view_Write_begin [OF run]
  let ?C = "put s n' (core S)" and ?u = "currentTerm n"
  have w: "whole (db (store n))" "snapshotThreshold n = 0"
    using n by (auto simp: node_consistent_def)
  have tm: "term_of (db (store n')) = currentTerm n'"
    using n durable_cong [of "db (store n')" "db (store n)"] v by (simp add: node_consistent_def term_of_def view_def)
  have mi: "matchIndex n' p = matchIndex n p" if "p \<in> peerID ` set (peers n)" for p
    using matchIndex_Write_begin [OF run] peer_other(1) [OF cfg inv up that] inv_server [OF inv up] by simp
  from Write_begin_log [OF run w(1) steady_room [OF st up] w(2)] consider "same_files_log n n'"
    | k c where "role n = RoleLeader" "spans (node_log n) 0 k" "ok_index (k + 1)"
      "node_log n' = (node_log n)(k + 1 \<mapsto> (?u, c))" "whole (db (store n'))"
    by blast
  then show ?thesis
  proof cases
    case 1
    have "node_consistent G (elected (core S)) s n'"
      by (rule calm_consistent [OF n calm_view [OF v] 1 threshold_Write_begin [OF run] tm]) (use mi in simp)
    from consistent_put [OF con up this 1] view_currentTerm [OF v] K(4) show ?thesis
      by (intro exI [of _ G]) (simp add: system_eta traffic_ok_def)
  next
    case (2 k c)
    let ?X = "(node_log n)(k + 1 \<mapsto> (?u, c))"
    have lead: "leader_node G s n" and L: "(?u, s) \<in> elected (core S)"
      using n 2(1) inv up by (auto simp: node_consistent_def inv_def server_ok_def)
    then have uE: "?u \<in> fst ` elected (core S)" and H: "llog G ?u = node_log n"
      by (force, simp add: leader_node_def)
    have k: "k < k + 1"
      using ok_index_Suc [OF 2(3)] .
    have tms: "terms ?C = terms (core S)" and tmS: "terms (core S) s = ?u"
      using tm view_currentTerm [OF v] n up by (auto simp: fun_eq_iff node_consistent_def)
    have lgs: "logs ?C = (logs (core S))(s := ?X)"
      using 2(4) by (auto simp: fun_eq_iff)
    define G' where "G' = remember_log s ?u ?X (k + 1) G"
    have a1: "agreement (majority_of M) (G\<lparr>llog := (llog G)(?u := ?X)\<rparr>) (elected (core S)) (terms (core S)) ((logs (core S))(s := ?X))"
      using agreement_append [OF K(1), of s k ?X c] uE H k 2(2) tmS up by simp
    have G': "G' = (G\<lparr>llog := (llog G)(?u := ?X)\<rparr>)\<lparr>acked := insert (s, terms (core S) s, k + 1) (acked (G\<lparr>llog := (llog G)(?u := ?X)\<rparr>))\<rparr>"
      by (simp add: G'_def remember_log_def tmS)
    have X: "spans ?X 0 (k + 1)"
      by (rule spans_upd [OF 2(2) k])
    have "agreement (majority_of M) G' (elected (core S)) (terms (core S)) ((logs (core S))(s := ?X))"
      unfolding G' by (rule agreement_ack [OF a1]) (use uE tmS spans_iff [OF X] in simp_all)
    then have ag: "agreement (majority_of M) G' (elected ?C) (terms ?C) (logs ?C)"
      unfolding tms lgs by simp
    have lt: "later (llog G) (fst ` elected (core S)) (llog G') (fst ` elected (core S))"
      using append_grows [OF 2(2) k, of ?u c] H by (simp add: later_def G'_def remember_log_def)
    have "node_consistent G' (elected (core S)) x m" if m: "servers ?C x = Up m" for x m
    proof (cases "x = s")
      case True
      then have "m = n'"
        using m by simp
      with n 2(1,4,5) view_currentTerm [OF v] view_role [OF v] v tm threshold_Write_begin [OF run] lead mi X True show ?thesis
        by (auto simp: node_consistent_def leader_node_def G'_def remember_log_def view_def)
    next
      case False
      then have up': "servers (core S) x = Up m"
        using m by simp
      have "llog G' (currentTerm m) = llog G (currentTerm m)" if "role m = RoleLeader"
      proof -
        have "(currentTerm m, x) \<in> elected (core S)"
          using inv up' that by (force simp: inv_def server_ok_def)
        then have "currentTerm m \<noteq> ?u"
          using majority.one_winner [of "cast (core S)" M ?u x s] inv L False by (auto simp: inv_def votes_once_def elected_ok_def)
        then show ?thesis
          by (simp add: G'_def remember_log_def)
      qed
      with consistent_node [OF con up'] show ?thesis
        by (auto simp: node_consistent_def leader_node_def candidate_node_def) (auto simp: G'_def remember_log_def)
    qed
    then have "servers_ok G' ?C"
      using K(2) whole_stored [OF 2(5)] by (auto simp: servers_ok_def)
    moreover have "traffic_ok G' (S\<lparr>core := ?C\<rparr>)"
    proof -
      have "request_ok G' (elected (core S)) x" if "x \<in> requests S" for x
      proof -
        have "request_ok G (elected (core S)) x"
          using K(4) that by (simp add: traffic_ok_def)
        then show ?thesis
          by (rule request_ok_later [OF _ lt order_refl])
      qed
      moreover have "answer_ok G' x" if "x \<in> answers S" for x
        using K(4) that by (auto simp: traffic_ok_def answer_ok_def G'_def remember_log_def)
      ultimately show ?thesis
        using K(4) by (simp add: traffic_ok_def election_recorded_def G'_def remember_log_def)
    qed
    moreover have "votes_recorded G' ?C"
    proof -
      have "votes_recorded G ?C"
        by (rule votes_recorded_mono [OF K(3)]) (use fun_cong [OF tms] in simp_all)
      then show ?thesis
        by (simp add: votes_recorded_def G'_def remember_log_def)
    qed
    moreover have "evolves G (elected (core S)) G' (elected (core S))"
      using lt by (auto simp: evolves_def G'_def remember_log_def)
    ultimately show ?thesis
      using ag by (auto simp: consistent_def)
  qed
qed

section \<open>Every step\<close>

definition no_snapshots :: "(bytes \<Rightarrow> Options) \<Rightarrow> bool" where
  "no_snapshots opts \<longleftrightarrow> (\<forall>s. optSnapshotThreshold (opts s) = 0)"

lemma consistent_election_step:
  assumes step: "election_step M opts (core S) C" and con: "consistent M G S" and cfg: "config_ok M opts" and off: "no_snapshots opts"
    and inv: "inv M opts (core S)" and st: "steady C"
  shows "\<exists>G'. consistent M G' (S\<lparr>core := C\<rparr>) \<and> evolves G (elected (core S)) G' (elected C)"
proof -
  note inv' = inv_election_step [OF step cfg inv]
  have same: "\<exists>G'. consistent M G' (S\<lparr>core := C\<rparr>) \<and> evolves G (elected (core S)) G' (elected C)"
    if "consistent M G (S\<lparr>core := C\<rparr>)" "elected C = elected (core S)"
    using that by (intro exI [of _ G]) simp
  from step show ?thesis
  proof cases
    case (timeout s n n')
    then show ?thesis
      using step_timeout [OF con inv timeout(2-4)] st by simp
  next
    case (campaign s n e n')
    then show ?thesis
      using step_campaign [OF con inv campaign(2-4,1) _ inv' st] by simp
  next
    case (deliver i e p n r n')
    then show ?thesis
      using step_deliver [OF con inv deliver(2,3,5,6,1) inv' st] by simp
  next
    case (answer i E p resp s n e' n')
    then show ?thesis
      using step_answer [OF con cfg inv answer(2,3,8,9,1) inv' st] by simp
  next
    case (single_node i E s n n')
    then show ?thesis
      using step_single [OF con cfg inv single_node(6,7,1) inv' st] by simp
  next
    case (crash s n)
    show ?thesis
      by (rule same [OF step_crash [OF con crash(2,1)]]) (simp_all add: crash(1))
  next
    case (restart s T order script clk rnd n T')
    then show ?thesis
      using same step_restart [where opts = opts, OF con restart(2,4,5)] off by (simp add: no_snapshots_def)
  next
    case (failed_start s T order script clk rnd err T')
    then show ?thesis
      using same step_failed_start [where opts = opts, OF con failed_start(2-4)] by simp
  qed
qed

lemma consistent_step:
  assumes step: "system_step M opts S S'" and con: "consistent M G S" and cfg: "config_ok M opts" and off: "no_snapshots opts"
    and inv: "inv M opts (core S)" and st: "steady (core S)" "steady (core S')"
  shows "\<exists>G'. consistent M G' S' \<and> evolves G (elected (core S)) G' (elected (core S'))"
  using step
proof cases
  case (idle s n n')
  then show ?thesis
    using step_idle [OF con idle(2,3)] st(2) by (intro exI [of _ G]) simp
next
  case (send s n p a n')
  then show ?thesis
    using step_send [OF con cfg inv st(1) send(2-4)] by (intro exI [of _ G]) simp
next
  case (receive l p sent req n r n')
  then show ?thesis
    using step_receive [OF con receive(2-4)] st(2) by simp
next
  case (settle l p t sent resp n b n')
  then show ?thesis
    using step_settle [OF con settle(2-4)] st(2) by (intro exI [of _ G]) simp
next
  case (client_write s n req w n')
  then show ?thesis
    using step_write [OF con cfg inv st(1) client_write(2,3)] by simp
next
  case (elections C)
  then show ?thesis
    using consistent_election_step [OF elections(2) con cfg off inv] st(2) by simp
qed

lemma consistent_initial: "\<exists>G. consistent M G \<lparr>core = initial, requests = {}, answers = {}\<rparr>"
proof -
  define G :: "bytes history" where "G = \<lparr>llog = \<lambda>_ _. None, clog = \<lambda>_ _ _. None, wlog = \<lambda>_ _ _. None, early = {}, acked = {}\<rparr>"
  have "log_entry empty_tables = (\<lambda>_. None)"
    by (simp add: fun_eq_iff log_entry_def empty_tables_def)
  moreover have "spans (\<lambda>_. None) 0 0"
    by (auto simp: spans_def)
  ultimately have "agreement (majority_of M) G {} (\<lambda>s. term_of empty_tables) (\<lambda>s. log_entry empty_tables)"
    by (auto simp: agreement_def leaders_ok_def votes_ok_def acks_ok_def sound_def matched_def terms_upto_def G_def)
  then have "consistent M G \<lparr>core = initial, requests = {}, answers = {}\<rparr>"
    by (simp add: consistent_def servers_ok_def votes_recorded_def traffic_ok_def initial_def stored_empty) (simp add: G_def)
  then show ?thesis
    by blast
qed

lemma reachable_consistent:
  assumes "system_reachable M opts S" and "config_ok M opts" and "no_snapshots opts"
  shows "\<exists>G. consistent M G S"
  using assms(1)
proof induction
  case start
  show ?case
    by (rule consistent_initial)
next
  case (next_step S S')
  then obtain G where "consistent M G S"
    by blast
  with next_step show ?case
    using consistent_step [OF next_step(2) _ assms(2,3)] reachable_inv [OF system_reachable_core assms(2)] system_reachable_steady by blast
qed

end
