(* ===== verification/Two_Servers.thy ===== *)
theory Two_Servers
  imports System
begin

text \<open>
  A run of two servers, as an example of the system: one is elected, writes an entry, replicates
  it, commits and applies it, and the other applies it too.
\<close>

section \<open>Nodes on a healthy store\<close>

text \<open>What the example follows of a node; the rest is what the helpers change.\<close>

definition shown :: "Node \<Rightarrow> bytes \<times> Peer list \<times> Store \<times> Role \<times> u64 \<times> bytes \<times> u64 \<times> u64 \<times> (bytes \<Rightarrow> u64) \<times> (bytes \<Rightarrow> u64) \<times> u64" where
  "shown n = (nid n, peers n, store n, role n, currentTerm n, votedFor n, commitIndex n, lastApplied n, nextIndex n, matchIndex n, snapshotThreshold n)"

lemma shown_fields:
  assumes "shown n' = shown n"
  shows "nid n' = nid n" "peers n' = peers n" "store n' = store n" "role n' = role n" "currentTerm n' = currentTerm n" "votedFor n' = votedFor n"
    "commitIndex n' = commitIndex n" "lastApplied n' = lastApplied n" "nextIndex n' = nextIndex n" "matchIndex n' = matchIndex n"
    "snapshotThreshold n' = snapshotThreshold n"
  using assms by (simp_all add: shown_def)

lemma shown_refresh: "healthy (store n) \<Longrightarrow> shown (refreshMetricsLocked n) = shown n"
  by (simp add: refreshMetricsLocked_def healthy_runs Let_def shown_def)

lemma shown_reset: "shown (resetElectionDeadlineLocked n) = shown n"
  by (auto simp: resetElectionDeadlineLocked_def rand_Int63n_def time_Now_def Let_def shown_def split: prod.splits list.splits)

lemmas helper_fields = shown_fields [OF shown_refresh] shown_fields [OF shown_reset]

section \<open>The steps of the run\<close>

definition one_peer :: "bytes \<Rightarrow> Peer list" where
  "one_peer p = [\<lparr>peerID = p, peerAddress = ''h:7000''\<rparr>]"

definition pair_options :: "bytes \<Rightarrow> Options" where
  "pair_options s =
     \<lparr>optNodeID = s, optGRPCAddr = '':7000'', optHTTPAddr = '':8000'', optDataDir = ''/data'',
      optPeers = one_peer (if s = ''n1'' then ''n2'' else ''n1''),
      optElectionMin = 0, optElectionMax = 0, optHeartbeatInterval = 0, optSnapshotThreshold = 0\<rparr>"

lemma pair_config: "config_ok {''n1'', ''n2''} pair_options"
  by (auto simp: config_ok_def pair_options_def one_peer_def)

text \<open>A node with its peer, role, term, vote, commit index and log rows; all that is committed is applied.\<close>

definition server_at :: "bytes \<Rightarrow> bytes \<Rightarrow> Role \<Rightarrow> u64 \<Rightarrow> bytes \<Rightarrow> u64 \<Rightarrow> (int \<times> int \<times> bytes) list \<Rightarrow> Node \<Rightarrow> bool" where
  "server_at s p r t v c rows n \<longleftrightarrow> nid n = s \<and> peers n = one_peer p \<and> healthy (store n) \<and> role n = r \<and> currentTerm n = t \<and> votedFor n = v
     \<and> commitIndex n = c \<and> lastApplied n = c \<and> snapshotThreshold n = 0 \<and> log_entries (db (store n)) = rows
     \<and> snap_pos (db (store n)) = Inr (0, 0) \<and> durable (db (store n)) = Inr (t, v)
     \<and> kv (db (store n)) = (if c = 0 then [] else [(''k'', (''v'', 1))])"

definition set_kv :: bytes where
  "set_kv = encodeSetCommand ''k'' ''v''"

abbreviation one_row :: "(int \<times> int \<times> bytes) list" where
  "one_row \<equiv> [(1, 1, set_kv)]"

lemma metadata_append [simp]: "metadata (append_entries es T) = metadata T"
  unfolding append_entries_def by (induction es arbitrary: T) simp_all

lemma table_facts [simp]:
  "log_entries (save_term_vote t v T) = log_entries T" "snap_pos (save_term_vote t v T) = snap_pos T"
  "log_entries (apply_set i k x T) = log_entries T" "durable (apply_set i k x T) = durable T"
  "durable (append_entries es T) = durable T" "snap_pos (append_entries es T) = snap_pos T"
  "kv (save_term_vote t v T) = kv T" "kv (append_entries es T) = kv T" "kv (apply_set i k x T) = upsert k (x, int64_of i) (kv T)"
proof -
  show "snap_pos (save_term_vote t v T) = snap_pos T"
    by (simp add: save_term_vote_def snap_pos_def meta_uint_other split: sum.splits)
  show "durable (apply_set i k x T) = durable T"
    by (rule durable_cong) (simp add: vote_rows_def apply_set_def table_simps upsert_kv_def)
  show "durable (append_entries es T) = durable T"
    by (rule durable_cong) (simp add: vote_rows_def)
  show "snap_pos (append_entries es T) = snap_pos T"
    by (rule snap_pos_cong) simp
  show "kv (append_entries es T) = kv T"
    unfolding append_entries_def by (induction es arbitrary: T) simp_all
qed (simp_all add: save_term_vote_def apply_set_def upsert_kv_def)

lemma word_facts [simp]: "int64_of 1 = 1" "int64_of 2 = 2" "uint64_of 1 = 1" "uint64_of 2 = 2"
  by (simp_all add: int64_of_def uint64_of_def)

lemma start_pair:
  assumes "s \<noteq> []"
  shows "\<exists>n T. New (pair_options s) defaults empty_tables [] [] [] = (Inr n, T)
    \<and> server_at s (if s = ''n1'' then ''n2'' else ''n1'') RoleFollower 0 [] 0 [] n"
proof -
  obtain n T where new: "New (pair_options s) defaults empty_tables [] [] [] = (Inr n, T)" and ok: "node_ok n"
    using New_ok [of empty_tables defaults "pair_options s" "[]" "[]"] assms by (auto simp: pair_options_def)
  have R: "nid n = s" "peers n = optPeers (pair_options s)" "role n = RoleFollower" "currentTerm n = 0" "votedFor n = []"
    "durable (db (store n)) = Inr (0, [])"
    using New_running [OF new] durable_empty by (auto simp: pair_options_def)
  have D: "opened empty_tables = db fresh_store"
    by (simp add: opened_def fresh_store_def)
  have N: "db (store n) = db fresh_store" "snapshotThreshold n = 0" "commitIndex n = lastApplied n" "lastApplied n = 0"
    using New_stored [OF new _ stored_empty] meta_fresh [of "''last_applied''"] by (auto simp: D pair_options_def numeric_keys_def)
  have "log_entries (db (store n)) = []" "kv (db (store n)) = []"
    unfolding N(1) D [symmetric] by (simp add: empty_tables_def) (simp add: opened_def empty_tables_def)
  with R N ok new show ?thesis
    by (simp add: server_at_def node_ok_def snap_pos_fresh pair_options_def)
qed

lemma begin_pair:
  assumes "server_at s p RoleFollower 0 [] 0 [] n" and "s \<noteq> []"
  shows "\<exists>e n'. startElection_begin n = (Some e, n') \<and> server_at s p RoleCandidate 1 s 0 [] n' \<and> eTerm e = 1 \<and> eCandidate e = s
    \<and> eLastLogIndex e = 0 \<and> eLastLogTerm e = 0 \<and> eMajority e = 2 \<and> ePeers e = one_peer p \<and> eVotes e = 1 \<and> \<not> eWon e"
  using assms
  by (auto simp: server_at_def startElection_begin_def Let_def healthy_runs last_pos_def helper_fields majorityLocked_def one_peer_def)

lemma vote_pair:
  assumes "server_at s p RoleFollower 0 [] 0 [] n" and "eTerm e = 1" "eCandidate e = p" "eLastLogIndex e = 0" "eLastLogTerm e = 0"
  shows "\<exists>n'. RequestVote (Some (election_request e)) n = (Inr \<lparr>rvrTerm = 1, rvrVoteGranted = True\<rparr>, n') \<and> server_at s p RoleFollower 1 p 0 [] n'"
  using assms
  by (auto simp: server_at_def RequestVote_def election_request_def Let_def healthy_runs last_pos_def helper_fields stepDownLocked_def inc_rpc_def
      RequestVoteRequest_GetTerm_def RequestVoteRequest_GetLastLogTerm_def RequestVoteRequest_GetLastLogIndex_def RequestVoteRequest_GetCandidateId_def)

lemma win_pair:
  assumes "server_at s p RoleCandidate 1 s 0 [] n" and "p \<noteq> s" and "eTerm e = 1" "eMajority e = 2" "eVotes e = 1" "\<not> eWon e"
  shows "\<exists>e' n'. startElection_reply (Some \<lparr>rvrTerm = 1, rvrVoteGranted = True\<rparr>) e n = (e', n') \<and> server_at s p RoleLeader 1 s 0 [] n'
    \<and> nextIndex n' p = 1 \<and> matchIndex n' p = 0"
  using assms
  by (auto simp: server_at_def startElection_reply_def becomeLeaderLocked_def becomeLeader_peer_def one_peer_def Let_def healthy_runs last_pos_def helper_fields
      RequestVoteResponse_GetTerm_def RequestVoteResponse_GetVoteGranted_def)

definition first_request :: AppendEntriesRequest where
  "first_request = \<lparr>aeTerm = 1, aeLeaderId = ''n1'', aePrevLogIndex = 0, aePrevLogTerm = 0,
     aeEntries = [Some \<lparr>leIndex = 1, leTerm = 1, leCommand = set_kv\<rparr>], aeLeaderCommit = 0\<rparr>"

definition second_request :: AppendEntriesRequest where
  "second_request = \<lparr>aeTerm = 1, aeLeaderId = ''n1'', aePrevLogIndex = 1, aePrevLogTerm = 1, aeEntries = [], aeLeaderCommit = 1\<rparr>"

lemma append_row: "log_entries T = [] \<Longrightarrow> entryIndex e = 1 \<Longrightarrow> entryTerm e = 1 \<Longrightarrow> log_entries (append_entries [e] T) = [(1, 1, entryCommand e)]"
  by (simp add: append_entries_def upsert_log_row_def int64_of_def)

lemma write_pair:
  assumes "server_at s p RoleLeader 1 s 0 [] n" and "p \<noteq> s" and "nextIndex n p = 1" "matchIndex n p = 0"
  shows "\<exists>n'. Write_begin (Some \<lparr>cwKey = ''k'', cwValue = ''v''\<rparr>) n = (WriteWait 1 1, n') \<and> server_at s p RoleLeader 1 s 0 one_row n'
    \<and> nextIndex n' p = 1 \<and> matchIndex n' p = 0"
  using assms
  by (auto simp: server_at_def Write_begin_def set_kv_def Let_def healthy_runs last_pos_def helper_fields majorityLocked_def one_peer_def append_row
      ClientWriteRequest_GetKey_def ClientWriteRequest_GetValue_def)

lemma send_first:
  assumes "server_at ''n1'' p RoleLeader 1 v 0 one_row n" and "nextIndex n p = 1" "matchIndex n p = 0"
  shows "\<exists>n'. replicatePeer_prepare p n = (SendAppend 1 first_request, n') \<and> server_at ''n1'' p RoleLeader 1 v 0 one_row n'
    \<and> nextIndex n' p = 1 \<and> matchIndex n' p = 0"
  using assms
  by (auto simp: server_at_def replicatePeer_prepare_def first_request_def Let_def healthy_runs helper_fields term_pos_def entries_from_def
      limit_rows_def row_entry_def appendBatchSize_def entry_message_def)

lemma receive_first:
  assumes "server_at s p RoleFollower 1 v 0 [] n"
  shows "\<exists>n'. AppendEntries_rpc (Some first_request) n = (Inr \<lparr>aerTerm = 1, aerSuccess = True, aerMatchIndex = 1\<rparr>, n')
    \<and> server_at s p RoleFollower 1 v 0 one_row n'"
  using assms
  by (auto simp: server_at_def AppendEntries_rpc_def first_request_def append_store_def append_commit_def Let_def healthy_runs helper_fields
      term_pos_def log_term_def last_pos_def append_row inc_rpc_def AppendEntriesRequest_GetTerm_def AppendEntriesRequest_GetLeaderId_def
      AppendEntriesRequest_GetPrevLogIndex_def AppendEntriesRequest_GetPrevLogTerm_def AppendEntriesRequest_GetEntries_def
      AppendEntriesRequest_GetLeaderCommit_def LogEntry_GetIndex_def LogEntry_GetTerm_def LogEntry_GetCommand_def)

text \<open>Committing and applying the entry.\<close>

lemma decode_set_kv: "decodeCommand set_kv = Inr \<lparr>cmdOp = ''set'', cmdKey = ''k'', cmdValue = ''v''\<rparr>"
  unfolding set_kv_def by (rule decode_encode_set) code_simp+

lemma apply_first:
  assumes "healthy (store n)" and "lastApplied n = 0" "commitIndex n = 1" "snapshotThreshold n = 0" and "log_entries (db (store n)) = one_row"
  shows "shown (applyCommittedLocked n) = shown (n\<lparr>store := (store n)\<lparr>db := apply_set 1 ''k'' ''v'' (db (store n))\<rparr>, lastApplied := 1\<rparr>)"
proof -
  let ?n = "n\<lparr>store := (store n)\<lparr>db := apply_set 1 ''k'' ''v'' (db (store n))\<rparr>, lastApplied := 1\<rparr>"
  have "apply_loop ?n = (True, ?n)"
    by (rule apply_loop_done) (simp add: assms)
  then have "apply_loop n = (True, ?n)"
    by (subst apply_loop.simps) (simp add: assms healthy_runs entry_pos_def decode_set_kv)
  then show ?thesis
    by (simp add: applyCommittedLocked_def compactIfNeededLocked_def assms shown_refresh)
qed

lemma advance_first:
  assumes "healthy (store n)" and "lastApplied n = 0" "commitIndex n = 0" "snapshotThreshold n = 0" and "log_entries (db (store n)) = one_row"
    and "snap_pos (db (store n)) = Inr (0, 0)" and "currentTerm n = 1" and "peers n = one_peer p" and "matchIndex n p = 1"
  shows "shown (advanceCommitLocked n) = shown (n\<lparr>store := (store n)\<lparr>db := apply_set 1 ''k'' ''v'' (db (store n))\<rparr>, commitIndex := 1, lastApplied := 1\<rparr>)"
proof -
  have "advance_loop (majorityLocked n) 1 1 n = (True, n\<lparr>commitIndex := 1\<rparr>)"
    by (simp add: assms healthy_runs term_pos_def log_term_def count_replicas_def majorityLocked_def one_peer_def numeral_2_eq_2)
  then have "advanceCommitLocked n = applyCommittedLocked (n\<lparr>commitIndex := 1\<rparr>)"
    by (simp add: advanceCommitLocked_def assms healthy_runs last_pos_def Let_def del: advance_loop.simps)
  then show ?thesis
    using apply_first [of "n\<lparr>commitIndex := 1\<rparr>"] by (simp add: assms shown_def)
qed

lemma settle_first:
  assumes "server_at s p RoleLeader 1 s 0 one_row n" and "nextIndex n p = 1" "matchIndex n p = 0"
  shows "\<exists>b n'. replicatePeer_append_reply p 1 1 (Some \<lparr>aerTerm = 1, aerSuccess = True, aerMatchIndex = 1\<rparr>) n = (b, n')
    \<and> server_at s p RoleLeader 1 s 1 one_row n' \<and> nextIndex n' p = 2 \<and> matchIndex n' p = 1"
proof -
  let ?n = "n\<lparr>matchIndex := (matchIndex n)(p := 1), nextIndex := (nextIndex n)(p := 2)\<rparr>"
  let ?m = "?n\<lparr>metrics := SetReplicationLag p 0 (metrics n)\<rparr>"
  have "replicatePeer_append_reply p 1 1 (Some \<lparr>aerTerm = 1, aerSuccess = True, aerMatchIndex = 1\<rparr>) n
      = (Some True, refreshMetricsLocked (advanceCommitLocked ?m))"
    using assms by (simp add: server_at_def replicatePeer_append_reply_def Let_def healthy_runs last_pos_def
        AppendEntriesResponse_GetTerm_def AppendEntriesResponse_GetSuccess_def AppendEntriesResponse_GetMatchIndex_def)
  moreover have a: "shown (advanceCommitLocked ?m) = shown (?n\<lparr>store := (store n)\<lparr>db := apply_set 1 ''k'' ''v'' (db (store n))\<rparr>, commitIndex := 1, lastApplied := 1\<rparr>)"
    using advance_first [of ?m p] assms by (simp add: server_at_def shown_def)
  then have "healthy (store (advanceCommitLocked ?m))"
    using assms(1) by (simp add: shown_fields(3) [OF a] server_at_def)
  then have "shown (refreshMetricsLocked (advanceCommitLocked ?m))
      = shown (?n\<lparr>store := (store n)\<lparr>db := apply_set 1 ''k'' ''v'' (db (store n))\<rparr>, commitIndex := 1, lastApplied := 1\<rparr>)"
    by (simp only: shown_refresh a)
  ultimately show ?thesis
    using assms(1) by (auto simp: server_at_def dest: shown_fields)
qed

lemma send_second:
  assumes "server_at ''n1'' p RoleLeader 1 v 1 one_row n" and "nextIndex n p = 2" "matchIndex n p = 1"
  shows "\<exists>n'. replicatePeer_prepare p n = (SendAppend 1 second_request, n') \<and> server_at ''n1'' p RoleLeader 1 v 1 one_row n'
    \<and> nextIndex n' p = 2 \<and> matchIndex n' p = 1"
  using assms
  by (auto simp: server_at_def replicatePeer_prepare_def second_request_def Let_def healthy_runs helper_fields term_pos_def log_term_def
      entries_from_def limit_rows_def row_entry_def appendBatchSize_def entry_message_def)

lemma receive_second:
  assumes "server_at s p RoleFollower 1 v 0 one_row n"
  shows "\<exists>n'. AppendEntries_rpc (Some second_request) n = (Inr \<lparr>aerTerm = 1, aerSuccess = True, aerMatchIndex = 1\<rparr>, n')
    \<and> server_at s p RoleFollower 1 v 1 one_row n'"
proof -
  let ?n = "(resetElectionDeadlineLocked (n\<lparr>leaderID := ''n1''\<rparr>))\<lparr>commitIndex := 1\<rparr>"
  let ?m = "applyCommittedLocked ?n"
  have n: "healthy (store ?n)" "lastApplied ?n = 0" "commitIndex ?n = 1" "snapshotThreshold ?n = 0" "log_entries (db (store ?n)) = one_row"
    using assms by (simp_all add: server_at_def helper_fields)
  note a = apply_first [OF n]
  have "healthy (store ?m)" "currentTerm ?m = 1"
    using assms shown_fields(3,5) [OF a] by (simp_all add: server_at_def helper_fields)
  moreover have "AppendEntries_rpc (Some second_request) n
      = (Inr \<lparr>aerTerm = currentTerm (refreshMetricsLocked ?m), aerSuccess = True, aerMatchIndex = 1\<rparr>, inc_rpc ''AppendEntries'' ''success'' (refreshMetricsLocked ?m))"
    using assms
    by (simp add: server_at_def AppendEntries_rpc_def second_request_def append_store_def append_commit_def Let_def healthy_runs helper_fields
        term_pos_def log_term_def last_pos_def minUint64_def AppendEntriesRequest_GetTerm_def AppendEntriesRequest_GetLeaderId_def
        AppendEntriesRequest_GetPrevLogIndex_def AppendEntriesRequest_GetPrevLogTerm_def AppendEntriesRequest_GetEntries_def
        AppendEntriesRequest_GetLeaderCommit_def) (simp add: inc_rpc_def)
  ultimately show ?thesis
    using assms by (auto simp: server_at_def helper_fields inc_rpc_def shown_fields [OF a])
qed

section \<open>The run\<close>

definition pair_step :: "system \<Rightarrow> system \<Rightarrow> bool" where
  "pair_step S S' \<longleftrightarrow> system_step {''n1'', ''n2''} pair_options S S' \<and> steady (core S')
     \<and> (\<forall>(l, p, sent, req) \<in> requests S. sent = 1) \<and> (\<forall>s n. servers (core S') s = Up n \<longrightarrow> commitIndex n \<le> 1)"

primrec fine :: "server \<Rightarrow> bool" where
  "fine (Down T) = (T = empty_tables)"
| "fine (Up n) = (\<exists>s p r t v c rows. server_at s p r t v c rows n \<and> c \<le> 1 \<and> rows \<in> {[], one_row})"

definition pair_at :: "system \<Rightarrow> server \<Rightarrow> server \<Rightarrow> bool" where
  "pair_at S A B \<longleftrightarrow> servers (core S) = (\<lambda>_. Down empty_tables)(''n1'' := A, ''n2'' := B)"

lemma fine_steady:
  assumes "fine D"
  shows "room (files D) \<and> (\<forall>n. D = Up n \<longrightarrow> (\<exists>v. durable (db (store n)) = Inr (currentTerm n, v)) \<and> commitIndex n \<le> 1)"
proof (cases D)
  case (Down T)
  with assms have "last_pos (files D) = Inr (0, 0) \<or> (\<exists>e. last_pos (files D) = Inl e)"
    by (cases "last_pos empty_tables") (auto simp: last_pos_def empty_tables_def snap_pos_def meta_uint_def)
  with Down show ?thesis
    by (auto simp: room_def ok_index_def)
next
  case (Up n)
  with assms show ?thesis
    by (auto simp: room_def ok_index_def last_pos_def server_at_def)
qed

lemma pair_next:
  assumes "system_step {''n1'', ''n2''} pair_options S S'" and "pair_at S' A B" and "fine A" "fine B"
    and "\<forall>(l, p, sent, req) \<in> requests S. sent = 1"
  shows "pair_step S S'"
proof -
  have "fine (servers (core S') s)" for s
    using assms(2-4) by (simp add: pair_at_def)
  from fine_steady [OF this] show ?thesis
    using assms(1,5) unfolding pair_step_def steady_def by blast
qed

lemma server_fine: "server_at s p r t v c rows n \<Longrightarrow> c \<le> 1 \<Longrightarrow> rows \<in> {[], one_row} \<Longrightarrow> fine (Up n)"
  unfolding fine.simps by blast

abbreviation empty_system :: system where
  "empty_system \<equiv> \<lparr>core = initial, requests = {}, answers = {}\<rparr>"

text \<open>An election of two servers: the campaign, the vote of the other one, and its answer.\<close>

lemma two_server_election:
  assumes up: "servers (core S) c = Up a0" "servers (core S) v = Up b0" "c \<noteq> v" and t: "currentTerm a0 \<noteq> - 1"
    and e: "eCandidate e = c" "ePeers e = one_peer v"
    and a1: "startElection_begin a0 = (Some e, a1)"
    and b1: "RequestVote (Some (election_request e)) b0 = (Inr yes, b1)" "rvrVoteGranted yes"
    and a2: "startElection_reply (Some yes) e a1 = (e', a2)"
  obtains S1 S2 S3 where "system_step M opts S S1" and "system_step M opts S1 S2" and "system_step M opts S2 S3"
    and "servers (core S1) = (servers (core S))(c := Up a1)" and "servers (core S2) = (servers (core S1))(v := Up b1)"
    and "servers (core S3) = (servers (core S2))(c := Up a2)" and "requests S1 = requests S" and "requests S2 = requests S"
    and "requests S3 = requests S" and "answers S3 = answers S"
proof -
  let ?i = "length (elections (core S))" and ?E = "\<lparr>election = e, waiting = set (map peerID (ePeers e)), alive = True\<rparr>"
  define S1 where "S1 = S\<lparr>core := (core S)\<lparr>servers := (servers (core S))(c := Up a1),
    elections := elections (core S) @ [?E], cast := insert (c, eTerm e, eCandidate e) (cast (core S))\<rparr>\<rparr>"
  define S2 where "S2 = S1\<lparr>core := (core S1)\<lparr>servers := (servers (core S1))(v := Up b1),
    replies := insert (?i, v, yes) (replies (core S1)), cast := insert (v, eTerm e, eCandidate e) (cast (core S1))\<rparr>\<rparr>"
  define S3 where "S3 = S2\<lparr>core := (core S2)\<lparr>servers := (servers (core S2))(c := Up a2),
    elections := (elections (core S2))[?i := ?E\<lparr>election := e', waiting := waiting ?E - {v}\<rparr>], elected := record_leader a1 a2 (elected (core S2))\<rparr>\<rparr>"
  have els: "elections (core S1) ! ?i = ?E" "elections (core S2) ! ?i = ?E" "?i < length (elections (core S1))" "?i < length (elections (core S2))"
    "(?i, v, yes) \<in> replies (core S2)" and ups: "servers (core S1) v = Up b0" "servers (core S2) c = Up a1"
    using up by (simp_all add: S1_def S2_def)
  have "system_step M opts S S1"
    unfolding S1_def by (rule system_step.elections [OF election_step.campaign [OF up(1) t a1]])
  moreover have "election_step M opts (core S1) ((core S1)\<lparr>servers := (servers (core S1))(v := Up b1),
      replies := (case Inr yes of Inl (_ :: error) \<Rightarrow> replies (core S1) | Inr resp \<Rightarrow> insert (?i, v, resp) (replies (core S1))),
      cast := (if granted (Inr yes) then insert (v, eTerm e, eCandidate e) (cast (core S1)) else cast (core S1))\<rparr>)"
    by (rule election_step.deliver [OF els(3) _ _ ups(1) b1(1)]) (simp_all add: els(1) e one_peer_def)
  then have "system_step M opts S1 S2"
    unfolding S2_def by (intro system_step.elections) (simp add: granted_def b1(2))
  moreover have "system_step M opts S2 S3"
    unfolding S3_def
    by (intro system_step.elections election_step.answer [OF els(4,2) _ _ els(5) _ ups(2)]) (simp_all add: e a2 one_peer_def)
  ultimately show ?thesis
    by (rule that) (simp_all add: S1_def S2_def S3_def)
qed

text \<open>Three steps of the run at once.\<close>

lemma pair_three:
  assumes "system_step {''n1'', ''n2''} pair_options S S1" "system_step {''n1'', ''n2''} pair_options S1 S2"
      "system_step {''n1'', ''n2''} pair_options S2 S3"
    and "pair_at S1 A1 B1" "pair_at S2 A2 B2" "pair_at S3 A3 B3" and "fine A1" "fine B1" "fine A2" "fine B2" "fine A3" "fine B3"
    and "\<forall>(l, p, sent, req) \<in> requests S. sent = 1" "requests S1 = requests S" "requests S2 = requests S"
  shows "pair_step\<^sup>*\<^sup>* S S3"
proof -
  have "pair_step S S1" "pair_step S1 S2" "pair_step S2 S3"
    using pair_next [OF assms(1,4,7,8)] pair_next [OF assms(2,5,9,10)] pair_next [OF assms(3,6,11,12)] assms(13-15) by simp_all
  then show ?thesis
    by (meson rtranclp.rtrancl_into_rtrancl rtranclp.rtrancl_refl)
qed

lemma pair_starts:
  "\<exists>S n m. pair_step\<^sup>*\<^sup>* empty_system S \<and> pair_at S (Up n) (Up m) \<and> requests S = {} \<and> answers S = {}
     \<and> server_at ''n1'' ''n2'' RoleFollower 0 [] 0 [] n \<and> server_at ''n2'' ''n1'' RoleFollower 0 [] 0 [] m"
proof -
  let ?step = "system_step {''n1'', ''n2''} pair_options" and ?D = "Down empty_tables"
  obtain a T0 where a: "New (pair_options ''n1'') defaults empty_tables [] [] [] = (Inr a, T0)" "server_at ''n1'' ''n2'' RoleFollower 0 [] 0 [] a"
    using start_pair [of "''n1''"] by auto
  obtain b T1 where b: "New (pair_options ''n2'') defaults empty_tables [] [] [] = (Inr b, T1)" "server_at ''n2'' ''n1'' RoleFollower 0 [] 0 [] b"
    using start_pair [of "''n2''"] by auto
  define S1 where "S1 = empty_system\<lparr>core := put ''n1'' a initial\<rparr>"
  define S2 where "S2 = S1\<lparr>core := put ''n2'' b (core S1)\<rparr>"
  have at: "pair_at S1 (Up a) ?D" "pair_at S2 (Up a) (Up b)"
    by (auto simp: S1_def S2_def initial_def pair_at_def fun_eq_iff)
  have "?step empty_system S1"
    using election_step.restart [where opts = pair_options and s = "''n1''" and M = "{''n1'', ''n2''}" and C = initial, OF _ _ _ a(1)]
    unfolding S1_def by (intro system_step.elections) (simp add: initial_def)
  then have "pair_step empty_system S1"
    by (rule pair_next [OF _ at(1) server_fine [OF a(2)]]) simp_all
  moreover have "?step S1 S2"
    using election_step.restart [where opts = pair_options and s = "''n2''" and M = "{''n1'', ''n2''}" and C = "core S1", OF _ _ _ b(1)]
    unfolding S2_def by (intro system_step.elections) (simp add: S1_def initial_def)
  then have "pair_step S1 S2"
    by (rule pair_next [OF _ at(2) server_fine [OF a(2)] server_fine [OF b(2)]]) (simp_all add: S1_def)
  ultimately have "pair_step\<^sup>*\<^sup>* empty_system S2"
    by (meson rtranclp.rtrancl_into_rtrancl rtranclp.rtrancl_refl)
  moreover have "requests S2 = {}" "answers S2 = {}"
    by (simp_all add: S1_def S2_def)
  ultimately show ?thesis
    using at(2) a(2) b(2) by blast
qed

lemma pair_elects:
  "\<exists>S n m. pair_step\<^sup>*\<^sup>* empty_system S \<and> pair_at S (Up n) (Up m) \<and> requests S = {} \<and> answers S = {}
     \<and> server_at ''n1'' ''n2'' RoleLeader 1 ''n1'' 0 [] n \<and> nextIndex n ''n2'' = 1 \<and> matchIndex n ''n2'' = 0
     \<and> server_at ''n2'' ''n1'' RoleFollower 1 ''n1'' 0 [] m"
proof -
  let ?yes = "\<lparr>rvrTerm = 1, rvrVoteGranted = True\<rparr>"
  obtain S a0 b0 where S: "pair_step\<^sup>*\<^sup>* empty_system S" "pair_at S (Up a0) (Up b0)" "requests S = {}" "answers S = {}"
    and a0: "server_at ''n1'' ''n2'' RoleFollower 0 [] 0 [] a0" and b0: "server_at ''n2'' ''n1'' RoleFollower 0 [] 0 [] b0"
    using pair_starts by blast
  obtain e a1 where a1: "startElection_begin a0 = (Some e, a1)" "server_at ''n1'' ''n2'' RoleCandidate 1 ''n1'' 0 [] a1"
    and e: "eTerm e = 1" "eCandidate e = ''n1''" "eLastLogIndex e = 0" "eLastLogTerm e = 0" "eMajority e = 2" "ePeers e = one_peer ''n2''"
      "eVotes e = 1" "\<not> eWon e"
    using begin_pair [OF a0] by auto
  obtain b1 where b1: "RequestVote (Some (election_request e)) b0 = (Inr ?yes, b1)" "server_at ''n2'' ''n1'' RoleFollower 1 ''n1'' 0 [] b1"
    using vote_pair [OF b0 e(1,2,3,4)] by auto
  obtain e' a2 where a2: "startElection_reply (Some ?yes) e a1 = (e', a2)" "server_at ''n1'' ''n2'' RoleLeader 1 ''n1'' 0 [] a2"
    "nextIndex a2 ''n2'' = 1" "matchIndex a2 ''n2'' = 0"
    using win_pair [OF a1(2) _ e(1,5,7,8)] by auto
  have up: "servers (core S) ''n1'' = Up a0" "servers (core S) ''n2'' = Up b0" "currentTerm a0 \<noteq> - 1" "''n1'' \<noteq> ''n2''" "rvrVoteGranted ?yes"
    using S(2) a0 by (simp_all add: pair_at_def server_at_def)
  obtain S1 S2 S3 where steps: "system_step {''n1'', ''n2''} pair_options S S1" "system_step {''n1'', ''n2''} pair_options S1 S2"
      "system_step {''n1'', ''n2''} pair_options S2 S3"
    and s: "servers (core S1) = (servers (core S))(''n1'' := Up a1)" "servers (core S2) = (servers (core S1))(''n2'' := Up b1)"
      "servers (core S3) = (servers (core S2))(''n1'' := Up a2)"
    and R: "requests S1 = requests S" "requests S2 = requests S" "requests S3 = requests S" "answers S3 = answers S"
    by (rule two_server_election [OF up(1,2,4,3) e(2,6) a1(1) b1(1) up(5) a2(1)])
  have at: "pair_at S1 (Up a1) (Up b0)" "pair_at S2 (Up a1) (Up b1)" "pair_at S3 (Up a2) (Up b1)"
    using S(2) by (auto simp: pair_at_def s fun_eq_iff)
  have "pair_step\<^sup>*\<^sup>* S S3"
    by (rule pair_three [OF steps at server_fine [OF a1(2)] server_fine [OF b0] server_fine [OF a1(2)] server_fine [OF b1(2)]
          server_fine [OF a2(2)] server_fine [OF b1(2)]]) (simp_all add: R S(3))
  with S(1) have "pair_step\<^sup>*\<^sup>* empty_system S3"
    by (rule rtranclp_trans)
  with at(3) a2(2-4) b1(2) R(3,4) S(3,4) show ?thesis
    by auto
qed

text \<open>One entry is written and replicated, committed by the leader, and committed by the follower.\<close>

abbreviation sent_first :: "bytes \<times> bytes \<times> u64 \<times> AppendEntriesRequest" where
  "sent_first \<equiv> (''n1'', ''n2'', 1, first_request)"

abbreviation answer_first :: "bytes \<times> bytes \<times> u64 \<times> u64 \<times> AppendEntriesResponse" where
  "answer_first \<equiv> (''n1'', ''n2'', 1, 1, \<lparr>aerTerm = 1, aerSuccess = True, aerMatchIndex = 1\<rparr>)"

lemma pair_writes:
  "\<exists>S n0 n m. pair_step\<^sup>*\<^sup>* empty_system S \<and> servers (core S) ''n1'' = Up n0
     \<and> Write_begin (Some \<lparr>cwKey = ''k'', cwValue = ''v''\<rparr>) n0 = (WriteWait 1 1, n)
     \<and> pair_step S (S\<lparr>core := put ''n1'' n (core S)\<rparr>) \<and> pair_at (S\<lparr>core := put ''n1'' n (core S)\<rparr>) (Up n) (Up m)
     \<and> requests S = {} \<and> answers S = {}
     \<and> server_at ''n1'' ''n2'' RoleLeader 1 ''n1'' 0 one_row n \<and> nextIndex n ''n2'' = 1 \<and> matchIndex n ''n2'' = 0
     \<and> server_at ''n2'' ''n1'' RoleFollower 1 ''n1'' 0 [] m"
proof -
  obtain S n0 m where S: "pair_step\<^sup>*\<^sup>* empty_system S" "pair_at S (Up n0) (Up m)" "requests S = {}" "answers S = {}"
    and n0: "server_at ''n1'' ''n2'' RoleLeader 1 ''n1'' 0 [] n0" "nextIndex n0 ''n2'' = 1" "matchIndex n0 ''n2'' = 0"
    and m: "server_at ''n2'' ''n1'' RoleFollower 1 ''n1'' 0 [] m"
    using pair_elects by blast
  obtain n where n: "Write_begin (Some \<lparr>cwKey = ''k'', cwValue = ''v''\<rparr>) n0 = (WriteWait 1 1, n)" "server_at ''n1'' ''n2'' RoleLeader 1 ''n1'' 0 one_row n"
    "nextIndex n ''n2'' = 1" "matchIndex n ''n2'' = 0"
    using write_pair [OF n0(1) _ n0(2,3)] by auto
  let ?S = "S\<lparr>core := put ''n1'' n (core S)\<rparr>"
  have up: "servers (core S) ''n1'' = Up n0" and at: "pair_at ?S (Up n) (Up m)"
    using S(2) by (auto simp: pair_at_def fun_eq_iff)
  have "pair_step S ?S"
    by (rule pair_next [OF system_step.client_write [OF up n(1)] at server_fine [OF n(2)] server_fine [OF m]]) (simp_all add: S(3))
  with S(1,3,4) up n at m show ?thesis
    by blast
qed

lemma pair_sends:
  assumes S: "pair_at S (Up n) (Up m)" "requests S = {}" "answers S = {}"
    and n: "server_at ''n1'' ''n2'' RoleLeader 1 ''n1'' 0 one_row n" "nextIndex n ''n2'' = 1" "matchIndex n ''n2'' = 0"
    and m: "server_at ''n2'' ''n1'' RoleFollower 1 ''n1'' 0 [] m"
  shows "\<exists>S' n' m'. pair_step\<^sup>*\<^sup>* S S' \<and> pair_at S' (Up n') (Up m') \<and> requests S' = {sent_first} \<and> answers S' = {answer_first}
     \<and> server_at ''n1'' ''n2'' RoleLeader 1 ''n1'' 0 one_row n' \<and> nextIndex n' ''n2'' = 1 \<and> matchIndex n' ''n2'' = 0
     \<and> server_at ''n2'' ''n1'' RoleFollower 1 ''n1'' 0 one_row m'"
proof -
  let ?step = "system_step {''n1'', ''n2''} pair_options"
  obtain n2 where n2: "replicatePeer_prepare ''n2'' n = (SendAppend 1 first_request, n2)" "server_at ''n1'' ''n2'' RoleLeader 1 ''n1'' 0 one_row n2"
    "nextIndex n2 ''n2'' = 1" "matchIndex n2 ''n2'' = 0"
    using send_first [OF n] by auto
  obtain m1 where m1: "AppendEntries_rpc (Some first_request) m = (Inr \<lparr>aerTerm = 1, aerSuccess = True, aerMatchIndex = 1\<rparr>, m1)"
    "server_at ''n2'' ''n1'' RoleFollower 1 ''n1'' 0 one_row m1"
    using receive_first [OF m] by auto
  define S2 where "S2 = S\<lparr>core := put ''n1'' n2 (core S), requests := sends ''n1'' ''n2'' (SendAppend 1 first_request) \<union> requests S\<rparr>"
  define S3 where "S3 = S2\<lparr>core := put ''n2'' m1 (core S2), answers := insert answer_first (answers S2)\<rparr>"
  have at: "pair_at S2 (Up n2) (Up m)" "pair_at S3 (Up n2) (Up m1)"
    using S(1) by (auto simp: S2_def S3_def pair_at_def fun_eq_iff)
  have R: "requests S2 = {sent_first}" "requests S3 = {sent_first}" "answers S3 = {answer_first}"
    using S(2,3) by (simp_all add: S2_def S3_def sends_def)
  have "?step S S2"
    unfolding S2_def by (rule system_step.send [OF _ _ n2(1)]) (use S(1) n(1) in \<open>simp_all add: pair_at_def server_at_def one_peer_def\<close>)
  then have s2: "pair_step S S2"
    by (rule pair_next [OF _ at(1) server_fine [OF n2(2)] server_fine [OF m]]) (simp_all add: S(2))
  have "?step S2 S3"
    using system_step.receive [of "''n1''" "''n2''" 1 first_request S2 m _ m1 "{''n1'', ''n2''}" pair_options, OF _ _ m1(1)] at(1) R(1)
    by (simp add: S3_def pair_at_def first_request_def)
  then have "pair_step S2 S3"
    by (rule pair_next [OF _ at(2) server_fine [OF n2(2)] server_fine [OF m1(2)]]) (simp_all add: R)
  with s2 have "pair_step\<^sup>*\<^sup>* S S3"
    by (meson rtranclp.rtrancl_into_rtrancl rtranclp.rtrancl_refl)
  with at(2) R n2(2-4) m1(2) show ?thesis
    by blast
qed

lemma pair_settles:
  assumes S: "pair_at S (Up n) (Up m)" "requests S = {sent_first}" "answers S = {answer_first}"
    and n: "server_at ''n1'' ''n2'' RoleLeader 1 ''n1'' 0 one_row n" "nextIndex n ''n2'' = 1" "matchIndex n ''n2'' = 0"
    and m: "server_at ''n2'' ''n1'' RoleFollower 1 ''n1'' 0 one_row m"
  shows "\<exists>S' n'. pair_step S S' \<and> pair_at S' (Up n') (Up m) \<and> requests S' = {sent_first}
     \<and> server_at ''n1'' ''n2'' RoleLeader 1 ''n1'' 1 one_row n' \<and> nextIndex n' ''n2'' = 2 \<and> matchIndex n' ''n2'' = 1"
proof -
  obtain b n1 where n1: "replicatePeer_append_reply ''n2'' 1 1 (Some \<lparr>aerTerm = 1, aerSuccess = True, aerMatchIndex = 1\<rparr>) n = (b, n1)"
    "server_at ''n1'' ''n2'' RoleLeader 1 ''n1'' 1 one_row n1" "nextIndex n1 ''n2'' = 2" "matchIndex n1 ''n2'' = 1"
    using settle_first [OF n] by auto
  define S1 where "S1 = S\<lparr>core := put ''n1'' n1 (core S)\<rparr>"
  have at: "pair_at S1 (Up n1) (Up m)" and R: "requests S1 = {sent_first}"
    using S(1,2) by (auto simp: S1_def pair_at_def fun_eq_iff)
  have "system_step {''n1'', ''n2''} pair_options S S1"
    unfolding S1_def by (rule system_step.settle [OF _ _ n1(1)]) (use S(1,3) in \<open>simp_all add: pair_at_def\<close>)
  then have "pair_step S S1"
    by (rule pair_next [OF _ at server_fine [OF n1(2)] server_fine [OF m]]) (simp_all add: S(2))
  with at R n1(2-4) show ?thesis
    by blast
qed

text \<open>The parts of the run together.\<close>

lemma pair_replicates:
  "\<exists>S n m. pair_step\<^sup>*\<^sup>* empty_system S \<and> pair_at S (Up n) (Up m)
     \<and> server_at ''n1'' ''n2'' RoleLeader 1 ''n1'' 0 one_row n \<and> server_at ''n2'' ''n1'' RoleFollower 1 ''n1'' 0 one_row m"
proof -
  obtain S n m where S: "pair_step\<^sup>*\<^sup>* empty_system S" "pair_step S (S\<lparr>core := put ''n1'' n (core S)\<rparr>)"
    and at: "pair_at (S\<lparr>core := put ''n1'' n (core S)\<rparr>) (Up n) (Up m)" "requests S = {}" "answers S = {}"
    and n: "server_at ''n1'' ''n2'' RoleLeader 1 ''n1'' 0 one_row n" "nextIndex n ''n2'' = 1" "matchIndex n ''n2'' = 0"
    and m: "server_at ''n2'' ''n1'' RoleFollower 1 ''n1'' 0 [] m"
    using pair_writes by blast
  have start: "pair_step\<^sup>*\<^sup>* empty_system (S\<lparr>core := put ''n1'' n (core S)\<rparr>)"
    using S by (rule rtranclp.rtrancl_into_rtrancl)
  from pair_sends [OF at(1) _ _ n m] at(2,3) obtain S' n' m' where "pair_step\<^sup>*\<^sup>* (S\<lparr>core := put ''n1'' n (core S)\<rparr>) S'" "pair_at S' (Up n') (Up m')"
    "server_at ''n1'' ''n2'' RoleLeader 1 ''n1'' 0 one_row n'" "server_at ''n2'' ''n1'' RoleFollower 1 ''n1'' 0 one_row m'"
    by auto
  with rtranclp_trans [OF start] show ?thesis
    by blast
qed

lemma pair_commits:
  "\<exists>S n0 n S' n' m'. pair_step\<^sup>*\<^sup>* empty_system S \<and> servers (core S) ''n1'' = Up n0
     \<and> Write_begin (Some \<lparr>cwKey = ''k'', cwValue = ''v''\<rparr>) n0 = (WriteWait 1 1, n)
     \<and> pair_step S (S\<lparr>core := put ''n1'' n (core S)\<rparr>) \<and> pair_step\<^sup>*\<^sup>* (S\<lparr>core := put ''n1'' n (core S)\<rparr>) S'
     \<and> pair_at S' (Up n') (Up m') \<and> requests S' = {sent_first}
     \<and> server_at ''n1'' ''n2'' RoleLeader 1 ''n1'' 1 one_row n' \<and> nextIndex n' ''n2'' = 2 \<and> matchIndex n' ''n2'' = 1
     \<and> server_at ''n2'' ''n1'' RoleFollower 1 ''n1'' 0 one_row m'"
proof -
  obtain S n0 n m where S: "pair_step\<^sup>*\<^sup>* empty_system S" "servers (core S) ''n1'' = Up n0"
      "Write_begin (Some \<lparr>cwKey = ''k'', cwValue = ''v''\<rparr>) n0 = (WriteWait 1 1, n)" "pair_step S (S\<lparr>core := put ''n1'' n (core S)\<rparr>)"
    and at: "pair_at (S\<lparr>core := put ''n1'' n (core S)\<rparr>) (Up n) (Up m)" "requests S = {}" "answers S = {}"
    and n: "server_at ''n1'' ''n2'' RoleLeader 1 ''n1'' 0 one_row n" "nextIndex n ''n2'' = 1" "matchIndex n ''n2'' = 0"
    and m: "server_at ''n2'' ''n1'' RoleFollower 1 ''n1'' 0 [] m"
    using pair_writes by blast
  from pair_sends [OF at(1) _ _ n m] at(2,3) obtain S1 n1 m1 where run1: "pair_step\<^sup>*\<^sup>* (S\<lparr>core := put ''n1'' n (core S)\<rparr>) S1"
    and S1: "pair_at S1 (Up n1) (Up m1)" "requests S1 = {sent_first}" "answers S1 = {answer_first}"
    and n1: "server_at ''n1'' ''n2'' RoleLeader 1 ''n1'' 0 one_row n1" "nextIndex n1 ''n2'' = 1" "matchIndex n1 ''n2'' = 0"
    and m1: "server_at ''n2'' ''n1'' RoleFollower 1 ''n1'' 0 one_row m1"
    by auto
  from pair_settles [OF S1 n1 m1] obtain S2 n2 where run2: "pair_step S1 S2" "pair_at S2 (Up n2) (Up m1)" "requests S2 = {sent_first}"
    "server_at ''n1'' ''n2'' RoleLeader 1 ''n1'' 1 one_row n2" "nextIndex n2 ''n2'' = 2" "matchIndex n2 ''n2'' = 1"
    by blast
  have "pair_step\<^sup>*\<^sup>* (S\<lparr>core := put ''n1'' n (core S)\<rparr>) S2"
    by (rule rtranclp.rtrancl_into_rtrancl [OF run1 run2(1)])
  with S run2(2-) m1 show ?thesis
    by (intro exI [of _ S] exI [of _ n0] exI [of _ n] exI [of _ S2] exI [of _ n2] exI [of _ m1]) simp
qed

lemma pair_leader_commits:
  "\<exists>S n m. pair_step\<^sup>*\<^sup>* empty_system S \<and> pair_at S (Up n) (Up m) \<and> requests S = {sent_first}
     \<and> server_at ''n1'' ''n2'' RoleLeader 1 ''n1'' 1 one_row n \<and> nextIndex n ''n2'' = 2 \<and> matchIndex n ''n2'' = 1
     \<and> server_at ''n2'' ''n1'' RoleFollower 1 ''n1'' 0 one_row m"
  using pair_commits
proof (elim exE conjE)
  fix S n0 n S' n' m'
  assume "pair_step\<^sup>*\<^sup>* empty_system S" "pair_step S (S\<lparr>core := put ''n1'' n (core S)\<rparr>)" "pair_step\<^sup>*\<^sup>* (S\<lparr>core := put ''n1'' n (core S)\<rparr>) S'"
  then have "pair_step\<^sup>*\<^sup>* empty_system S'"
    by (meson rtranclp.rtrancl_into_rtrancl rtranclp_trans)
  moreover assume "pair_at S' (Up n') (Up m')" "requests S' = {sent_first}" "server_at ''n1'' ''n2'' RoleLeader 1 ''n1'' 1 one_row n'"
    "nextIndex n' ''n2'' = 2" "matchIndex n' ''n2'' = 1" "server_at ''n2'' ''n1'' RoleFollower 1 ''n1'' 0 one_row m'"
  ultimately show ?thesis
    by blast
qed

lemma pair_follower_commits:
  assumes S: "pair_at S (Up n) (Up m)" "requests S = {sent_first}"
    and n: "server_at ''n1'' ''n2'' RoleLeader 1 ''n1'' 1 one_row n" "nextIndex n ''n2'' = 2" "matchIndex n ''n2'' = 1"
    and m: "server_at ''n2'' ''n1'' RoleFollower 1 ''n1'' 0 one_row m"
  shows "\<exists>S' n' m'. pair_step\<^sup>*\<^sup>* S S' \<and> pair_at S' (Up n') (Up m')
     \<and> server_at ''n1'' ''n2'' RoleLeader 1 ''n1'' 1 one_row n' \<and> server_at ''n2'' ''n1'' RoleFollower 1 ''n1'' 1 one_row m'"
proof -
  let ?step = "system_step {''n1'', ''n2''} pair_options"
  obtain n1 where n1: "replicatePeer_prepare ''n2'' n = (SendAppend 1 second_request, n1)" "server_at ''n1'' ''n2'' RoleLeader 1 ''n1'' 1 one_row n1"
    using send_second [OF n] by auto
  obtain m1 where m1: "AppendEntries_rpc (Some second_request) m = (Inr \<lparr>aerTerm = 1, aerSuccess = True, aerMatchIndex = 1\<rparr>, m1)"
    "server_at ''n2'' ''n1'' RoleFollower 1 ''n1'' 1 one_row m1"
    using receive_second [OF m] by auto
  define S1 where "S1 = S\<lparr>core := put ''n1'' n1 (core S), requests := sends ''n1'' ''n2'' (SendAppend 1 second_request) \<union> requests S\<rparr>"
  define S2 where "S2 = S1\<lparr>core := put ''n2'' m1 (core S1), answers := insert answer_first (answers S1)\<rparr>"
  have at: "pair_at S1 (Up n1) (Up m)" "pair_at S2 (Up n1) (Up m1)"
    using S(1) by (auto simp: S1_def S2_def pair_at_def fun_eq_iff)
  have R: "requests S1 = {(''n1'', ''n2'', 1, second_request), sent_first}"
    using S(2) by (auto simp: S1_def sends_def)
  have "?step S S1"
    unfolding S1_def by (rule system_step.send [OF _ _ n1(1)]) (use S(1) n(1) in \<open>simp_all add: pair_at_def server_at_def one_peer_def\<close>)
  then have s1: "pair_step S S1"
    by (rule pair_next [OF _ at(1) server_fine [OF n1(2)] server_fine [OF m]]) (simp_all add: S(2))
  have "?step S1 S2"
    using system_step.receive [of "''n1''" "''n2''" 1 second_request S1 m _ m1 "{''n1'', ''n2''}" pair_options, OF _ _ m1(1)] at(1) R
    by (simp add: S2_def pair_at_def second_request_def)
  then have "pair_step S1 S2"
    by (rule pair_next [OF _ at(2) server_fine [OF n1(2)] server_fine [OF m1(2)]]) (simp_all add: R)
  with s1 have "pair_step\<^sup>*\<^sup>* S S2"
    by (meson rtranclp.rtrancl_into_rtrancl rtranclp.rtrancl_refl)
  with at(2) n1(2) m1(2) show ?thesis
    by blast
qed

lemma pair_reachable: "pair_step\<^sup>*\<^sup>* empty_system S \<Longrightarrow> system_reachable {''n1'', ''n2''} pair_options S"
  by (induction rule: rtranclp_induct) (auto simp: pair_step_def intro: system_reachable.intros)

lemma one_row_entry: "server_at s p r t v c one_row n \<Longrightarrow> log_entry (db (store n)) 1 = Some (1, set_kv)"
  by (simp add: server_at_def log_entry_def)

end
