(* ===== verification/Agreement.thy ===== *)
theory Agreement
  imports Consistency Two_Servers
begin

text \<open>
  What the invariant of \<open>Consistency\<close> means for the program: Log Matching, and that an entry a
  leader has counted on a majority is in the log of every later leader.
\<close>

section \<open>Log Matching\<close>

lemma logs_sound:
  assumes "consistent M G S"
  shows "sound (llog G) (fst ` elected (core S)) (terms (core S) s) (logs (core S) s)"
  by (rule agreementD(4) [OF consistentD(1) [OF assms]])

lemma logs_match:
  assumes "consistent M G S" and "logs (core S) s i = Some (t, c)" and "logs (core S) s' i = Some (t, d)"
  shows "agree (logs (core S) s) (logs (core S) s') i"
proof -
  have "matched (llog G) (fst ` elected (core S)) (logs (core S) v)" for v
    using logs_sound [OF assms(1)] by (simp add: sound_def)
  from matched_agree [OF this this] assms(2,3) show ?thesis
    by blast
qed


lemma pair_no_snapshots: "no_snapshots pair_options"
  by (simp add: no_snapshots_def pair_options_def)


section \<open>Committed entries\<close>

lemma grows_trans:
  assumes "grows m X Y" and "grows m Y Z"
  shows "grows m X Z"
proof -
  have "agree X Z j" if "X j \<noteq> None" for j
  proof -
    have a: "agree X Y j"
      by (rule grows_agree [OF assms(1) that])
    then have "Y j \<noteq> None"
      using agree_at [OF a order_refl] that by simp
    with a grows_agree [OF assms(2)] show ?thesis
      by (blast intro: agree_trans)
  qed
  moreover have "Z j = None \<or> (\<exists>c. Z j = Some (m, c))" if none: "X j = None" for j
  proof (cases "Y j = None")
    case True
    with assms(2) show ?thesis
      by (auto simp: grows_def)
  next
    case False
    have "Y j = None \<or> (\<exists>c. Y j = Some (m, c))"
      using assms(1) none by (simp add: grows_def)
    then obtain c where "Y j = Some (m, c)"
      using False by auto
    with agree_at [OF grows_agree [OF assms(2) False] order_refl] show ?thesis
      by auto
  qed
  ultimately show ?thesis
    by (auto simp: grows_def)
qed

lemma later_trans:
  assumes "later H E H1 E1" and "later H1 E1 H2 E2"
  shows "later H E H2 E2"
proof -
  have "E \<subseteq> E1" "E1 \<subseteq> E2"
    using assms by (simp_all add: later_def)
  moreover have "grows m (H m) (H2 m)" if m: "m \<in> E" for m
  proof (rule grows_trans)
    show "grows m (H m) (H1 m)"
      using assms(1) m by (simp add: later_def)
    show "grows m (H1 m) (H2 m)"
      using assms(2) m \<open>E \<subseteq> E1\<close> by (auto simp: later_def)
  qed
  ultimately show ?thesis
    by (auto simp: later_def)
qed

lemma evolves_trans: "evolves G L G1 L1 \<Longrightarrow> evolves G1 L1 G2 L2 \<Longrightarrow> evolves G L G2 L2"
  unfolding evolves_def using later_trans by blast

lemma committed_evolves:
  assumes "committed Q G L i t" and "evolves G L G' L'"
  shows "committed Q G' L' i t"
proof -
  obtain c A where c: "t \<in> fst ` L" "llog G t i = Some (t, c)" and A: "Q A" "\<forall>v \<in> A. \<exists>j \<ge> i. (v, t, j) \<in> acked G"
    using assms(1) unfolding committed_def by blast
  have lt: "later (llog G) (fst ` L) (llog G') (fst ` L')" and ack: "acked G \<subseteq> acked G'"
    using assms(2) by (simp_all add: evolves_def)
  have "llog G' t i = Some (t, c)"
    using later_entry [OF lt c(1), of i] c(2) by simp
  moreover have "t \<in> fst ` L'"
    using lt c(1) by (auto simp: later_def)
  moreover have "\<forall>v \<in> A. \<exists>j \<ge> i. (v, t, j) \<in> acked G'"
    using A(2) ack by blast
  ultimately show ?thesis
    using A(1) unfolding committed_def by blast
qed

lemma evolves_agree:
  assumes "evolves G L G' L'" and "t \<in> fst ` L" and "llog G t i \<noteq> None"
  shows "agree (llog G t) (llog G' t) i"
  using assms grows_agree by (auto simp: evolves_def later_def)

text \<open>What a leader counts is acknowledged by a majority.\<close>

lemma committable_committed:
  assumes con: "consistent M G S" and cfg: "config_ok M opts" and inv: "inv M opts (core S)"
    and up: "servers (core S) s = Up n" and lead: "role n = RoleLeader" and com: "committable i n" and i: "i \<noteq> 0"
  shows "committed (majority_of M) G (elected (core S)) i (currentTerm n)"
proof -
  note n = consistent_node [OF con up]
  have ln: "leader_node G s n" and w: "whole (db (store n))"
    using n lead by (auto simp: node_consistent_def)
  have L: "currentTerm n \<in> fst ` elected (core S)"
    using inv up lead by (force simp: inv_def server_ok_def)
  obtain c where e: "node_log n i = Some (currentTerm n, c)"
    using whole_term [OF w _ i] com by (auto simp: committable_def)
  obtain l where l: "spans (node_log n) 0 l" "(s, currentTerm n, l) \<in> acked G"
    using ln by (auto simp: leader_node_def)
  have "i \<le> l"
    using spans_iff [OF l(1), of i] e by simp
  define A where "A = insert s (peerID ` set (filter (\<lambda>p. i \<le> matchIndex n (peerID p)) (peers n)))"
  have acks: "\<exists>j \<ge> i. (v, currentTerm n, j) \<in> acked G" if v: "v \<in> A" for v
  proof (cases "v = s")
    case True
    with l(2) \<open>i \<le> l\<close> show ?thesis
      by blast
  next
    case False
    then obtain p where p: "p \<in> set (peers n)" "i \<le> matchIndex n (peerID p)" "v = peerID p"
      using v by (auto simp: A_def)
    moreover from this have "matchIndex n (peerID p) \<noteq> 0"
      using i by auto
    ultimately show ?thesis
      using ln by (auto simp: leader_node_def)
  qed
  have s: "s \<in> M" "peers n = optPeers (opts s)"
    using inv_server [OF inv up] by auto
  then have P: "finite M" "distinct (map peerID (peers n))" "set (map peerID (peers n)) = M - {s}"
    using cfg by (auto simp: config_ok_def)
  have "card M = Suc (card (M - {s}))"
    using card_Suc_Diff1 [OF P(1) s(1)] by simp
  also have "card (M - {s}) = length (peers n)"
    using distinct_card [OF P(2)] P(3) by simp
  finally have M: "card M = Suc (length (peers n))" .
  have "distinct (map peerID (filter (\<lambda>p. i \<le> matchIndex n (peerID p)) (peers n)))"
    using P(2) by (rule distinct_map_filter)
  from distinct_card [OF this]
  have "card (peerID ` set (filter (\<lambda>p. i \<le> matchIndex n (peerID p)) (peers n))) = length (filter (\<lambda>p. i \<le> matchIndex n (peerID p)) (peers n))"
    by (simp only: set_map length_map)
  moreover have "s \<notin> peerID ` set (filter (\<lambda>p. i \<le> matchIndex n (peerID p)) (peers n))"
    using P(3) by auto
  ultimately have card: "int (card A) = count_replicas i n"
    by (simp add: A_def count_replicas_def)
  have "majority_of M A"
    using P(1,3) s(1) com card M by (auto simp: majority_of_def A_def committable_def majorityLocked_def)
  moreover have "llog G (currentTerm n) i = Some (currentTerm n, c)"
    using ln e by (simp add: leader_node_def)
  ultimately show ?thesis
    using L acks unfolding committed_def by blast
qed

section \<open>Leader completeness\<close>

text \<open>Steps of the system with the conditions of \<open>system_reachable\<close>.\<close>

inductive system_run :: "bytes set \<Rightarrow> (bytes \<Rightarrow> Options) \<Rightarrow> system \<Rightarrow> system \<Rightarrow> bool" for M opts where
  nil: "system_run M opts S S"
| more: "system_run M opts S S' \<Longrightarrow> system_step M opts S' S'' \<Longrightarrow> steady (core S'') \<Longrightarrow> system_run M opts S S''"

lemma run_reachable: "system_run M opts S S' \<Longrightarrow> system_reachable M opts S \<Longrightarrow> system_reachable M opts S'"
  by (induction rule: system_run.induct) (auto intro: system_reachable.next_step)

lemma run_consistent:
  assumes "system_run M opts S S'" and "config_ok M opts" and "no_snapshots opts" and "system_reachable M opts S" and "consistent M G S"
  shows "\<exists>G'. consistent M G' S' \<and> evolves G (elected (core S)) G' (elected (core S'))"
  using assms(1,4,5)
proof (induction rule: system_run.induct)
  case (nil S)
  then show ?case
    by (intro exI [of _ G]) simp
next
  case (more S S' S'')
  then obtain G1 where G1: "consistent M G1 S'" "evolves G (elected (core S)) G1 (elected (core S'))"
    by blast
  have "system_reachable M opts S'"
    by (rule run_reachable [OF more(1,5)])
  then have "\<exists>G'. consistent M G' S'' \<and> evolves G1 (elected (core S')) G' (elected (core S''))"
    using consistent_step [OF more(2) G1(1) assms(2,3)] reachable_inv [OF system_reachable_core assms(2)] system_reachable_steady more(3) by blast
  with G1(2) evolves_trans show ?case
    by blast
qed

text \<open>The logs of two leaders, when one has committed an entry of its term.\<close>

lemma committed_leaders:
  assumes con: "consistent M G S" and com: "committed (majority_of M) G (elected (core S)) i t" and u: "u \<in> fst ` elected (core S)" "t \<le> u"
  shows "agree (llog G u) (llog G t) i"
proof (cases "t = u")
  case False
  note A = agreementD [OF consistentD(1) [OF con]]
  obtain a where "(u, a) \<in> elected (core S)"
    using u(1) by force
  with False u(2) show ?thesis
    by (intro majority.leader_completeness [OF A(1,2,3) com]) auto
qed simp


lemma pair_run: "pair_step\<^sup>*\<^sup>* S S' \<Longrightarrow> system_run {''n1'', ''n2''} pair_options S S'"
  by (induction rule: rtranclp_induct) (auto simp: pair_step_def intro: system_run.intros)


end
