(* ===== verification/State_Machine.thy ===== *)
theory State_Machine
  imports Agreement
begin

text \<open>
  What the servers apply: commit indices only cover entries that a leader has counted on a
  majority, so servers apply the same commands in the same order, and servers that have applied
  the same number of entries hold the same table of keys and values.
\<close>

section \<open>The state after a prefix of the log\<close>

primrec state_at :: "nat \<Rightarrow> log \<Rightarrow> (bytes \<times> (bytes \<times> int)) list" where
  "state_at 0 X = []"
| "state_at (Suc k) X =
     (case X (of_nat (Suc k)) of
        None \<Rightarrow> state_at k X
      | Some (_, c) \<Rightarrow> (case decodeCommand c of
            Inl _ \<Rightarrow> state_at k X
          | Inr cmd \<Rightarrow> upsert (cmdKey cmd) (cmdValue cmd, int64_of (of_nat (Suc k))) (state_at k X)))"

lemma state_at_cong:
  assumes "agree X Y i" and "k \<le> unat i"
  shows "state_at k X = state_at k Y"
  using assms(2)
proof (induction k)
  case (Suc k)
  have "unat (of_nat (Suc k) :: u64) \<le> Suc k"
    by (simp only: unat_of_nat mod_less_eq_dividend)
  then have "of_nat (Suc k) \<le> i"
    using Suc.prems by (simp only: word_le_nat_alt)
  then have "X (of_nat (Suc k)) = Y (of_nat (Suc k))"
    by (rule agree_at [OF assms(1)])
  then show ?case
    by (simp only: state_at.simps Suc.IH [OF Suc_leD [OF Suc.prems]])
qed simp

lemma kv_apply_index:
  assumes "unat i + 1 < 2 ^ 64" and "kv T = state_at (unat i) (log_entry T)"
  shows "kv (apply_index (i + 1) T) = state_at (unat i + 1) (log_entry T)"
proof -
  have "(of_nat (Suc (unat i)) :: u64) = i + 1"
    by (simp add: add.commute)
  with assms(2) show ?thesis
    by (simp add: apply_index_def apply_set_def split: option.splits sum.splits del: of_nat_Suc)
qed

lemma kv_replay:
  assumes "wf_tables T" and "unat i + k < 2 ^ 64" and "kv T = state_at (unat i) (log_entry T)"
  shows "kv (replay k i T) = state_at (unat i + k) (log_entry T)"
  using assms
proof (induction k arbitrary: i T)
  case (Suc k)
  let ?T = "apply_index (i + 1) T"
  have i: "unat (i + 1) = unat i + 1"
    using unat_add_small [of i 1] Suc.prems(2) by simp
  have log: "log_entry ?T = log_entry T" "wf_tables ?T"
    using same_log_apply_index [OF Suc.prems(1), of "i + 1"] by (auto simp: same_log_reads(1) same_log_def)
  have "kv ?T = state_at (unat (i + 1)) (log_entry ?T)"
    using kv_apply_index [of i T] Suc.prems i log by simp
  then have "kv (replay k (i + 1) ?T) = state_at (unat (i + 1) + k) (log_entry ?T)"
    using Suc.IH [of ?T "i + 1"] log(2) Suc.prems(2) i by simp
  then show ?case
    using i log by simp
qed simp

section \<open>What the node has applied\<close>

definition progress :: "Node \<Rightarrow> u64 \<times> u64 \<times> (bytes \<times> (bytes \<times> int)) list \<times> u64 result" where
  "progress n = (commitIndex n, lastApplied n, kv (db (store n)), meta_uint (db (store n)) ''last_applied'')"

definition keeps_progress :: "(Store, 'a) action \<Rightarrow> bool" where
  "keeps_progress m \<longleftrightarrow> (\<forall>s r s'. m s = (r, s') \<longrightarrow> kv (db s') = kv (db s) \<and> meta_uint (db s') ''last_applied'' = meta_uint (db s) ''last_applied'')"

lemma keeps_progress_spec:
  assumes "implements m w" and "\<And>T. kv (snd (w T)) = kv T \<and> meta_uint (snd (w T)) ''last_applied'' = meta_uint T ''last_applied''"
  shows "keeps_progress m"
proof -
  have "kv (db s') = kv (db s) \<and> meta_uint (db s') ''last_applied'' = meta_uint (db s) ''last_applied''" if "m s = (r, s')" for s r s'
  proof -
    have "(r, db s') = w (db s) \<or> db s' = db s"
      using assms(1) that unfolding implements_def by blast
    with assms(2) [of "db s"] show ?thesis
      by (metis snd_conv)
  qed
  then show ?thesis
    by (simp add: keeps_progress_def)
qed

lemma kv_log_ops [simp]:
  "kv (append_entries es T) = kv T" "meta_uint (append_entries es T) key = meta_uint T key"
  "kv (delete_log_from i T) = kv T" "meta_uint (delete_log_from i T) key = meta_uint T key"
proof -
  have "kv (append_entries es T) = kv T \<and> metadata (append_entries es T) = metadata T"
    unfolding append_entries_def by (induction es arbitrary: T) simp_all
  then show "kv (append_entries es T) = kv T" "meta_uint (append_entries es T) key = meta_uint T key"
    by (simp_all add: meta_uint_def)
qed (simp_all add: meta_uint_def)

lemma kv_save [simp]: "kv (save_term_vote t v T) = kv T" "meta_uint (save_term_vote t v T) ''last_applied'' = meta_uint T ''last_applied''"
  by (simp_all add: save_term_vote_def meta_uint_other)

lemma keeps_progress_methods:
  "keeps_progress LastIndexAndTerm" "keeps_progress SnapshotIndexTerm" "keeps_progress LoadSnapshot" "keeps_progress (Term i)"
  "keeps_progress (EntriesFrom i l)" "keeps_progress (Get k)" "keeps_progress (SaveTermVote t v)"
  "keeps_progress (AppendEntries es)" "keeps_progress (DeleteFrom i)"
  by (rule keeps_progress_spec [OF implements_LastIndexAndTerm] keeps_progress_spec [OF implements_SnapshotIndexTerm]
      keeps_progress_spec [OF implements_LoadSnapshot] keeps_progress_spec [OF implements_Term]
      keeps_progress_spec [OF implements_EntriesFrom] keeps_progress_spec [OF implements_Get]
      keeps_progress_spec [OF implements_SaveTermVote] keeps_progress_spec [OF implements_AppendEntries]
      keeps_progress_spec [OF implements_DeleteFrom]; simp)+

lemma progress_on_store: "on_store m n = (r, n') \<Longrightarrow> keeps_progress m \<Longrightarrow> progress n' = progress n"
  by (auto simp: keeps_progress_def progress_def elim!: on_storeE)

lemmas progress_store = keeps_progress_methods [THEN progress_on_store [rotated]]

lemma progress_updates [simp]:
  "progress (n\<lparr>metrics := x1\<rparr>) = progress n" "progress (n\<lparr>leaderID := x2\<rparr>) = progress n" "progress (n\<lparr>role := x3\<rparr>) = progress n"
  "progress (n\<lparr>currentTerm := x4\<rparr>) = progress n" "progress (n\<lparr>votedFor := x2\<rparr>) = progress n" "progress (n\<lparr>nextIndex := x5\<rparr>) = progress n"
  "progress (n\<lparr>matchIndex := x5\<rparr>) = progress n" "progress (n\<lparr>electionDeadline := x6\<rparr>) = progress n" "progress (n\<lparr>clients := x7\<rparr>) = progress n"
  "progress (n\<lparr>clock := x8\<rparr>) = progress n" "progress (n\<lparr>rands := x8\<rparr>) = progress n" "progress (n\<lparr>spawned := x9\<rparr>) = progress n"
  by (simp_all add: progress_def)

lemma progress_snd_store [simp]: "keeps_progress m \<Longrightarrow> progress (snd (on_store m n)) = progress n"
  by (cases "on_store m n") (auto dest: progress_on_store)

lemma progress_reset [simp]: "progress (resetElectionDeadlineLocked n) = progress n"
  by (auto simp: resetElectionDeadlineLocked_def rand_Int63n_def time_Now_def Let_def split: prod.splits list.splits)

lemma progress_refresh [simp]: "progress (refreshMetricsLocked n) = progress n"
  by (auto simp: refreshMetricsLocked_def split: prod.splits dest!: progress_store)

lemma progress_inc_rpc [simp]: "progress (inc_rpc m r n) = progress n"
  by (simp add: inc_rpc_def)

lemma progress_stepDown [simp]: "progress (stepDownLocked t l n) = progress n"
  by (simp add: stepDownLocked_def Let_def keeps_progress_methods)

lemma progress_follow [simp]: "progress (follow t l n) = progress n"
  by (simp add: follow_def)

lemma progress_becomeLeader_peers [simp]: "progress (fold (becomeLeader_peer i) ps n) = progress n"
  by (induction ps arbitrary: n) (simp_all add: becomeLeader_peer_def)

lemma progress_becomeLeader [simp]: "progress (becomeLeaderLocked n) = progress n"
  by (auto simp: becomeLeaderLocked_def Let_def split: prod.splits sum.splits dest!: progress_store)

lemma progress_begin: "startElection_begin n = (e, n') \<Longrightarrow> progress n' = progress n"
  by (auto simp: startElection_begin_def Let_def split: if_splits prod.splits sum.splits dest!: progress_store)

lemma progress_RequestVote: "RequestVote req n = (r, n') \<Longrightarrow> progress n' = progress n"
  by (auto simp: RequestVote_def Let_def split: if_splits prod.splits sum.splits dest!: progress_store)

lemma progress_vote_reply: "startElection_reply resp e n = (e', n') \<Longrightarrow> progress n' = progress n"
  by (auto simp: startElection_reply_def Let_def split: if_splits)

lemma progress_single [simp]: "progress (startElection_single e n) = progress n"
  by (simp add: startElection_single_def)

lemma progress_prepare: "replicatePeer_prepare p n = (a, n') \<Longrightarrow> progress n' = progress n"
  by (auto simp: replicatePeer_prepare_def Let_def split: if_splits prod.splits sum.splits dest!: progress_store)

lemma progress_idle: "idle_step n n' \<Longrightarrow> progress n' = progress n"
proof (induction rule: idle_step.induct)
  case (client_read req k n r n')
  then show ?case
    by (auto simp: Read_finish_def split: if_splits prod.splits sum.splits dest!: progress_store)
next
  case (client_status n r n')
  then show ?case
    by (auto simp: Status_def split: prod.splits sum.splits dest!: progress_store)
next
  case (environment n fs cs rs)
  then show ?case
    by (simp add: progress_def)
qed (auto simp: Start_dial_def run_tick_def time_Now_def Let_def split: list.splits prod.splits)

lemma progress_append_end:
  "append_error e n = (r, n') \<Longrightarrow> progress n' = progress n"
  "append_reject q n = (r, n') \<Longrightarrow> progress n' = progress n"
  by (auto simp: append_error_def append_reject_def split: prod.splits dest!: progress_store)

lemma progress_find_conflict: "progress (snd (find_conflict es n)) = progress n"
proof (induction es arbitrary: n)
  case (Cons e es)
  obtain x n1 where t: "on_store (Term (entryIndex e)) n = (x, n1)"
    by force
  obtain y n2 where d: "on_store (DeleteFrom (entryIndex e)) n1 = (y, n2)"
    by force
  have "progress n1 = progress n" "progress n2 = progress n"
    using progress_store(4) [OF t] progress_store(9) [OF d] by simp_all
  with Cons show ?case
    by (auto simp: t d split: sum.splits)
qed simp

lemma progress_append_store: "append_store es n = (r, n') \<Longrightarrow> progress n' = progress n"
  using progress_find_conflict [of es n]
  by (auto simp: append_store_def split: prod.splits sum.splits if_splits dest!: progress_store)

section \<open>Applying\<close>

text \<open>A node that has applied what its file says, and no more than it may.\<close>

definition applies :: "Node \<Rightarrow> bool" where
  "applies n \<longleftrightarrow> lastApplied n \<le> commitIndex n \<and> meta_uint (db (store n)) ''last_applied'' = Inr (lastApplied n)
     \<and> kv (db (store n)) = state_at (unat (lastApplied n)) (node_log n)"

lemma applies_cong: "progress n' = progress n \<Longrightarrow> node_log n' = node_log n \<Longrightarrow> applies n' = applies n"
  by (simp add: applies_def progress_def)

lemma progress_commitIndex: "progress n' = progress n \<Longrightarrow> commitIndex n' = commitIndex n"
  by (simp add: progress_def)

lemma applyCommitted_applies:
  assumes "applies n" and "whole (db (store n))" and "snapshotThreshold n = 0"
  shows "applies (applyCommittedLocked n)"
proof -
  let ?n = "applyCommittedLocked n"
  have wf: "wf_tables (db (store n))" and sp: "snap_pos (db (store n)) = Inr (0, 0)"
    using assms(2) by (auto simp: whole_def gap_free_wf)
  have a: "lastApplied n \<le> commitIndex n" "meta_uint (db (store n)) ''last_applied'' = Inr (lastApplied n)"
    "kv (db (store n)) = state_at (unat (lastApplied n)) (node_log n)"
    using assms(1) by (auto simp: applies_def)
  obtain k where k: "unat (lastApplied ?n) = unat (lastApplied n) + k" "lastApplied ?n \<le> commitIndex n"
    "kv (db (store ?n)) = kv (replay k (lastApplied n) (db (store n)))" "meta_uint (db (store ?n)) ''last_applied'' = Inr (lastApplied ?n)"
    using applyCommitted_run [OF a(1) wf sp _ a(2)] by (auto simp: Let_def)
  have "unat (lastApplied ?n) < 2 ^ LENGTH(64)"
    by (rule unsigned_less)
  then have "unat (lastApplied n) + k < 2 ^ 64"
    using k(1) by simp
  then have "kv (db (store ?n)) = state_at (unat (lastApplied ?n)) (node_log n)"
    using kv_replay [OF wf _ a(3), of k] k(1,3) by simp
  then show ?thesis
    using k same_log_reads(1) [OF applyCommitted_same_log [OF assms(3) wf]] by (simp add: applies_def)
qed

lemma whole_last:
  assumes "whole T" and "spans (log_entry T) 0 l"
  shows "\<exists>t. last_pos T = Inr (l, t)"
  using gap_free_last [of T 0 0 l] assms by (auto simp: whole_def)

lemma advanceCommit_applies:
  assumes ap: "applies n" and w: "whole (db (store n))" and off: "snapshotThreshold n = 0" and c: "commitIndex n < 2 ^ 63"
  shows "applies (advanceCommitLocked n)"
    and "commitIndex (advanceCommitLocked n) = commitIndex n
      \<or> committable (commitIndex (advanceCommitLocked n)) n \<and> commitIndex n < commitIndex (advanceCommitLocked n)"
proof -
  obtain l where l: "spans (node_log n) 0 l" "l < 2 ^ 63"
    using whole_spans [OF w] by blast
  obtain t where lp: "last_pos (db (store n)) = Inr (l, t)"
    using whole_last [OF w l(1)] by blast
  obtain n2 where n2: "commit_only n n2" "advanceCommitLocked n = n2 \<or> advanceCommitLocked n = applyCommittedLocked n2"
    "commitIndex n \<le> commitIndex n2" "commitIndex n2 = commitIndex n \<or> committable (commitIndex n2) n"
    using advanceCommit_run [OF lp l(2) c] by blast
  obtain s c' where s: "n2 = n\<lparr>store := s, commitIndex := c'\<rparr>" "db s = db (store n)"
    using n2(1) by (auto simp: commit_only_def)
  have "applies n2"
    using ap n2(3) by (auto simp: applies_def s intro: order_trans)
  moreover have "applies (applyCommittedLocked n2)"
    by (rule applyCommitted_applies [OF \<open>applies n2\<close>]) (use w off in \<open>simp_all add: s\<close>)
  ultimately show "applies (advanceCommitLocked n)"
    using n2(2) by auto
  have "commitIndex (advanceCommitLocked n) = commitIndex n2"
    using n2(2) by auto
  with n2(3,4) show "commitIndex (advanceCommitLocked n) = commitIndex n
      \<or> committable (commitIndex (advanceCommitLocked n)) n \<and> commitIndex n < commitIndex (advanceCommitLocked n)"
    by (auto simp: order_less_le)
qed

section \<open>Commit indices\<close>

text \<open>
  \<open>commits M G L t X c\<close>: the log \<open>X\<close> holds, up to \<open>c\<close>, what a leader of a term up to \<open>t\<close> has counted on a
  majority.
\<close>

definition commits :: "bytes set \<Rightarrow> bytes history \<Rightarrow> (u64 \<times> bytes) set \<Rightarrow> u64 \<Rightarrow> log \<Rightarrow> u64 \<Rightarrow> bool" where
  "commits M G L t X c \<longleftrightarrow> c = 0 \<or> (\<exists>i u. committed (majority_of M) G L i u \<and> c \<le> i \<and> u \<le> t \<and> agree X (llog G u) c)"

lemma commits_0 [simp]: "commits M G L t X 0"
  by (simp add: commits_def)

lemma commits_mono:
  assumes "commits M G L t X c" and "d \<le> c" and "t \<le> t'" and "agree Y X d"
  shows "commits M G L t' Y d"
proof (cases "c = 0")
  case True
  with assms(2) show ?thesis
    by simp
next
  case False
  with assms(1) obtain i u where i: "committed (majority_of M) G L i u" "c \<le> i" "u \<le> t" "agree X (llog G u) c"
    by (auto simp: commits_def)
  have "agree Y (llog G u) d"
    using assms(2,4) i(4) by (blast intro: agree_trans agree_mono)
  with i assms(2,3) show ?thesis
    unfolding commits_def by (meson order_trans)
qed

lemma committed_entries:
  assumes "leaders_ok G L" and "committed Q G L i u" and "0 < j" and "j \<le> i"
  shows "llog G u j \<noteq> None"
proof -
  obtain l where l: "spans (llog G u) 0 l"
    using leaders_sound [OF assms(1), of u] assms(2) by (auto simp: committed_def sound_def)
  have "llog G u i \<noteq> None"
    using assms(2) by (auto simp: committed_def)
  then have "i \<le> l"
    using spans_iff [OF l, of i] by simp
  with assms(3,4) show ?thesis
    using spans_iff [OF l, of j] by auto
qed

lemma commits_evolves:
  assumes "commits M G L t X c" and "evolves G L G' L'" and "leaders_ok G L"
  shows "commits M G' L' t X c"
proof (cases "c = 0")
  case False
  with assms(1) obtain i u where i: "committed (majority_of M) G L i u" "c \<le> i" "u \<le> t" "agree X (llog G u) c"
    by (auto simp: commits_def)
  have "llog G u c \<noteq> None"
    using committed_entries [OF assms(3) i(1) _ i(2)] False by (simp add: word_neq_0_conv)
  then have "agree (llog G u) (llog G' u) c"
    using i(1) by (intro evolves_agree [OF assms(2)]) (auto simp: committed_def)
  with i(4) have "agree X (llog G' u) c"
    by (rule agree_trans)
  with committed_evolves [OF i(1) assms(2)] i(2,3) show ?thesis
    unfolding commits_def by blast
qed simp

text \<open>A log that covers a commit index has entries up to it.\<close>

lemma commits_within:
  assumes "commits M G L t X c" and "leaders_ok G L" and "spans X 0 l"
  shows "c \<le> l"
proof (cases "c = 0")
  case False
  with assms(1) obtain i u where i: "committed (majority_of M) G L i u" "c \<le> i" "agree X (llog G u) c"
    by (auto simp: commits_def)
  have "X c \<noteq> None"
    using committed_entries [OF assms(2) i(1) _ i(2)] agree_at [OF i(3) order_refl] False by (simp add: word_neq_0_conv)
  then show ?thesis
    using spans_iff [OF assms(3), of c] by simp
qed simp

text \<open>Two logs agree as far as both are committed.\<close>

lemma commits_agree:
  assumes con: "consistent M G S" and x: "commits M G (elected (core S)) t X c" and y: "commits M G (elected (core S)) t' Y d"
    and zero: "X 0 = None" "Y 0 = None"
  shows "agree X Y (min c d)"
proof (cases "c = 0 \<or> d = 0")
  case True
  then have "min c d = 0"
    by (auto simp: min_def)
  with zero show ?thesis
    by (simp add: agree_0)
next
  case False
  let ?L = "elected (core S)"
  from x y False obtain i u i' u' where i: "committed (majority_of M) G ?L i u" "c \<le> i" "agree X (llog G u) c"
    and i': "committed (majority_of M) G ?L i' u'" "d \<le> i'" "agree Y (llog G u') d"
    by (auto simp: commits_def)
  have E: "u \<in> fst ` ?L" "u' \<in> fst ` ?L"
    using i(1) i'(1) by (auto simp: committed_def)
  have "agree (llog G u) (llog G u') (min i i')"
  proof (cases "u \<le> u'")
    case True
    show ?thesis
      using committed_leaders [OF con i(1) E(2) True] by (blast intro: agree_sym agree_mono min.cobounded1)
  next
    case False
    then have "u' \<le> u"
      by simp
    from committed_leaders [OF con i'(1) E(1) this] show ?thesis
      by (blast intro: agree_mono min.cobounded2)
  qed
  moreover have "min c d \<le> min i i'"
    using i(2) i'(2) by (simp add: min_def) (meson order_trans linear)
  ultimately have "agree (llog G u) (llog G u') (min c d)"
    by (rule agree_mono)
  moreover have "agree X (llog G u) (min c d)" "agree Y (llog G u') (min c d)"
    using i(3) i'(3) agree_mono by (meson min.cobounded1 min.cobounded2)+
  ultimately show ?thesis
    by (blast intro: agree_trans agree_sym)
qed

text \<open>Taking over a part of a later leader's log does not touch what is committed.\<close>

lemma commits_takes:
  assumes con: "consistent M G S" and x: "commits M G (elected (core S)) t X c" and w: "w \<in> fst ` elected (core S)" "t \<le> w"
    and takes: "takes (llog G w) s X Y" and zero: "X 0 = None"
  shows "agree Y X c"
proof (cases "c = 0")
  case True
  have "llog G w 0 = None"
    using leaders_sound [OF agreementD(1) [OF consistentD(1) [OF con]] w(1)] by (rule sound_0)
  with True zero takes show ?thesis
    by (simp add: agree_def takes_def log_upto_def)
next
  case False
  let ?L = "elected (core S)"
  note lead = agreementD(1) [OF consistentD(1) [OF con]]
  from x False obtain i u where i: "committed (majority_of M) G ?L i u" "c \<le> i" "u \<le> t" "agree X (llog G u) c"
    by (auto simp: commits_def)
  have "agree (llog G w) (llog G u) i"
    using i(3) w by (intro committed_leaders [OF con i(1)]) (auto intro: order_trans)
  then have XW: "agree X (llog G w) c"
    using i(2,4) by (blast intro: agree_trans agree_sym agree_mono)
  obtain q where q: "q \<le> s" "agree X (llog G w) q" "spans X 0 q \<or> q < q + 1 \<and> X (q + 1) \<noteq> llog G w (q + 1)" and Y: "Y = log_upto s (llog G w)"
    using takes by (auto simp: takes_def)
  have "c \<le> q"
  proof (rule ccontr)
    assume "\<not> c \<le> q"
    then have "q < c"
      by simp
    have "X c \<noteq> None"
      using committed_entries [OF lead i(1) _ i(2)] agree_at [OF i(4) order_refl] False by (simp add: word_neq_0_conv)
    with q(3) \<open>\<not> c \<le> q\<close> have "X (q + 1) \<noteq> llog G w (q + 1)"
      using spans_iff [of X 0 q c] by auto
    with agree_at [OF XW u64_Suc_le [OF \<open>q < c\<close>]] show False
      by simp
  qed
  then have "agree Y (llog G w) c"
    using q(1) by (auto simp: Y intro: order_trans)
  with XW show ?thesis
    by (blast intro: agree_trans agree_sym)
qed

section \<open>The invariant\<close>

definition files_applied :: "bytes set \<Rightarrow> bytes history \<Rightarrow> (u64 \<times> bytes) set \<Rightarrow> tables \<Rightarrow> bool" where
  "files_applied M G L T \<longleftrightarrow> (\<exists>a. meta_uint (opened T) ''last_applied'' = Inr a \<and> kv T = state_at (unat a) (log_entry T)
     \<and> commits M G L (term_of T) (log_entry T) a)"

definition node_applied :: "bytes set \<Rightarrow> bytes history \<Rightarrow> (u64 \<times> bytes) set \<Rightarrow> Node \<Rightarrow> bool" where
  "node_applied M G L n \<longleftrightarrow> applies n \<and> commits M G L (currentTerm n) (node_log n) (commitIndex n)"

primrec server_applied :: "bytes set \<Rightarrow> bytes history \<Rightarrow> (u64 \<times> bytes) set \<Rightarrow> server \<Rightarrow> bool" where
  "server_applied M G L (Down T) = files_applied M G L T"
| "server_applied M G L (Up n) = node_applied M G L n"

definition request_committed :: "bytes set \<Rightarrow> bytes history \<Rightarrow> (u64 \<times> bytes) set \<Rightarrow> AppendEntriesRequest \<Rightarrow> bool" where
  "request_committed M G L req \<longleftrightarrow> commits M G L (aeTerm req) (llog G (aeTerm req)) (aeLeaderCommit req)"

definition commit_ok :: "bytes set \<Rightarrow> bytes history \<Rightarrow> system \<Rightarrow> bool" where
  "commit_ok M G S \<longleftrightarrow> (\<forall>s. server_applied M G (elected (core S)) (servers (core S) s))
     \<and> (\<forall>l p sent req. (l, p, sent, req) \<in> requests S \<longrightarrow> request_committed M G (elected (core S)) req)"

lemma server_applied_evolves:
  "server_applied M G L D \<Longrightarrow> evolves G L G' L' \<Longrightarrow> leaders_ok G L \<Longrightarrow> server_applied M G' L' D"
  by (cases D) (auto simp: files_applied_def node_applied_def intro: commits_evolves)

lemma request_committed_evolves:
  assumes "request_committed M G L req" and "evolves G L G' L'" and "leaders_ok G L" and "aeTerm req \<in> fst ` L"
  shows "request_committed M G' L' req"
proof (cases "aeLeaderCommit req = 0")
  case False
  let ?c = "aeLeaderCommit req" and ?t = "aeTerm req"
  have c: "commits M G L ?t (llog G ?t) ?c"
    using assms(1) by (simp add: request_committed_def)
  obtain l where l: "spans (llog G ?t) 0 l"
    using leaders_sound [OF assms(3,4)] by (auto simp: sound_def)
  then have "llog G ?t ?c \<noteq> None"
    using commits_within [OF c assms(3) l] spans_iff [OF l, of ?c] False by (simp add: word_neq_0_conv)
  then have "agree (llog G' ?t) (llog G ?t) ?c"
    by (intro agree_sym [OF evolves_agree [OF assms(2,4)]])
  with commits_mono [OF commits_evolves [OF c assms(2,3)] order_refl order_refl] show ?thesis
    by (simp add: request_committed_def)
qed (simp add: request_committed_def)

lemma commit_update:
  assumes ok: "commit_ok M G S" and con: "consistent M G S" and ev: "evolves G (elected (core S)) G' (elected (core S'))"
    and D: "servers (core S') = (servers (core S))(s := D)" "server_applied M G' (elected (core S')) D"
    and R: "\<And>l p sent req. (l, p, sent, req) \<in> requests S' \<Longrightarrow> (l, p, sent, req) \<notin> requests S \<Longrightarrow> request_committed M G' (elected (core S')) req"
  shows "commit_ok M G' S'"
proof -
  note lead = agreementD(1) [OF consistentD(1) [OF con]]
  have "server_applied M G' (elected (core S')) (servers (core S') v)" for v
  proof (cases "v = s")
    case True
    with D show ?thesis
      by simp
  next
    case False
    have "server_applied M G (elected (core S)) (servers (core S) v)"
      using ok unfolding commit_ok_def by blast
    from server_applied_evolves [OF this ev lead] show ?thesis
      unfolding D(1) fun_upd_other [OF False] .
  qed
  moreover have "request_committed M G' (elected (core S')) req" if r: "(l, p, sent, req) \<in> requests S'" for l p sent req
  proof (cases "(l, p, sent, req) \<in> requests S")
    case True
    have "request_ok G (elected (core S)) (l, p, sent, req)"
      using consistentD(4) [OF con] True by (simp add: traffic_ok_def)
    then have "aeTerm req \<in> fst ` elected (core S)"
      by (force simp: request_ok_def)
    then show ?thesis
      using ok True by (intro request_committed_evolves [OF _ ev lead]) (auto simp: commit_ok_def)
  next
    case False
    with R r show ?thesis
      by blast
  qed
  ultimately show ?thesis
    by (simp add: commit_ok_def)
qed

text \<open>A node that moves on without touching its log or what it has applied.\<close>

lemma quiet_applied:
  assumes "node_applied M G L n" and "progress n' = progress n" and "node_log n' = node_log n" and "currentTerm n \<le> currentTerm n'"
  shows "node_applied M G L n'"
proof -
  have "applies n'"
    using assms(1) applies_cong [OF assms(2,3)] by (simp add: node_applied_def)
  moreover have "commits M G L (currentTerm n') (node_log n) (commitIndex n)"
    using assms(1) by (intro commits_mono [OF _ order_refl assms(4) agree_refl]) (simp add: node_applied_def)
  ultimately show ?thesis
    using progress_commitIndex [OF assms(2)] assms(3) by (simp add: node_applied_def)
qed

lemma commit_quiet:
  assumes ok: "commit_ok M G S" and con: "consistent M G S" and ev: "evolves G (elected (core S)) G' (elected (core S'))"
    and up: "servers (core S) s = Up n" and S': "servers (core S') = (servers (core S))(s := Up n')" "requests S' = requests S"
    and n': "progress n' = progress n" "node_log n' = node_log n" "currentTerm n \<le> currentTerm n'"
  shows "commit_ok M G' S'"
proof (rule commit_update [OF ok con ev S'(1)])
  have "server_applied M G' (elected (core S')) (Up n)"
    using ok up server_applied_evolves [OF _ ev agreementD(1) [OF consistentD(1) [OF con]]] unfolding commit_ok_def by metis
  then show "server_applied M G' (elected (core S')) (Up n')"
    using quiet_applied [OF _ n'] by simp
qed (use S'(2) in auto)

end
