(* ===== verification/Safety.thy ===== *)
theory Safety
  imports State_Machine
begin

text \<open>
  State machine safety: every step of the system keeps the invariant of \<open>State_Machine\<close>, so that
  no two servers ever apply different commands at the same index.
\<close>

section \<open>Handlers that commit\<close>

lemma applies_agree:
  assumes "applies n" and "progress n' = progress n" and "agree (node_log n') (node_log n) (lastApplied n)"
  shows "applies n'"
  using assms state_at_cong [OF assms(3) order_refl] by (simp add: applies_def progress_def)

lemma committable_same:
  assumes "same_files_log n n'" and "view n' = view n" and "matchIndex n' = matchIndex n"
  shows "committable i n' = committable i n"
  using assms same_log_reads(3) [OF assms(1), of i] by (simp add: committable_def count_replicas_def majorityLocked_def view_def)

text \<open>A leader's commit index moves, if at all, to an index it may commit.\<close>

definition commit_moves :: "Node \<Rightarrow> u64 \<Rightarrow> bool" where
  "commit_moves n c \<longleftrightarrow> commitIndex n = c \<or> role n = RoleLeader \<and> committable (commitIndex n) n \<and> c < commitIndex n"

lemma advance_refresh_applies:
  assumes "applies n" and "whole (db (store n))" and "snapshotThreshold n = 0" and "commitIndex n < 2 ^ 63" and "role n = RoleLeader"
  shows "applies (refreshMetricsLocked (advanceCommitLocked n)) \<and> commit_moves (refreshMetricsLocked (advanceCommitLocked n)) (commitIndex n)"
proof -
  let ?m = "advanceCommitLocked n"
  let ?n = "refreshMetricsLocked ?m"
  note A = advanceCommit_applies [OF assms(1-4)]
  have p: "progress ?n = progress ?m" "node_log ?n = node_log ?m"
    by (simp_all add: refresh_store)
  have "same_files_log n ?n"
    using advanceCommit_same_log [OF assms(3)] whole_wf [OF assms(2)] by (simp add: refresh_store)
  moreover have "view ?n = view n"
    by simp
  moreover have "matchIndex ?n = matchIndex n"
    by simp
  ultimately have "committable i ?n = committable i n" for i
    by (rule committable_same)
  with A applies_cong [OF p] progress_commitIndex [OF p(1)] assms(5) view_role [OF \<open>view ?n = view n\<close>] show ?thesis
    by (auto simp: commit_moves_def)
qed

lemma commit_frame:
  "on_store LastIndexAndTerm n = (r, n') \<Longrightarrow> progress n' = progress n \<and> db (store n') = db (store n)
     \<and> snapshotThreshold n' = snapshotThreshold n \<and> role n' = role n"
  using progress_store(1) [of n r n'] last_index_frame [of n r n'] by (auto elim: on_storeE)

lemma append_reply_applies:
  assumes run: "replicatePeer_append_reply p t sent resp n = (b, n')"
    and n: "applies n" "whole (db (store n))" "snapshotThreshold n = 0" "commitIndex n < 2 ^ 63"
  shows "applies n' \<and> commit_moves n' (commitIndex n)"
proof -
  have down: "node_log (stepDownLocked t' l n) = node_log n" for t' l
    using same_log_reads(1) [OF stepDown_same_log [OF whole_wf [OF n(2)]]] by simp
  let ?same = "progress n' = progress n \<and> node_log n' = node_log n"
  let ?advance = "\<exists>m. n' = refreshMetricsLocked (advanceCommitLocked m) \<and> progress m = progress n \<and> db (store m) = db (store n)
    \<and> snapshotThreshold m = snapshotThreshold n \<and> role m = RoleLeader"
  have "?same \<or> ?advance"
  proof (cases "AppendEntriesResponse_GetTerm resp > currentTerm n \<or> role n \<noteq> RoleLeader \<or> currentTerm n \<noteq> t \<or> \<not> AppendEntriesResponse_GetSuccess resp")
    case True
    with run down have ?same
      by (auto simp: replicatePeer_append_reply_def split: if_splits)
    then show ?thesis ..
  next
    case False
    then have guard: "(AppendEntriesResponse_GetTerm resp > currentTerm n) = False" "(role n \<noteq> RoleLeader \<or> currentTerm n \<noteq> t) = False"
        "AppendEntriesResponse_GetSuccess resp = True"
      by auto
    define m where "m = (if AppendEntriesResponse_GetMatchIndex resp < sent then sent else AppendEntriesResponse_GetMatchIndex resp)"
    define n1 where "n1 = (if m > matchIndex n p then n\<lparr>matchIndex := (matchIndex n)(p := m)\<rparr> else n)"
    obtain x n3 where s: "on_store LastIndexAndTerm (n1\<lparr>nextIndex := (nextIndex n1)(p := matchIndex n1 p + 1)\<rparr>) = (x, n3)"
      by force
    define n4 where "n4 = (if matchIndex n3 p \<le> (case x of Inl _ \<Rightarrow> 0 | Inr (i, _) \<Rightarrow> i)
      then n3\<lparr>metrics := SetReplicationLag p ((case x of Inl _ \<Rightarrow> 0 | Inr (i, _) \<Rightarrow> i) - matchIndex n3 p) (metrics n3)\<rparr> else n3)"
    have "n' = refreshMetricsLocked (advanceCommitLocked n4)"
      using run unfolding replicatePeer_append_reply_def Let_def guard if_True if_False m_def [symmetric] n1_def [symmetric] s prod.case n4_def [symmetric]
      by simp
    moreover have "progress n4 = progress n" "db (store n4) = db (store n)" "snapshotThreshold n4 = snapshotThreshold n" "role n4 = role n"
      using commit_frame [OF s] by (simp_all add: n4_def n1_def)
    ultimately show ?thesis
      using False by auto
  qed
  then consider ?same | m where "n' = refreshMetricsLocked (advanceCommitLocked m)" "progress m = progress n" "db (store m) = db (store n)"
      "snapshotThreshold m = snapshotThreshold n" "role m = RoleLeader"
    by blast
  then show ?thesis
  proof cases
    case 1
    then show ?thesis
      using applies_cong [of n' n] n(1) progress_commitIndex [of n' n] by (simp add: commit_moves_def)
  next
    case (2 m)
    then show ?thesis
      using advance_refresh_applies [of m] applies_cong [of m n] n progress_commitIndex [of m n] by simp
  qed
qed

lemma Write_begin_applies:
  assumes run: "Write_begin req n = (w, n')" and n: "applies n" "whole (db (store n))" "room (db (store n))" "snapshotThreshold n = 0"
    "commitIndex n < 2 ^ 63" and within: "\<And>l. spans (node_log n) 0 l \<Longrightarrow> commitIndex n \<le> l"
  shows "applies n' \<and> commit_moves n' (commitIndex n)"
proof -
  obtain l where l: "spans (node_log n) 0 l" "l < 2 ^ 63"
    using whole_spans [OF n(2)] by blast
  then obtain t where lp: "last_pos (db (store n)) = Inr (l, t)"
    using whole_last [OF n(2)] by blast
  then have ok: "ok_index (l + 1)"
    using n(3) by (simp add: room_def)
  have new: "whole (append_entries [e] (db (store n))) \<and> log_entry (append_entries [e] (db (store n))) = (node_log n)(l + 1 \<mapsto> (entryTerm e, entryCommand e))"
    if "entryIndex e = l + 1" for e
    using gap_free_append [OF _ lp ok, of e] n(2) that by (auto simp: whole_def log_entry_append)
  have la: "lastApplied n \<le> l"
    using within [OF l(1)] n(1) by (auto simp: applies_def intro: order_trans)
  have up: "agree ((node_log n)(l + 1 \<mapsto> x)) (node_log n) (lastApplied n)" for x
    using la ok_index_Suc [OF ok] by (auto simp: agree_def)
  show ?thesis
  proof (cases "ClientWriteRequest_GetKey req = [] \<or> role n \<noteq> RoleLeader")
    case True
    with run have "n' = n"
      by (cases "ClientWriteRequest_GetKey req = []") (simp_all add: Write_begin_def)
    with n(1) show ?thesis
      by (simp add: commit_moves_def)
  next
    case False
    then have guard: "(ClientWriteRequest_GetKey req = []) = False" "(role n \<noteq> RoleLeader) = False"
      by auto
    obtain x n1 where s1: "on_store LastIndexAndTerm n = (x, n1)"
      by force
    note f1 = commit_frame [OF s1]
    have x: "x = Inr (l, t) \<or> (\<exists>e. x = Inl e)"
      using on_store_db [OF s1 implements_LastIndexAndTerm] lp by auto
    define e where "e = \<lparr>entryIndex = l + 1, entryTerm = currentTerm n1,
      entryCommand = encodeSetCommand (ClientWriteRequest_GetKey req) (ClientWriteRequest_GetValue req)\<rparr>"
    obtain y n2 where s2: "on_store (AppendEntries [e]) n1 = (y, n2)"
      by force
    have f2: "progress n2 = progress n" "role n2 = RoleLeader" "snapshotThreshold n2 = 0"
      using progress_store(8) [OF s2] f1 n(4) False s2 by (auto elim: on_storeE)
    have db2: "db (store n2) = append_entries [e] (db (store n)) \<or> (\<exists>z. y = Inl z) \<and> db (store n2) = db (store n)"
      using on_store_db [OF s2 implements_AppendEntries] f1 by auto
    have a2: "applies n2" "whole (db (store n2))"
      using db2 new [of e] up applies_agree [OF n(1) f2(1)] n(2) by (auto simp: e_def)
    define n3 where "n3 = n2\<lparr>matchIndex := (matchIndex n2)(nid n2 := l + 1)\<rparr>"
    have n3: "applies n3" "whole (db (store n3))" "snapshotThreshold n3 = 0" "commitIndex n3 = commitIndex n" "role n3 = RoleLeader"
      using a2 f2 progress_commitIndex [OF f2(1)] by (simp_all add: n3_def applies_def)
    have "n' = n1 \<or> n' = n2 \<or> n' = refreshMetricsLocked (if majorityLocked n3 = 1 then advanceCommitLocked n3 else n3)"
    proof -
      note run [unfolded Write_begin_def guard if_False Let_def s1 prod.case]
      with x s2 show ?thesis
        by (auto simp: e_def n3_def split: sum.splits prod.splits)
    qed
    moreover have "applies n1 \<and> commitIndex n1 = commitIndex n" "commitIndex n2 = commitIndex n"
      using applies_cong [of n1 n] f1 n(1) progress_commitIndex [of n1 n] progress_commitIndex [OF f2(1)] by auto
    moreover have "applies (refreshMetricsLocked n3) \<and> commitIndex (refreshMetricsLocked n3) = commitIndex n"
      using n3 by (simp add: applies_def refresh_store)
    moreover note advance_refresh_applies [OF n3(1-3)]
    ultimately show ?thesis
      using a2(1) n3(4,5) n(5) by (auto simp: commit_moves_def split: if_splits)
  qed
qed

text \<open>The follower's handler.\<close>

lemma append_commit_applies:
  assumes run: "append_commit (Some req) m n = (r, n')" and n: "applies n" "whole (db (store n))" "snapshotThreshold n = 0"
    and l: "spans (node_log n) 0 l" "commitIndex n \<le> l"
  shows "applies n' \<and> (commitIndex n' = commitIndex n
     \<or> (\<exists>resp. r = Inr resp \<and> aerSuccess resp) \<and> commitIndex n' \<le> aeLeaderCommit req)"
proof -
  obtain t where lp: "last_pos (db (store n)) = Inr (l, t)"
    using whole_last [OF n(2) l(1)] by blast
  obtain x n1 where s: "on_store LastIndexAndTerm n = (x, n1)"
    by force
  note f = commit_frame [OF s]
  have x: "x = Inr (l, t) \<or> (\<exists>e. x = Inl e)"
    using on_store_db [OF s implements_LastIndexAndTerm] lp by auto
  have a1: "applies n1" and ci: "commitIndex n1 = commitIndex n"
    using applies_cong [of n1 n] f n(1) progress_commitIndex [of n1 n] by auto
  let ?c = "minUint64 (aeLeaderCommit req) l"
  let ?n2 = "n1\<lparr>commitIndex := ?c\<rparr>"
  have app: "applies (applyCommittedLocked ?n2)" if "commitIndex n < aeLeaderCommit req"
  proof (rule applyCommitted_applies)
    have "commitIndex n \<le> ?c"
      using that l(2) by (simp add: minUint64_def less_imp_le)
    with a1 ci show "applies ?n2"
      by (auto simp: applies_def)
  qed (use f n in simp_all)
  have le: "?c \<le> aeLeaderCommit req"
    by (simp add: minUint64_def not_less)
  have "commitIndex (refreshMetricsLocked k) = commitIndex k" "commitIndex (inc_rpc a b k) = commitIndex k"
    "applies (refreshMetricsLocked k) = applies k" "applies (inc_rpc a b k) = applies k" for k a b
    by (simp_all add: applies_def refresh_store inc_rpc_def)
  note ends = this
  from x show ?thesis
  proof
    assume "x = Inr (l, t)"
    with run s have "n' = inc_rpc ''AppendEntries'' ''success'' (refreshMetricsLocked
        (if aeLeaderCommit req > commitIndex n1 then applyCommittedLocked ?n2 else n1))" "\<exists>resp. r = Inr resp \<and> aerSuccess resp"
      by (auto simp: append_commit_def AppendEntriesRequest_GetLeaderCommit_def Let_def)
    with a1 ci app le show ?thesis
      by (simp add: ends)
  next
    assume "\<exists>e. x = Inl e"
    with run s a1 ci show ?thesis
      by (auto simp: append_commit_def append_error_def ends)
  qed
qed

lemma whole_same_log_iff: "same_log T T' \<Longrightarrow> wf_tables T \<Longrightarrow> whole T' \<Longrightarrow> whole T"
  by (rule whole_same_log [of T' T]) (simp_all add: same_log_def)

lemma progress_rpc_start: "on_store SnapshotIndexTerm (follow t l n) = (x, m) \<Longrightarrow> progress m = progress n"
  using progress_store(2) by fastforce

lemma AppendEntries_rpc_parts:
  assumes run: "AppendEntries_rpc (Some req) n = (r, n')" and w: "whole (db (store n))" and off: "snapshotThreshold n = 0"
    and req: "request_of H req"
  shows "progress n' = progress n \<or>
    (\<exists>m sent. append_commit (Some req) sent m = (r, n') \<and> progress m = progress n \<and> whole (db (store m)) \<and> snapshotThreshold m = 0)"
proof (cases "aeTerm req < currentTerm n")
  case True
  then show ?thesis
    using run progress_append_end(2) by (auto simp: AppendEntries_rpc_def AppendEntriesRequest_GetTerm_def)
next
  case False
  let ?p = "aePrevLogIndex req" and ?es = "request_entries (Some req)"
  have g: "(AppendEntriesRequest_GetTerm (Some req) < currentTerm n) = False" "AppendEntriesRequest_GetPrevLogIndex (Some req) = ?p"
    using False by (simp_all add: AppendEntriesRequest_GetTerm_def AppendEntriesRequest_GetPrevLogIndex_def)
  define n2 where "n2 = follow (AppendEntriesRequest_GetTerm (Some req)) (AppendEntriesRequest_GetLeaderId (Some req)) n"
  have n2: "same_files_log n n2" "snapshotThreshold n2 = 0" "progress n2 = progress n"
    using follow_log [OF whole_wf [OF w]] off by (simp_all add: n2_def) (simp add: follow_def)
  obtain x n3 where s3: "on_store SnapshotIndexTerm n2 = (x, n3)"
    by force
  have n3: "same_files_log n n3" "snapshotThreshold n3 = 0" "progress n3 = progress n" and x: "x = Inr (0, 0) \<or> (\<exists>e. x = Inl e)"
    using n2 on_store_db [OF s3 implements_SnapshotIndexTerm] threshold_on_store [OF s3] progress_store(2) [OF s3] w
    by (auto simp: same_log_def whole_def)
  obtain y n4 where s4: "on_store (Term ?p) n3 = (y, n4)"
    by force
  have n4: "same_files_log n n4" "snapshotThreshold n4 = 0" "progress n4 = progress n" and y: "y = term_pos ?p (db (store n4)) \<or> (\<exists>e. y = Inl e)"
    using n3 on_store_db [OF s4 implements_Term] threshold_on_store [OF s4] progress_store(4) [OF s4] by auto
  have c: "collect_incoming 0 (AppendEntriesRequest_GetEntries (Some req)) ?p = (last_index ?p ?es, ?es)"
    using collect_incoming_consecutive [of ?p "AppendEntriesRequest_GetEntries (Some req)" 0] req
    by (auto simp: request_of_def last_index_def request_entries_def)
  obtain z n5 where a: "append_store ?es n4 = (z, n5)"
    by force
  have p5: "progress n5 = progress n" "snapshotThreshold n5 = 0"
    using progress_append_store [OF a] threshold_store_only [OF store_only_append_store [OF a]] n4 by auto
  note R = run [unfolded AppendEntries_rpc_follow g n2_def [symmetric] s3 if_False prod.case]
  show ?thesis
  proof (cases "x = Inr (0, 0) \<and> (\<exists>t. y = Inr (t, True)) \<and> z = Inr ()")
    case True
    then obtain t where "y = Inr (t, True)"
      by blast
    then have t: "term_pos ?p (db (store n4)) = Inr (t, True)"
      using y by auto
    have w4: "whole (db (store n4))"
      by (rule whole_same_log [OF w n4(1)])
    then have "gf n5"
      using gf_append_store [OF a _ _ _ t, of 0 0] req by (simp add: whole_def request_of_def)
    then have "whole (db (store n5))"
      using snap_pos_append_store [OF a] w4 by (simp add: whole_def)
    moreover have "append_commit (Some req) (last_index ?p ?es) n5 = (r, n') \<or> append_reject ''log_mismatch'' n4 = (r, n')"
      using R True c a s4 by (auto split: if_splits)
    ultimately show ?thesis
      using p5 n4(3) progress_append_end(2) by metis
  next
    case no: False
    from R x no c a s4 have "(\<exists>e. append_error e n3 = (r, n')) \<or> (\<exists>e. append_error e n4 = (r, n'))
      \<or> (\<exists>q. append_reject q n4 = (r, n')) \<or> (\<exists>e. append_error e n5 = (r, n'))"
      by (auto split: sum.splits prod.splits if_splits)
    with n3(3) n4(3) p5(1) progress_append_end show ?thesis
      by metis
  qed
qed

lemma AppendEntries_rpc_applies:
  assumes run: "AppendEntries_rpc (Some req) n = (r, n')" and n: "applies n" "whole (db (store n))" "snapshotThreshold n = 0"
    and req: "request_of H req" and l: "spans (node_log n') 0 l" "commitIndex n \<le> l" and log: "agree (node_log n') (node_log n) (commitIndex n)"
  shows "applies n' \<and> (commitIndex n' = commitIndex n
     \<or> (\<exists>resp. r = Inr resp \<and> aerSuccess resp) \<and> commitIndex n' \<le> aeLeaderCommit req)"
proof -
  have log': "agree (node_log n') (node_log n) (lastApplied n)"
    using n(1) by (intro agree_mono [OF log]) (simp add: applies_def)
  from AppendEntries_rpc_parts [OF run n(2,3) req] show ?thesis
  proof (elim disjE exE conjE)
    assume "progress n' = progress n"
    then show ?thesis
      using applies_agree [OF n(1) _ log'] progress_commitIndex [of n' n] by simp
  next
    fix m sent
    assume m: "append_commit (Some req) sent m = (r, n')" "progress m = progress n" "whole (db (store m))" "snapshotThreshold m = 0"
    have "node_log n' = node_log m"
      by (rule same_log_reads(1) [OF append_commit_same_log [OF m(1) whole_wf [OF m(3)] m(4)]])
    then show ?thesis
      using append_commit_applies [OF m(1) applies_agree [OF n(1) m(2)] m(3,4)] log' l progress_commitIndex [OF m(2)] by simp
  qed
qed

section \<open>Every step keeps the invariant\<close>

lemma server_applied: "commit_ok M G S \<Longrightarrow> servers (core S) s = D \<Longrightarrow> server_applied M G (elected (core S)) D"
  unfolding commit_ok_def by metis

lemma node_applied: "commit_ok M G S \<Longrightarrow> servers (core S) s = Up n \<Longrightarrow> node_applied M G (elected (core S)) n"
  using server_applied [of M G S s "Up n"] by simp

lemma applied_within:
  assumes con: "consistent M G S" and up: "servers (core S) s = Up n" and ap: "node_applied M G (elected (core S)) n"
  shows "spans (node_log n) 0 l \<Longrightarrow> commitIndex n \<le> l" and "commitIndex n < 2 ^ 63"
proof -
  have c: "commits M G (elected (core S)) (currentTerm n) (node_log n) (commitIndex n)"
    using ap by (simp add: node_applied_def)
  note w = commits_within [OF c agreementD(1) [OF consistentD(1) [OF con]]]
  show "spans (node_log n) 0 l \<Longrightarrow> commitIndex n \<le> l"
    by (rule w)
  obtain k where "spans (node_log n) 0 k" "k < 2 ^ 63"
    using whole_spans [of "db (store n)"] consistent_node [OF con up] by (auto simp: node_consistent_def)
  with w show "commitIndex n < 2 ^ 63"
    by (blast intro: le_less_trans)
qed

text \<open>A leader that commits what it may.\<close>

lemma leader_applied:
  assumes con: "consistent M G S" and cfg: "config_ok M opts" and inv: "inv M opts (core S)" and up: "servers (core S) s = Up n"
    and ap: "applies n" and old: "commits M G (elected (core S)) (currentTerm n) (node_log n) c" and c: "commit_moves n c"
  shows "node_applied M G (elected (core S)) n"
proof (cases "commitIndex n = c")
  case True
  with ap old show ?thesis
    by (simp add: node_applied_def)
next
  case False
  with c have n: "role n = RoleLeader" "committable (commitIndex n) n" "commitIndex n \<noteq> 0"
    by (auto simp: commit_moves_def)
  have "llog G (currentTerm n) = node_log n"
    using consistent_node [OF con up] n(1) by (simp add: node_consistent_def leader_node_def)
  with committable_committed [OF con cfg inv up n] have "commits M G (elected (core S)) (currentTerm n) (node_log n) (commitIndex n)"
    unfolding commits_def by (metis agree_refl order_refl)
  with ap show ?thesis
    by (simp add: node_applied_def)
qed

lemma commit_leader:
  assumes ok: "commit_ok M G S" and con: "consistent M G S" and con': "consistent M G' S'"
    and ev: "evolves G (elected (core S)) G' (elected (core S'))" and cfg: "config_ok M opts" and inv': "inv M opts (core S')"
    and up: "servers (core S) s = Up n" and S': "servers (core S') = (servers (core S))(s := Up n')" "requests S' = requests S"
    and n': "applies n'" "commit_moves n' (commitIndex n)" "agree (node_log n') (node_log n) (commitIndex n)" "currentTerm n \<le> currentTerm n'"
  shows "commit_ok M G' S'"
proof (rule commit_update [OF ok con ev S'(1)])
  have "server_applied M G' (elected (core S')) (Up n)"
    by (rule server_applied_evolves [OF server_applied [OF ok up] ev agreementD(1) [OF consistentD(1) [OF con]]])
  then have "commits M G' (elected (core S')) (currentTerm n) (node_log n) (commitIndex n)"
    by (simp add: node_applied_def)
  from commits_mono [OF this order_refl n'(4,3)] have "node_applied M G' (elected (core S')) n'"
    by (intro leader_applied [OF con' cfg inv', of s, OF _ n'(1) _ n'(2)]) (simp_all add: S'(1))
  then show "server_applied M G' (elected (core S')) (Up n')"
    by simp
qed (use S'(2) in auto)

text \<open>
  A receipt that moves the commit index beyond the entries of the request: only the log of the
  leader says whether what lies there is committed.
\<close>

definition covered :: "system \<Rightarrow> system \<Rightarrow> bool" where
  "covered S S' \<longleftrightarrow> (\<forall>l p sent req n n'. (l, p, sent, req) \<in> requests S \<longrightarrow> servers (core S) p = Up n \<longrightarrow> servers (core S') p = Up n' \<longrightarrow>
     n' = snd (AppendEntries_rpc (Some req) n) \<longrightarrow> commitIndex n' \<le> max (commitIndex n) sent)"

lemma receive_applied:
  assumes ok: "commit_ok M G S" and con: "consistent M G S" and req: "(l, p, sent, req) \<in> requests S"
    and up: "servers (core S) p = Up n" and run: "AppendEntries_rpc (Some req) n = (r, n')" and n': "node_consistent G' L' p n'"
    and cov: "commitIndex n' \<le> max (commitIndex n) sent"
  shows "node_applied M G (elected (core S)) n'"
proof -
  let ?L = "elected (core S)" and ?t = "aeTerm req"
  note n = consistent_node [OF con up] and ap = node_applied [OF ok up] and lead = agreementD(1) [OF consistentD(1) [OF con]]
  have w: "whole (db (store n))" "snapshotThreshold n = 0" and w': "whole (db (store n'))"
    using n n' by (auto simp: node_consistent_def)
  have c: "applies n" "commits M G ?L (currentTerm n) (node_log n) (commitIndex n)"
    using ap by (auto simp: node_applied_def)
  have R: "(?t, l) \<in> ?L" "request_of (llog G ?t) req" "sent = last_index (aePrevLogIndex req) (request_entries (Some req))"
    using consistentD(4) [OF con] req by (auto simp: traffic_ok_def request_ok_def)
  then have tE: "?t \<in> fst ` ?L"
    by force
  show ?thesis
  proof (cases "?t < currentTerm n")
    case True
    then have "append_reject ''stale_term'' n = (r, n')"
      using run by (simp add: AppendEntries_rpc_def AppendEntriesRequest_GetTerm_def)
    moreover have "node_log n' = node_log n" "currentTerm n' = currentTerm n"
      using AppendEntries_rpc_stale [OF run] True view_currentTerm [of n' n] by (simp_all add: AppendEntriesRequest_GetTerm_def)
    ultimately show ?thesis
      using quiet_applied [OF ap progress_append_end(2)] by simp
  next
    case False
    obtain h where h: "spans (llog G ?t) 0 h" and m: "matching (node_log n) (llog G ?t)"
      using consistent_matching(1) [OF con tE, of p] consistent_matching(2) [OF con tE] up by auto
    note T = AppendEntries_rpc_takes [OF run w R(2) m h False, folded R(3)]
    have "view n' = view (follow ?t (AppendEntriesRequest_GetLeaderId (Some req)) n)"
      using AppendEntries_rpc_view [OF run] False by (simp add: AppendEntriesRequest_GetTerm_def)
    then have t': "currentTerm n' = ?t"
      using follow_fields(1) [OF leI [OF False]] view_currentTerm by metis
    obtain k where k: "spans (node_log n) 0 k"
      using whole_spans [OF w(1)] by blast
    have log: "agree (node_log n') (node_log n) (commitIndex n)"
      using T(1) commits_takes [OF con c(2) tE leI [OF False] _ spans_0 [OF k]] by auto
    have c': "commits M G ?L ?t (node_log n') (commitIndex n)"
      by (rule commits_mono [OF c(2) order_refl leI [OF False] log])
    obtain k' where k': "spans (node_log n') 0 k'"
      using whole_spans [OF w'] by blast
    note A = AppendEntries_rpc_applies [OF run c(1) w R(2) k' commits_within [OF c' lead k'] log]
    have "commits M G ?L ?t (node_log n') (commitIndex n')"
    proof (cases "commitIndex n' \<le> commitIndex n")
      case True
      then show ?thesis
        by (rule commits_mono [OF c' _ order_refl agree_refl])
    next
      case False
      then have "commitIndex n' \<le> sent" "commitIndex n' \<noteq> commitIndex n"
        using cov by (auto simp: max_def split: if_splits)
      with A obtain resp where resp: "r = Inr resp" "aerSuccess resp" "commitIndex n' \<le> aeLeaderCommit req"
        by blast
      have "agree (node_log n') (llog G ?t) (commitIndex n')"
        using T(3) [OF resp(1,2)] \<open>commitIndex n' \<le> sent\<close> by (blast intro: agree_mono)
      moreover have "commits M G ?L ?t (llog G ?t) (aeLeaderCommit req)"
        using ok req by (auto simp: commit_ok_def request_committed_def)
      ultimately show ?thesis
        using commits_mono [OF _ resp(3) order_refl] by blast
    qed
    with A t' show ?thesis
      by (simp add: node_applied_def)
  qed
qed

text \<open>Crashes and restarts.\<close>

lemma crash_applied:
  assumes "node_applied M G L n" and "node_consistent G L s n"
  shows "files_applied M G L (db (store n))"
proof -
  have n: "opened (db (store n)) = db (store n)" "term_of (db (store n)) = currentTerm n"
    using assms(2) by (auto simp: node_consistent_def whole_opened)
  have a: "applies n" "commits M G L (currentTerm n) (node_log n) (commitIndex n)"
    using assms(1) by (auto simp: node_applied_def)
  then have "commits M G L (currentTerm n) (node_log n) (lastApplied n)"
    using commits_mono [OF a(2) _ order_refl agree_refl] by (simp add: applies_def)
  with a(1) n show ?thesis
    by (simp add: files_applied_def applies_def)
qed

lemma opened_kv [simp]: "kv (opened T) = kv T"
  by (simp add: opened_def)

lemma restart_applied:
  assumes T: "files_applied M G L T" "stored T" and run: "New opts order T script clk rnd = (Inr n, T')" and order: "set order = set defaults"
  shows "node_applied M G L n"
proof -
  note N = New_stored [OF run order T(2)] and R = New_running [OF run order]
  have "term_of T = currentTerm n"
    using R by (simp add: term_of_def)
  with T(1) N show ?thesis
    by (auto simp: files_applied_def node_applied_def applies_def)
qed

lemma failed_start_applied:
  assumes T: "files_applied M G L T" "stored T" and run: "New opts order T script clk rnd = (Inl e, T')" and order: "set order = set defaults"
  shows "files_applied M G L T'"
proof -
  have o: "opened T' = opened T"
    using New_failed_stored [OF run order T(2)] by simp
  then have "kv T' = kv T" "log_entry T' = log_entry T"
    by (metis opened_kv, metis opened_log(2))
  moreover have "term_of T' = term_of T"
    using New_failed [OF run order] by (simp add: term_of_def)
  ultimately show ?thesis
    using T(1) o by (simp add: files_applied_def)
qed

text \<open>Elections change neither a log nor what is applied.\<close>

lemma reply_term: "startElection_reply resp e n = (e', n') \<Longrightarrow> currentTerm n \<le> currentTerm n'"
  using startElection_reply_cases [of resp e n e' n'] calm_term [of n n'] leads_term [of n n'] by auto

lemma single_frame: "wf_tables (db (store n)) \<Longrightarrow> same_files_log n (startElection_single e n)"
  by (simp add: startElection_single_def same_log_refl)

lemma single_frame_term: "currentTerm n \<le> currentTerm (startElection_single e n)"
  using startElection_single_cases [of n e] calm_term [of n "startElection_single e n"] leads_term [of n "startElection_single e n"] by auto

lemma commit_elections:
  assumes step: "election_step M opts (core S) C" and ok: "commit_ok M G S" and con: "consistent M G S"
    and ev: "evolves G (elected (core S)) G' (elected C)"
  shows "commit_ok M G' (S\<lparr>core := C\<rparr>)"
proof -
  let ?S = "S\<lparr>core := C\<rparr>"
  have ev': "evolves G (elected (core S)) G' (elected (core ?S))"
    using ev by simp
  note lead = agreementD(1) [OF consistentD(1) [OF con]]
  have wf: "wf_tables (db (store n))" if "servers (core S) s = Up n" for s n
    using consistent_node [OF con that] by (simp add: node_consistent_def whole_wf)
  have quiet: "commit_ok M G' ?S" if "servers (core S) s = Up n" "servers C = (servers (core S))(s := Up n')"
    "progress n' = progress n" "same_files_log n n'" "currentTerm n \<le> currentTerm n'" for s n n'
    by (rule commit_quiet [OF ok con ev' that(1)]) (use that same_log_reads(1) [OF that(4)] in simp_all)
  have server: "commit_ok M G' ?S" if "servers C = (servers (core S))(s := D)" "server_applied M G (elected (core S)) D" for s D
    by (rule commit_update [OF ok con ev', where s = s and D = D]) (use that server_applied_evolves [OF that(2) ev' lead] in simp_all)
  from step show ?thesis
  proof cases
    case (timeout s n n')
    show ?thesis
      by (rule quiet [OF timeout(2), of n']) (use timeout(1) progress_begin [OF timeout(4)] begin_same_log [OF timeout(4) wf [OF timeout(2)]] begin_term [OF timeout(4,3)] in simp_all)
  next
    case (campaign s n e n')
    show ?thesis
      by (rule quiet [OF campaign(2), of n']) (use campaign(1) progress_begin [OF campaign(4)] begin_same_log [OF campaign(4) wf [OF campaign(2)]] begin_term [OF campaign(4,3)] in simp_all)
  next
    case (deliver i e p n r n')
    show ?thesis
      by (rule quiet [OF deliver(5), of n']) (use deliver(1) progress_RequestVote [OF deliver(6)] RequestVote_same_log [OF deliver(6) wf [OF deliver(5)]] RequestVote_term [OF deliver(6)] in simp_all)
  next
    case (answer i E p resp s n e' n')
    show ?thesis
      by (rule quiet [OF answer(8), of n']) (use answer(1) progress_vote_reply [OF answer(9)] vote_reply_same_log [OF answer(9) wf [OF answer(8)]] reply_term [OF answer(9)] in simp_all)
  next
    case (single_node i E s n n')
    show ?thesis
      by (rule quiet [OF single_node(6), of n']) (use single_node(1,7) single_frame [OF wf [OF single_node(6)]] single_frame_term in simp_all)
  next
    case (crash s n)
    show ?thesis
      by (rule server [of s "Down (db (store n))"]) (use crash crash_applied [OF node_applied [OF ok crash(2)] consistent_node [OF con crash(2)]] in simp_all)
  next
    case (restart s T order script clk rnd n T')
    have "files_applied M G (elected (core S)) T" "stored T"
      using server_applied [OF ok restart(2)] server_stored [OF con, of s] restart(2) by simp_all
    with restart restart_applied show ?thesis
      by (intro server [of s "Up n"]) simp_all
  next
    case (failed_start s T order script clk rnd err T')
    have "files_applied M G (elected (core S)) T" "stored T"
      using server_applied [OF ok failed_start(2)] server_stored [OF con, of s] failed_start(2) by simp_all
    with failed_start failed_start_applied show ?thesis
      by (intro server [of s "Down T'"]) simp_all
  qed
qed

lemma commit_step:
  assumes step: "system_step M opts S S'" and ok: "commit_ok M G S" and con: "consistent M G S" and con': "consistent M G' S'"
    and ev: "evolves G (elected (core S)) G' (elected (core S'))" and cfg: "config_ok M opts"
    and inv: "inv M opts (core S)" "inv M opts (core S')" and st: "steady (core S)" and cov: "covered S S'"
  shows "commit_ok M G' S'"
proof -
  note lead = agreementD(1) [OF consistentD(1) [OF con]]
  have nc: "whole (db (store n))" "snapshotThreshold n = 0" if "servers (core S) s = Up n" for s n
    using consistent_node [OF con that] by (simp_all add: node_consistent_def)
  have ap: "applies n" if "servers (core S) s = Up n" for s n
    using node_applied [OF ok that] by (simp add: node_applied_def)
  have within: "commitIndex n < 2 ^ 63" "\<And>l. spans (node_log n) 0 l \<Longrightarrow> commitIndex n \<le> l" if "servers (core S) s = Up n" for s n
    using applied_within [OF con that node_applied [OF ok that]] by auto
  from step show ?thesis
  proof cases
    case (idle s n n')
    have "db (store n') = db (store n)"
      using idle_frame [OF idle(3)] by simp
    with idle(1) progress_idle [OF idle(3)] calm_term [OF local_step_calm [OF idle_local [OF idle(3)]]] show ?thesis
      by (intro commit_quiet [OF ok con ev idle(2), of n']) simp_all
  next
    case (send s n p a n')
    have n': "db (store n') = db (store n)" "currentTerm n' = currentTerm n"
      using prepare_frame [OF send(4)] view_currentTerm [OF view_prepare [OF send(4)]] by auto
    have applied: "node_applied M G' (elected (core S')) n"
      using server_applied_evolves [OF server_applied [OF ok send(2)] ev lead] by simp
    have "request_committed M G' (elected (core S')) req" if "a = SendAppend sent req" for sent req
    proof -
      have r: "role n = RoleLeader" "aeTerm req = currentTerm n" "aeLeaderCommit req = commitIndex n"
        using prepare_sends [of p n sent req n'] send(4) that nc(1) [OF send(2)] by (auto simp: whole_def)
      have "role n' = role n"
        by (rule view_role [OF view_prepare [OF send(4)]])
      moreover have "node_consistent G' (elected (core S')) s n'"
        by (rule consistent_node [OF con']) (simp add: send(1))
      ultimately have "llog G' (currentTerm n) = node_log n"
        using r(1) n' by (simp add: node_consistent_def leader_node_def)
      with applied r show ?thesis
        by (simp add: request_committed_def node_applied_def)
    qed
    moreover have "node_applied M G' (elected (core S')) n'"
      using n' by (intro quiet_applied [OF applied progress_prepare [OF send(4)]]) simp_all
    ultimately show ?thesis
      by (intro commit_update [OF ok con ev, of s "Up n'"]) (auto simp: send(1) sends_def split: Attempt.splits)
  next
    case (receive l p sent req n r n')
    have "servers (core S') p = Up n'"
      by (simp add: receive(1))
    then have "commitIndex n' \<le> max (commitIndex n) sent"
      using cov receive(2-4) unfolding covered_def by (metis snd_conv)
    then have "node_applied M G (elected (core S)) n'"
      by (rule receive_applied [OF ok con receive(2-4) consistent_node [OF con' \<open>servers (core S') p = Up n'\<close>]])
    then have "server_applied M G' (elected (core S')) (Up n')"
      by (intro server_applied_evolves [OF _ ev lead]) simp
    then show ?thesis
      by (intro commit_update [OF ok con ev, of p "Up n'"]) (simp_all add: receive(1))
  next
    case (settle l p t sent resp n b n')
    have "same_files_log n n'"
      by (rule append_reply_same_log [OF settle(4) whole_wf [OF nc(1) [OF settle(3)]] nc(2) [OF settle(3)]])
    then have "agree (node_log n') (node_log n) (commitIndex n)"
      using same_log_reads(1) by (metis agree_refl)
    moreover have "applies n' \<and> commit_moves n' (commitIndex n)"
      by (rule append_reply_applies [OF settle(4) ap [OF settle(3)] nc [OF settle(3)] within(1) [OF settle(3)]])
    ultimately show ?thesis
      using settle(1) calm_term [OF calm_append_reply [OF settle(4)]]
      by (intro commit_leader [OF ok con con' ev cfg inv(2) settle(3), of n']) simp_all
  next
    case (client_write s n req w n')
    note n = nc [OF client_write(2)] within [OF client_write(2)] and room = steady_room [OF st client_write(2)]
    have "applies n' \<and> commit_moves n' (commitIndex n)"
      by (rule Write_begin_applies [OF client_write(3) ap [OF client_write(2)] n(1) room n(2,3,4)])
    moreover have "agree (node_log n') (node_log n) (commitIndex n)"
      using Write_begin_log [OF client_write(3) n(1) room n(2)]
    proof (elim disjE exE conjE)
      assume "same_files_log n n'"
      then show ?thesis
        using same_log_reads(1) by (metis agree_refl)
    next
      fix k c
      assume "spans (node_log n) 0 k" "ok_index (k + 1)" "node_log n' = (node_log n)(k + 1 \<mapsto> (currentTerm n, c))"
      then show ?thesis
        using n(4) [of k] ok_index_Suc [of k] by (auto simp: agree_def)
    qed
    ultimately show ?thesis
      using client_write(1) view_currentTerm [OF view_Write_begin [OF client_write(3)]]
      by (intro commit_leader [OF ok con con' ev cfg inv(2) client_write(2), of n']) simp_all
  next
    case (elections C)
    then show ?thesis
      using commit_elections [OF elections(2) ok con] ev by simp
  qed
qed

section \<open>State machine safety\<close>

inductive covered_reachable :: "bytes set \<Rightarrow> (bytes \<Rightarrow> Options) \<Rightarrow> system \<Rightarrow> bool" for M opts where
  start: "covered_reachable M opts \<lparr>core = initial, requests = {}, answers = {}\<rparr>"
| next_step: "covered_reachable M opts S \<Longrightarrow> system_step M opts S S' \<Longrightarrow> steady (core S') \<Longrightarrow> covered S S' \<Longrightarrow> covered_reachable M opts S'"

lemma covered_system: "covered_reachable M opts S \<Longrightarrow> system_reachable M opts S"
  by (induction rule: covered_reachable.induct) (auto intro: system_reachable.intros)

lemma commit_initial: "commit_ok M G \<lparr>core = initial, requests = {}, answers = {}\<rparr>"
proof -
  have "meta_uint (opened empty_tables) ''last_applied'' = Inr 0"
    using meta_fresh [of "''last_applied''"] by (simp add: fresh_store_def opened_def numeric_keys_def)
  then have "files_applied M G L empty_tables" for L
    by (simp add: files_applied_def) (simp add: empty_tables_def)
  then show ?thesis
    by (simp add: commit_ok_def initial_def)
qed

lemma reachable_commit_ok:
  assumes "covered_reachable M opts S" and "config_ok M opts" and "no_snapshots opts"
  shows "\<exists>G. consistent M G S \<and> commit_ok M G S"
  using assms(1)
proof induction
  case start
  show ?case
    using consistent_initial commit_initial by blast
next
  case (next_step S S')
  then obtain G where G: "consistent M G S" "commit_ok M G S"
    by blast
  note sys = covered_system [OF next_step(1)]
  note sys' = system_reachable.next_step [OF sys next_step(2,3)]
  note inv = reachable_inv [OF system_reachable_core assms(2)]
  obtain G' where "consistent M G' S'" "evolves G (elected (core S)) G' (elected (core S'))"
    using consistent_step [OF next_step(2) G(1) assms(2,3) inv [OF sys] system_reachable_steady [OF sys] next_step(3)] by blast
  with commit_step [OF next_step(2) G(2,1) _ _ assms(2) inv [OF sys] inv [OF sys'] system_reachable_steady [OF sys] next_step(4)] show ?case
    by blast
qed


text \<open>In the run of two servers every request carries what it lets the follower commit.\<close>

lemma pair_covered: "pair_step S S' \<Longrightarrow> covered S S'"
  unfolding pair_step_def covered_def by (fastforce simp: max_def)

lemma pair_covered_reachable: "pair_step\<^sup>*\<^sup>* empty_system S \<Longrightarrow> covered_reachable {''n1'', ''n2''} pair_options S"
proof (induction rule: rtranclp_induct)
  case base
  show ?case
    by (rule covered_reachable.start)
next
  case (step S S')
  then show ?case
    using covered_reachable.next_step pair_covered [OF step(2)] by (auto simp: pair_step_def)
qed


section \<open>Acknowledged writes\<close>

lemma commits_leader:
  assumes con: "consistent M G S" and c: "commits M G (elected (core S)) t X c" and u: "u \<in> fst ` elected (core S)" "t \<le> u" and "X 0 = None"
  shows "agree (llog G u) X c"
proof (cases "c = 0")
  case True
  have "llog G u 0 = None"
    by (rule sound_0 [OF leaders_sound [OF agreementD(1) [OF consistentD(1) [OF con]] u(1)]])
  with True assms(5) show ?thesis
    by (simp add: agree_0)
next
  case False
  with c obtain i w where w: "committed (majority_of M) G (elected (core S)) i w" "c \<le> i" "w \<le> t" "agree X (llog G w) c"
    by (auto simp: commits_def)
  have "agree (llog G u) (llog G w) c"
    using committed_leaders [OF con w(1) u(1)] w(2,3) u(2) by (blast intro: agree_mono order_trans)
  with w(4) show ?thesis
    by (blast intro: agree_trans agree_sym)
qed

text \<open>What the answer to a write rests on.\<close>

lemma acknowledged_log:
  assumes "config_ok M opts" and "no_snapshots opts" and "covered_reachable M opts S" and "servers (core S) s = Up n"
    and "index \<le> commitIndex n" and "system_run M opts S S'"
    and "servers (core S') s' = Up n'" and "role n' = RoleLeader" and "currentTerm n \<le> currentTerm n'"
  shows "agree (node_log n') (node_log n) index"
proof -
  obtain G where con: "consistent M G S" and ok: "commit_ok M G S"
    using reachable_commit_ok [OF assms(3,1,2)] by blast
  note sys = covered_system [OF assms(3)]
  obtain G' where con': "consistent M G' S'" and ev: "evolves G (elected (core S)) G' (elected (core S'))"
    using run_consistent [OF assms(6,1,2) sys con] by blast
  have zero: "node_log n 0 = None"
    using consistent_node [OF con assms(4)] whole_spans [of "db (store n)"] spans_0 by (auto simp: node_consistent_def)
  have c: "commits M G' (elected (core S')) (currentTerm n) (node_log n) (commitIndex n)"
    using node_applied [OF ok assms(4)] commits_evolves [OF _ ev agreementD(1) [OF consistentD(1) [OF con]]] by (auto simp: node_applied_def)
  have "inv M opts (core S')"
    by (rule reachable_inv [OF system_reachable_core [OF run_reachable [OF assms(6) sys]] assms(1)])
  then have L: "currentTerm n' \<in> fst ` elected (core S')"
    using assms(7,8) by (force simp: inv_def server_ok_def)
  have "llog G' (currentTerm n') = node_log n'"
    using consistent_node [OF con' assms(7)] assms(8) by (simp add: node_consistent_def leader_node_def)
  with commits_leader [OF con' c L assms(9) zero] show ?thesis
    using agree_mono [OF _ assms(5)] by simp
qed

lemma Write_begin_entry:
  assumes run: "Write_begin req n = (WriteWait i t, n')" and n: "whole (db (store n))" "room (db (store n))" "snapshotThreshold n = 0"
  shows "role n = RoleLeader \<and> t = currentTerm n
    \<and> node_log n' i = Some (t, encodeSetCommand (ClientWriteRequest_GetKey req) (ClientWriteRequest_GetValue req))"
proof -
  let ?c = "encodeSetCommand (ClientWriteRequest_GetKey req) (ClientWriteRequest_GetValue req)"
  obtain l where l: "spans (node_log n) 0 l" "l < 2 ^ 63"
    using whole_spans [OF n(1)] by blast
  then obtain u where lp: "last_pos (db (store n)) = Inr (l, u)"
    using whole_last [OF n(1)] by blast
  then have ok: "ok_index (l + 1)"
    using n(2) by (simp add: room_def)
  have guard: "(ClientWriteRequest_GetKey req = []) = False" "(role n \<noteq> RoleLeader) = False"
    using run by (auto simp: Write_begin_def split: if_splits)
  obtain x n1 where s1: "on_store LastIndexAndTerm n = (x, n1)"
    by force
  define e where "e = \<lparr>entryIndex = l + 1, entryTerm = currentTerm n1, entryCommand = ?c\<rparr>"
  obtain y n2 where s2: "on_store (AppendEntries [e]) n1 = (y, n2)"
    by force
  note R = run [unfolded Write_begin_def guard if_False Let_def s1 prod.case]
  have x: "x = Inr (l, u)"
    using R on_store_db [OF s1 implements_LastIndexAndTerm] lp by (auto split: sum.splits)
  have y: "y = Inr ()" and i: "i = l + 1" and t: "t = currentTerm n2"
    and n': "\<exists>f. n' = refreshMetricsLocked (if majorityLocked (n2\<lparr>matchIndex := f\<rparr>) = 1 then advanceCommitLocked (n2\<lparr>matchIndex := f\<rparr>) else n2\<lparr>matchIndex := f\<rparr>)"
    using R s2 view_currentTerm [OF view_advanceCommit] by (auto simp: x e_def split: sum.splits if_splits)
  have db1: "db (store n1) = db (store n)" "snapshotThreshold n2 = 0" "currentTerm n1 = currentTerm n" "currentTerm n2 = currentTerm n"
    using commit_frame [OF s1] n(3) s1 s2 by (auto elim!: on_storeE)
  have db2: "db (store n2) = append_entries [e] (db (store n))"
    using on_store_db [OF s2 implements_AppendEntries] db1(1) y by auto
  have "wf_tables (db (store n2))"
    unfolding db2 using whole_wf [of "append_entries [e] (db (store n))"] gap_free_append [OF _ lp ok, of e] n(1)
    by (auto simp: whole_def e_def)
  then have "same_files_log n2 (advanceCommitLocked (n2\<lparr>matchIndex := f\<rparr>))" for f
    using advanceCommit_same_log [of "n2\<lparr>matchIndex := f\<rparr>"] db1(2) by simp
  from same_log_reads(1) [OF this] n' have "node_log n' = node_log n2"
    by (auto simp: refresh_store)
  then have "node_log n' i = Some (currentTerm n, ?c)"
    using db1(3) by (simp add: db2 i log_entry_append e_def)
  with guard t db1(4) show ?thesis
    by simp
qed

text \<open>An entry a leader has appended stays where it is while the server leads that term.\<close>

lemma led_entry:
  assumes cfg: "config_ok M opts" "no_snapshots opts" and S: "system_reachable M opts S" "system_run M opts S S'"
    and n: "servers (core S) s = Up n" "role n = RoleLeader" "node_log n i = Some e"
    and n': "servers (core S') s = Up n'" "role n' = RoleLeader" "currentTerm n' = currentTerm n"
  shows "node_log n' i = Some e"
proof -
  obtain G where con: "consistent M G S"
    using reachable_consistent [OF S(1) cfg] by blast
  obtain G' where con': "consistent M G' S'" and ev: "evolves G (elected (core S)) G' (elected (core S'))"
    using run_consistent [OF S(2) cfg S(1) con] by blast
  have "inv M opts (core S)"
    by (rule reachable_inv [OF system_reachable_core [OF S(1)] cfg(1)])
  then have L: "currentTerm n \<in> fst ` elected (core S)"
    using n(1,2) by (force simp: inv_def server_ok_def)
  have "llog G (currentTerm n) = node_log n" "llog G' (currentTerm n) = node_log n'"
    using consistent_node [OF con n(1)] consistent_node [OF con' n'(1)] n(2) n'(2,3) by (auto simp: node_consistent_def leader_node_def)
  with evolves_agree [OF ev L, of i] n(3) show ?thesis
    by (auto simp: agree_def)
qed



section \<open>The follower's commit rule\<close>

text \<open>
  A follower whose second entry is not the leader's, and a request that carries the leader's first
  entry only but announces that the leader has committed two.
\<close>

definition old_kv :: bytes where
  "old_kv = encodeSetCommand ''k'' ''old''"

definition split_follower :: Node where
  "split_follower = (fresh_node ''n2'' three_peers)\<lparr>currentTerm := 2,
     store := fresh_store\<lparr>db := append_entries [\<lparr>entryIndex = 1, entryTerm = 1, entryCommand = set_kv\<rparr>,
       \<lparr>entryIndex = 2, entryTerm = 1, entryCommand = old_kv\<rparr>] (db fresh_store)\<rparr>\<rparr>"

definition split_leader_log :: log where
  "split_leader_log = [1 \<mapsto> (1, set_kv), 2 \<mapsto> (2, set_kv)]"

definition split_request :: AppendEntriesRequest where
  "split_request = \<lparr>aeTerm = 2, aeLeaderId = ''n1'', aePrevLogIndex = 0, aePrevLogTerm = 0,
     aeEntries = [Some \<lparr>leIndex = 1, leTerm = 1, leCommand = set_kv\<rparr>], aeLeaderCommit = 2\<rparr>"

lemma split_rows: "log_entries (db (store split_follower)) = [(1, 1, set_kv), (2, 1, old_kv)]"
  by (simp add: split_follower_def fresh_store_def append_entries_def upsert_log_row_def empty_tables_def)


end
