(* ===== verification/Stale_Read.thy ===== *)
theory Stale_Read
  imports Two_Servers
begin

text \<open>
  A read that misses an acknowledged write. A new leader has every committed entry in its log but
  may not know yet that it is committed; \<open>Read\<close> confirms the leadership and then reads the table of
  applied entries as it is.
\<close>

section \<open>The second election\<close>

lemma begin_again:
  assumes "server_at s p RoleFollower 1 v 0 one_row n" and "s \<noteq> []"
  shows "\<exists>e n'. startElection_begin n = (Some e, n') \<and> server_at s p RoleCandidate 2 s 0 one_row n' \<and> eTerm e = 2 \<and> eCandidate e = s
    \<and> eLastLogIndex e = 1 \<and> eLastLogTerm e = 1 \<and> eMajority e = 2 \<and> ePeers e = one_peer p \<and> eVotes e = 1 \<and> \<not> eWon e"
  using assms
  by (auto simp: server_at_def startElection_begin_def Let_def healthy_runs last_pos_def helper_fields majorityLocked_def one_peer_def)

lemma vote_again:
  assumes "server_at s p RoleLeader 1 s 1 one_row n" and "eTerm e = 2" "eCandidate e = p" "eLastLogIndex e = 1" "eLastLogTerm e = 1"
  shows "\<exists>n'. RequestVote (Some (election_request e)) n = (Inr \<lparr>rvrTerm = 2, rvrVoteGranted = True\<rparr>, n') \<and> server_at s p RoleFollower 2 p 1 one_row n'"
  using assms
  by (auto simp: server_at_def RequestVote_def election_request_def Let_def healthy_runs last_pos_def helper_fields stepDownLocked_def inc_rpc_def
      RequestVoteRequest_GetTerm_def RequestVoteRequest_GetLastLogTerm_def RequestVoteRequest_GetLastLogIndex_def RequestVoteRequest_GetCandidateId_def)

lemma win_again:
  assumes "server_at s p RoleCandidate 2 s 0 one_row n" and "p \<noteq> s" and "eTerm e = 2" "eMajority e = 2" "eVotes e = 1" "\<not> eWon e"
  shows "\<exists>e' n'. startElection_reply (Some \<lparr>rvrTerm = 2, rvrVoteGranted = True\<rparr>) e n = (e', n') \<and> server_at s p RoleLeader 2 s 0 one_row n'
    \<and> nextIndex n' p = 2 \<and> matchIndex n' p = 0"
  using assms
  by (auto simp: server_at_def startElection_reply_def becomeLeaderLocked_def becomeLeader_peer_def one_peer_def Let_def healthy_runs last_pos_def helper_fields
      RequestVoteResponse_GetTerm_def RequestVoteResponse_GetVoteGranted_def)

section \<open>The round that confirms the leader\<close>

definition heartbeat :: AppendEntriesRequest where
  "heartbeat = \<lparr>aeTerm = 2, aeLeaderId = ''n2'', aePrevLogIndex = 1, aePrevLogTerm = 1, aeEntries = [], aeLeaderCommit = 0\<rparr>"

lemma send_heartbeat:
  assumes "server_at ''n2'' p RoleLeader 2 v 0 one_row n" and "nextIndex n p = 2" "matchIndex n p = 0"
  shows "\<exists>n'. replicatePeer_prepare p n = (SendAppend 1 heartbeat, n') \<and> server_at ''n2'' p RoleLeader 2 v 0 one_row n'
    \<and> nextIndex n' p = 2 \<and> matchIndex n' p = 0"
  using assms
  by (auto simp: server_at_def replicatePeer_prepare_def heartbeat_def Let_def healthy_runs helper_fields term_pos_def log_term_def
      entries_from_def limit_rows_def row_entry_def appendBatchSize_def entry_message_def)

lemma receive_heartbeat:
  assumes "server_at s p RoleFollower 2 v 1 one_row n"
  shows "\<exists>n'. AppendEntries_rpc (Some heartbeat) n = (Inr \<lparr>aerTerm = 2, aerSuccess = True, aerMatchIndex = 1\<rparr>, n')
    \<and> server_at s p RoleFollower 2 v 1 one_row n'"
  using assms
  by (auto simp: server_at_def AppendEntries_rpc_def heartbeat_def append_store_def append_commit_def Let_def healthy_runs helper_fields
      term_pos_def log_term_def last_pos_def inc_rpc_def AppendEntriesRequest_GetTerm_def AppendEntriesRequest_GetLeaderId_def
      AppendEntriesRequest_GetPrevLogIndex_def AppendEntriesRequest_GetPrevLogTerm_def AppendEntriesRequest_GetEntries_def
      AppendEntriesRequest_GetLeaderCommit_def)

text \<open>The entry is of the earlier term: the new leader does not commit it by counting.\<close>

lemma settle_heartbeat:
  assumes "server_at s p RoleLeader 2 s 0 one_row n" and "nextIndex n p = 2" "matchIndex n p = 0"
  shows "\<exists>n'. replicatePeer_append_reply p 2 1 (Some \<lparr>aerTerm = 2, aerSuccess = True, aerMatchIndex = 1\<rparr>) n = (Some True, n')
    \<and> server_at s p RoleLeader 2 s 0 one_row n'"
proof -
  let ?m = "n\<lparr>matchIndex := (matchIndex n)(p := 1), nextIndex := (nextIndex n)(p := 2), metrics := SetReplicationLag p 0 (metrics n)\<rparr>"
  have m: "healthy (store ?m)" "lastApplied ?m = 0" "commitIndex ?m = 0" "snapshotThreshold ?m = 0" "log_entries (db (store ?m)) = one_row"
    "snap_pos (db (store ?m)) = Inr (0, 0)" "currentTerm ?m = 2"
    using assms(1) by (simp_all add: server_at_def)
  have "advance_loop (majorityLocked ?m) 1 1 ?m = (True, ?m)"
    using m by (simp add: healthy_runs term_pos_def log_term_def)
  moreover have "applyCommittedLocked ?m = refreshMetricsLocked ?m"
    using m by (simp add: applyCommittedLocked_def apply_loop_done compactIfNeededLocked_def)
  ultimately have "advanceCommitLocked ?m = refreshMetricsLocked ?m"
    using m by (simp add: advanceCommitLocked_def healthy_runs last_pos_def Let_def del: advance_loop.simps)
  moreover have "replicatePeer_append_reply p 2 1 (Some \<lparr>aerTerm = 2, aerSuccess = True, aerMatchIndex = 1\<rparr>) n
      = (Some True, refreshMetricsLocked (advanceCommitLocked ?m))"
    using assms by (simp add: server_at_def replicatePeer_append_reply_def Let_def healthy_runs last_pos_def
        AppendEntriesResponse_GetTerm_def AppendEntriesResponse_GetSuccess_def AppendEntriesResponse_GetMatchIndex_def)
  ultimately show ?thesis
    using assms(1) by (simp add: server_at_def helper_fields)
qed

section \<open>The run\<close>

lemma pair_reelects:
  assumes at: "pair_at S (Up n) (Up m)" and R: "\<forall>(l, p, sent, req) \<in> requests S. sent = 1"
    and n: "server_at ''n1'' ''n2'' RoleLeader 1 ''n1'' 1 one_row n" and m: "server_at ''n2'' ''n1'' RoleFollower 1 ''n1'' 0 one_row m"
  shows "\<exists>S' n' m'. pair_step\<^sup>*\<^sup>* S S' \<and> pair_at S' (Up n') (Up m') \<and> requests S' = requests S
     \<and> server_at ''n1'' ''n2'' RoleFollower 2 ''n2'' 1 one_row n'
     \<and> server_at ''n2'' ''n1'' RoleLeader 2 ''n2'' 0 one_row m' \<and> nextIndex m' ''n1'' = 2 \<and> matchIndex m' ''n1'' = 0"
proof -
  let ?yes = "\<lparr>rvrTerm = 2, rvrVoteGranted = True\<rparr>"
  obtain e m1 where m1: "startElection_begin m = (Some e, m1)" "server_at ''n2'' ''n1'' RoleCandidate 2 ''n2'' 0 one_row m1"
    and e: "eTerm e = 2" "eCandidate e = ''n2''" "eLastLogIndex e = 1" "eLastLogTerm e = 1" "eMajority e = 2" "ePeers e = one_peer ''n1''"
      "eVotes e = 1" "\<not> eWon e"
    using begin_again [OF m] by auto
  obtain n1 where n1: "RequestVote (Some (election_request e)) n = (Inr ?yes, n1)" "server_at ''n1'' ''n2'' RoleFollower 2 ''n2'' 1 one_row n1"
    using vote_again [OF n e(1,2,3,4)] by auto
  obtain e' m2 where m2: "startElection_reply (Some ?yes) e m1 = (e', m2)" "server_at ''n2'' ''n1'' RoleLeader 2 ''n2'' 0 one_row m2"
    "nextIndex m2 ''n1'' = 2" "matchIndex m2 ''n1'' = 0"
    using win_again [OF m1(2) _ e(1,5,7,8)] by auto
  have up: "servers (core S) ''n2'' = Up m" "servers (core S) ''n1'' = Up n" "currentTerm m \<noteq> - 1" "''n2'' \<noteq> ''n1''" "rvrVoteGranted ?yes"
    using at m by (simp_all add: pair_at_def server_at_def)
  obtain S1 S2 S3 where steps: "system_step {''n1'', ''n2''} pair_options S S1" "system_step {''n1'', ''n2''} pair_options S1 S2"
      "system_step {''n1'', ''n2''} pair_options S2 S3"
    and s: "servers (core S1) = (servers (core S))(''n2'' := Up m1)" "servers (core S2) = (servers (core S1))(''n1'' := Up n1)"
      "servers (core S3) = (servers (core S2))(''n2'' := Up m2)"
    and Rs: "requests S1 = requests S" "requests S2 = requests S" "requests S3 = requests S"
    by (rule two_server_election [OF up(1,2,4,3) e(2,6) m1(1) n1(1) up(5) m2(1)])
  have ats: "pair_at S1 (Up n) (Up m1)" "pair_at S2 (Up n1) (Up m1)" "pair_at S3 (Up n1) (Up m2)"
    using at by (auto simp: pair_at_def s fun_eq_iff)
  have "pair_step\<^sup>*\<^sup>* S S3"
    by (rule pair_three [OF steps ats server_fine [OF n] server_fine [OF m1(2)] server_fine [OF n1(2)] server_fine [OF m1(2)]
          server_fine [OF n1(2)] server_fine [OF m2(2)]]) (use R Rs in simp_all)
  with ats(3) n1(2) m2(2-4) Rs(3) show ?thesis
    by blast
qed

lemma pair_confirms:
  assumes at: "pair_at S (Up n) (Up m)" and R: "\<forall>(l, p, sent, req) \<in> requests S. sent = 1"
    and n: "server_at ''n1'' ''n2'' RoleFollower 2 ''n2'' 1 one_row n" and m: "server_at ''n2'' ''n1'' RoleLeader 2 ''n2'' 0 one_row m"
    and ix: "nextIndex m ''n1'' = 2" "matchIndex m ''n1'' = 0"
  shows "\<exists>S' n' m'. pair_step\<^sup>*\<^sup>* S S' \<and> pair_at S' (Up n') (Up m') \<and> server_at ''n2'' ''n1'' RoleLeader 2 ''n2'' 0 one_row m'"
proof -
  let ?step = "system_step {''n1'', ''n2''} pair_options" and ?ok = "\<lparr>aerTerm = 2, aerSuccess = True, aerMatchIndex = 1\<rparr>"
  obtain m1 where m1: "replicatePeer_prepare ''n1'' m = (SendAppend 1 heartbeat, m1)" "server_at ''n2'' ''n1'' RoleLeader 2 ''n2'' 0 one_row m1"
    "nextIndex m1 ''n1'' = 2" "matchIndex m1 ''n1'' = 0"
    using send_heartbeat [OF m ix] by auto
  obtain n1 where n1: "AppendEntries_rpc (Some heartbeat) n = (Inr ?ok, n1)" "server_at ''n1'' ''n2'' RoleFollower 2 ''n2'' 1 one_row n1"
    using receive_heartbeat [OF n] by auto
  obtain m2 where m2: "replicatePeer_append_reply ''n1'' 2 1 (Some ?ok) m1 = (Some True, m2)" "server_at ''n2'' ''n1'' RoleLeader 2 ''n2'' 0 one_row m2"
    using settle_heartbeat [OF m1(2-4)] by auto
  define S1 where "S1 = S\<lparr>core := put ''n2'' m1 (core S), requests := sends ''n2'' ''n1'' (SendAppend 1 heartbeat) \<union> requests S\<rparr>"
  define S2 where "S2 = S1\<lparr>core := put ''n1'' n1 (core S1), answers := insert (''n2'', ''n1'', 2, 1, ?ok) (answers S1)\<rparr>"
  define S3 where "S3 = S2\<lparr>core := put ''n2'' m2 (core S2)\<rparr>"
  have ats: "pair_at S1 (Up n) (Up m1)" "pair_at S2 (Up n1) (Up m1)" "pair_at S3 (Up n1) (Up m2)"
    using at by (auto simp: S1_def S2_def S3_def pair_at_def fun_eq_iff)
  have Rs: "requests S1 = insert (''n2'', ''n1'', 1, heartbeat) (requests S)" "requests S2 = requests S1"
    by (simp_all add: S1_def S2_def sends_def)
  have "?step S S1"
    unfolding S1_def by (rule system_step.send [OF _ _ m1(1)]) (use at m in \<open>simp_all add: pair_at_def server_at_def one_peer_def\<close>)
  then have s1: "pair_step S S1"
    by (rule pair_next [OF _ ats(1) server_fine [OF n] server_fine [OF m1(2)]]) (use R in simp_all)
  have "?step S1 S2"
    using system_step.receive [of "''n2''" "''n1''" 1 heartbeat S1 n _ n1 "{''n1'', ''n2''}" pair_options, OF _ _ n1(1)] ats(1) Rs(1)
    by (simp add: S2_def pair_at_def heartbeat_def)
  then have s2: "pair_step S1 S2"
    by (rule pair_next [OF _ ats(2) server_fine [OF n1(2)] server_fine [OF m1(2)]]) (use R Rs in simp_all)
  have "?step S2 S3"
    unfolding S3_def by (rule system_step.settle [OF _ _ m2(1)]) (use ats(2) in \<open>simp_all add: S2_def pair_at_def\<close>)
  then have "pair_step S2 S3"
    by (rule pair_next [OF _ ats(3) server_fine [OF n1(2)] server_fine [OF m2(2)]]) (use R Rs in simp_all)
  with s1 s2 have "pair_step\<^sup>*\<^sup>* S S3"
    by (meson rtranclp.rtrancl_into_rtrancl rtranclp.rtrancl_refl)
  with ats(3) m2(2) show ?thesis
    by blast
qed

text \<open>
  C6: a read can miss a write that was acknowledged before. A cluster of two servers reaches a
  state in which the leader answers the write of the key with success; it can go on, by
  an election and a round in which the other server confirms the new leader, to a state in which the
  new leader answers a read of that key, confirmed by both servers, with \<open>key not found\<close>.
\<close>

theorem read_misses_acknowledged_write:
  "\<exists>S S' n m. system_reachable {''n1'', ''n2''} pair_options S \<and> servers (core S) ''n1'' = Up n
     \<and> log_entry (db (store n)) 1 = Some (1, encodeSetCommand ''k'' ''v'') \<and> map_option cwrSuccess (Write_check 1 1 n) = Some True
     \<and> (system_step {''n1'', ''n2''} pair_options)\<^sup>*\<^sup>* S S' \<and> servers (core S') ''n2'' = Up m \<and> role m = RoleLeader
     \<and> Read_finish (Some \<lparr>crKey = ''k''\<rparr>) 2 m = (Inr (read_failure ''n2'' ''key not found''), m)"
proof -
  obtain S n m where run: "pair_step\<^sup>*\<^sup>* empty_system S" and at: "pair_at S (Up n) (Up m)" "requests S = {sent_first}"
    and n: "server_at ''n1'' ''n2'' RoleLeader 1 ''n1'' 1 one_row n" and m: "server_at ''n2'' ''n1'' RoleFollower 1 ''n1'' 0 one_row m"
    using pair_leader_commits by blast
  obtain S1 n1 m1 where S1: "pair_step\<^sup>*\<^sup>* S S1" "pair_at S1 (Up n1) (Up m1)" "requests S1 = {sent_first}"
    and n1: "server_at ''n1'' ''n2'' RoleFollower 2 ''n2'' 1 one_row n1"
    and m1: "server_at ''n2'' ''n1'' RoleLeader 2 ''n2'' 0 one_row m1" "nextIndex m1 ''n1'' = 2" "matchIndex m1 ''n1'' = 0"
    using pair_reelects [OF at(1) _ n m] at(2) by auto
  obtain S2 n2 m2 where S2: "pair_step\<^sup>*\<^sup>* S1 S2" "pair_at S2 (Up n2) (Up m2)" and m2: "server_at ''n2'' ''n1'' RoleLeader 2 ''n2'' 0 one_row m2"
    using pair_confirms [OF S1(2) _ n1 m1] S1(3) by auto
  have reach: "system_reachable {''n1'', ''n2''} pair_options S"
    by (rule pair_reachable [OF run])
  have "(system_step {''n1'', ''n2''} pair_options)\<^sup>*\<^sup>* x y" if "pair_step\<^sup>*\<^sup>* x y" for x y
    using that by (rule mono_rtranclp [THEN mp, rotated]) (simp add: pair_step_def)
  then have steps: "(system_step {''n1'', ''n2''} pair_options)\<^sup>*\<^sup>* S S2"
    using rtranclp_trans [OF S1(1) S2(1)] by blast
  have "map_option cwrSuccess (Write_check 1 1 n) = Some True"
    using n by (simp add: Write_check_def server_at_def)
  moreover have "log_entry (db (store n)) 1 = Some (1, encodeSetCommand ''k'' ''v'')"
    using one_row_entry [OF n] by (simp add: set_kv_def)
  moreover have "Read_finish (Some \<lparr>crKey = ''k''\<rparr>) 2 m2 = (Inr (read_failure ''n2'' ''key not found''), m2)"
    using m2 healthy_on_store [OF implements_Get, of m2 "''k''"]
    by (simp add: Read_finish_def server_at_def majorityLocked_def one_peer_def get_value_def ClientReadRequest_GetKey_def)
  ultimately show ?thesis
    using reach steps at(1) S2(2) m2 unfolding pair_at_def server_at_def
    by (intro exI [of _ S] exI [of _ S2] exI [of _ n] exI [of _ m2]) simp
qed

end
